theory Spec2Isabelle
  imports Main "HOL-Library.Word"
begin

unbundle bit_operations_syntax

section \<open>Bytes, addresses and the hash function\<close>

text \<open>
  Byte strings of the C code are \<open>string\<close>s (lists of 8-bit characters).  A pointer to a
  heap-allocated entry is an address, a natural number.  The integer types of the source
  keep their width: \<open>uint8_t\<close>, \<open>uint32_t\<close> and \<open>uint64_t\<close>/\<open>size_t\<close>/\<open>uintptr_t\<close> are
  8, 32 and 64 bit words.
\<close>

type_synonym addr = nat

definition CR :: char where "CR = CHR 0x0D"
definition LF :: char where "LF = CHR 0x0A"

definition FNV1_32_INIT :: "32 word" where "FNV1_32_INIT = 0x811c9dc5"
definition FNV_32_PRIME :: "32 word" where "FNV_32_PRIME = 0x01000193"

text \<open>The loop of \<open>mc_hash\<close>: \<open>h ^= *p++; h *= FNV_32_PRIME\<close> for every byte.\<close>

fun mc_hash_loop :: "32 word \<Rightarrow> string \<Rightarrow> 32 word" where
  "mc_hash_loop h [] = h"
| "mc_hash_loop h (c # cs) = mc_hash_loop ((h XOR of_nat (of_char c)) * FNV_32_PRIME) cs"

definition mc_hash :: "string \<Rightarrow> 32 word" where
  "mc_hash data = mc_hash_loop FNV1_32_INIT data"

section \<open>Memcache entries\<close>

text \<open>
  \<open>struct mc_entry\<close>.  The flexible array \<open>data\<close> holds the key bytes followed by the value
  bytes; the code reaches them only through \<open>mc_entry_key\<close> and \<open>mc_entry_value\<close>, so the two
  regions are the fields \<open>e_key\<close> and \<open>e_value\<close>.  The \<open>next\<close> pointer is represented by the
  position of the entry in its bucket chain and the \<open>link\<close> field by its position in
  \<open>mc_entry_list\<close>.
\<close>

record mc_entry =
  e_key_len :: "8 word"
  e_value_len :: "32 word"
  e_ref_count :: "32 word"
  e_flags :: "32 word"
  e_cas :: "64 word"
  e_key :: string
  e_value :: string

text \<open>The bytes behind \<open>mc_entry_key\<close> and \<open>mc_entry_value\<close>, with the lengths of the entry.\<close>

definition mc_entry_key :: "mc_entry \<Rightarrow> string" where
  "mc_entry_key entry = take (unat (e_key_len entry)) (e_key entry)"

definition mc_entry_value :: "mc_entry \<Rightarrow> string" where
  "mc_entry_value entry = take (unat (e_value_len entry)) (e_value entry)"

section \<open>The global state: table, heap and stamp counter\<close>

text \<open>
  \<open>struct mc_table\<close> (fields \<open>t_mask\<close> .. \<open>t_table\<close>), the list \<open>mc_entry_list\<close>, the static
  counter \<open>cas\<close> of \<open>mc_entry_create\<close>, and the memory holding the entries.  Memory is a
  total map from addresses to entry contents together with the allocation status
  \<open>live\<close>: \<open>mm_free\<close> clears the status and leaves the contents, as freeing does in C, so a
  read through a dangling pointer is visible as a read of an address that is not \<open>live\<close>.
  A bucket \<open>t_table i\<close> is the chain of entries reached from \<open>mc_table.table[i]\<close> through the
  \<open>next\<close> pointers.  \<open>posted\<close> counts the \<open>mc_table_stride_routine\<close> work items handed to
  \<open>mm_core_post\<close>.
\<close>

record mc_global =
  t_mask :: "32 word"
  t_size :: "32 word"
  t_used :: "32 word"
  t_striding :: bool
  t_nentries :: "64 word"
  t_table :: "32 word \<Rightarrow> addr list"
  mc_entry_list :: "addr list"
  heap :: "addr \<Rightarrow> mc_entry"
  live :: "addr \<Rightarrow> bool"
  cas_counter :: "64 word"
  posted :: nat

definition MC_TABLE_STRIDE :: nat where "MC_TABLE_STRIDE = 64"
definition MC_TABLE_SIZE_MIN :: "32 word" where "MC_TABLE_SIZE_MIN = 4 * 1024"
definition MC_TABLE_SIZE_MAX :: "32 word" where "MC_TABLE_SIZE_MAX = 512 * 1024 * 1024"

subsection \<open>Entry creation and reference counting\<close>

text \<open>
  The memory \<open>mm_alloc\<close> returns is not initialised: a region of \<open>n\<close> bytes holds what the
  memory held before (padded with zero bytes in the model).  \<open>write_bytes\<close> is \<open>memcpy\<close>
  into a region at an offset.
\<close>

definition region :: "nat \<Rightarrow> string \<Rightarrow> string" where
  "region n old = take n (old @ replicate n (CHR 0x00))"

definition write_bytes :: "nat \<Rightarrow> string \<Rightarrow> string \<Rightarrow> string" where
  "write_bytes off bytes reg = take off reg @ bytes @ drop (off + length bytes) reg"

text \<open>
  \<open>mc_entry_create\<close>: \<open>a\<close> is the address returned by \<open>mm_alloc\<close>.  Only \<open>key_len\<close>,
  \<open>value_len\<close> (a \<open>size_t\<close> argument stored in a 32-bit field), \<open>ref_count\<close> and \<open>cas\<close> are
  initialised; the flags and the bytes of the
  key and value regions keep what the memory held.  The stamp is \<open>++cas\<close> on the static
  64-bit counter.
\<close>

definition mc_entry_create :: "addr \<Rightarrow> 8 word \<Rightarrow> 64 word \<Rightarrow> mc_global \<Rightarrow> mc_global" where
  "mc_entry_create a key_len value_len s =
     s\<lparr>heap := (heap s)(a := (heap s a)\<lparr>e_key_len := key_len, e_value_len := ucast value_len,
                                         e_ref_count := 1, e_cas := cas_counter s + 1,
                                         e_key := region (unat key_len) (e_key (heap s a)),
                                         e_value := region (unat value_len) (e_value (heap s a))\<rparr>),
       live := (live s)(a := True),
       cas_counter := cas_counter s + 1\<rparr>"

definition mc_entry_destroy :: "addr \<Rightarrow> mc_global \<Rightarrow> mc_global" where
  "mc_entry_destroy a s = s\<lparr>live := (live s)(a := False)\<rparr>"

text \<open>\<open>mc_entry_ref\<close>: \<open>++ref_count\<close>; the \<open>ABORT\<close> on wrap-around to 0 is the result \<open>None\<close>.\<close>

definition mc_entry_ref :: "addr \<Rightarrow> mc_global \<Rightarrow> mc_global option" where
  "mc_entry_ref a s =
     (let rc = e_ref_count (heap s a) + 1
      in if rc = 0 then None
         else Some (s\<lparr>heap := (heap s)(a := (heap s a)\<lparr>e_ref_count := rc\<rparr>)\<rparr>))"

definition mc_entry_unref :: "addr \<Rightarrow> mc_global \<Rightarrow> mc_global" where
  "mc_entry_unref a s =
     (let rc = e_ref_count (heap s a) - 1;
          s' = s\<lparr>heap := (heap s)(a := (heap s a)\<lparr>e_ref_count := rc\<rparr>)\<rparr>
      in if rc = 0 then mc_entry_destroy a s' else s')"

definition mc_entry_set_key :: "addr \<Rightarrow> string \<Rightarrow> mc_global \<Rightarrow> mc_global" where
  "mc_entry_set_key a k s =
     s\<lparr>heap := (heap s)(a := (heap s a)\<lparr>e_key :=
        write_bytes 0 (take (unat (e_key_len (heap s a))) k) (e_key (heap s a))\<rparr>)\<rparr>"

subsection \<open>Bucket index\<close>

definition mc_table_index :: "mc_global \<Rightarrow> 32 word \<Rightarrow> 32 word" where
  "mc_table_index s h =
     (let msk = t_mask s; index = h AND msk
      in if index \<ge> t_used s then index AND (drop_bit 1 msk) else index)"

text \<open>\<open>mc_table_key_index\<close> takes the key length as \<open>uint8_t\<close>.\<close>

definition mc_table_key_index :: "mc_global \<Rightarrow> string \<Rightarrow> 8 word \<Rightarrow> 32 word" where
  "mc_table_key_index s k key_len = mc_table_index s (mc_hash (take (unat key_len) k))"

definition mc_table_is_full :: "mc_global \<Rightarrow> bool" where
  "mc_table_is_full s =
     (if t_size s = MC_TABLE_SIZE_MAX \<and> t_used s = t_size s then False
      else t_nentries s > ucast (t_size s * 4))"

subsection \<open>Expansion and striding\<close>

text \<open>
  \<open>mc_table_expand\<close> maps fresh anonymous (zero-filled) memory behind the old bucket
  array: the buckets from the old size up to the new one are empty chains.
\<close>

definition mc_table_expand :: "32 word \<Rightarrow> mc_global \<Rightarrow> mc_global" where
  "mc_table_expand new_size s =
     s\<lparr>t_table := (\<lambda>i. if t_size s \<le> i \<and> i < new_size then [] else t_table s i),
       t_size := new_size, t_mask := new_size - 1\<rparr>"

text \<open>
  \<open>entry_hash\<close> is \<open>mc_hash(entry->data, entry->key_len)\<close>, the hash of the key region.
  The inner \<open>while\<close> loop of \<open>mc_table_stride\<close>: every entry of the source chain is pushed
  on the front of \<open>s_entries\<close> when its hash under the mask is the source index, and on the
  front of \<open>t_entries\<close> otherwise.
\<close>

definition entry_hash :: "(addr \<Rightarrow> mc_entry) \<Rightarrow> addr \<Rightarrow> 32 word" where
  "entry_hash hp entry = mc_hash (take (unat (e_key_len (hp entry))) (e_key (hp entry)))"

fun split_chain :: "(addr \<Rightarrow> mc_entry) \<Rightarrow> 32 word \<Rightarrow> 32 word \<Rightarrow> addr list
                     \<Rightarrow> addr list \<Rightarrow> addr list \<Rightarrow> addr list \<times> addr list" where
  "split_chain hp msk source [] s_entries t_entries = (s_entries, t_entries)"
| "split_chain hp msk source (entry # rest) s_entries t_entries =
     (let h = entry_hash hp entry;
          index = h AND msk
      in if index = source then split_chain hp msk source rest (entry # s_entries) t_entries
         else split_chain hp msk source rest s_entries (entry # t_entries))"

text \<open>The \<open>for\<close> loop of \<open>mc_table_stride\<close>, with the number of rounds still to run.\<close>

fun stride_loop :: "nat \<Rightarrow> (addr \<Rightarrow> mc_entry) \<Rightarrow> 32 word \<Rightarrow> 32 word \<Rightarrow> 32 word
                     \<Rightarrow> (32 word \<Rightarrow> addr list) \<Rightarrow> (32 word \<Rightarrow> addr list)" where
  "stride_loop 0 hp msk source target tb = tb"
| "stride_loop (Suc n) hp msk source target tb =
     (let (s_entries, t_entries) = split_chain hp msk source (tb source) [] [];
          tb1 = tb(source := s_entries);
          tb2 = tb1(target := t_entries)
      in stride_loop n hp msk (source + 1) (target + 1) tb2)"

definition mc_table_stride :: "mc_global \<Rightarrow> mc_global" where
  "mc_table_stride s =
     (let msk = t_mask s;
          target = t_used s;
          source = target - t_size s div 2
      in s\<lparr>t_table := stride_loop MC_TABLE_STRIDE (heap s) msk source target (t_table s),
           t_used := t_used s + of_nat MC_TABLE_STRIDE\<rparr>)"

definition mc_table_start_striding :: "mc_global \<Rightarrow> mc_global" where
  "mc_table_start_striding s = s\<lparr>posted := posted s + 1\<rparr>"

definition mc_table_stride_routine :: "mc_global \<Rightarrow> mc_global" where
  "mc_table_stride_routine s =
     (let s1 = (if t_used s = t_size s then mc_table_expand (t_size s * 2) s else s);
          s2 = mc_table_stride s1
      in if mc_table_is_full s2 then mc_table_start_striding s2
         else s2\<lparr>t_striding := False\<rparr>)"

subsection \<open>Lookup, removal and insertion\<close>

definition key_match :: "(addr \<Rightarrow> mc_entry) \<Rightarrow> string \<Rightarrow> 8 word \<Rightarrow> addr \<Rightarrow> bool" where
  "key_match hp k key_len a =
     (key_len = e_key_len (hp a) \<and> take (unat key_len) k = take (unat key_len) (e_key (hp a)))"

fun lookup_chain :: "(addr \<Rightarrow> mc_entry) \<Rightarrow> string \<Rightarrow> 8 word \<Rightarrow> addr list \<Rightarrow> addr option" where
  "lookup_chain hp k key_len [] = None"
| "lookup_chain hp k key_len (a # rest) =
     (if key_match hp k key_len a then Some a else lookup_chain hp k key_len rest)"

definition mc_table_lookup :: "mc_global \<Rightarrow> 32 word \<Rightarrow> string \<Rightarrow> 8 word \<Rightarrow> addr option" where
  "mc_table_lookup s index k key_len = lookup_chain (heap s) k key_len (t_table s index)"

fun remove_chain :: "(addr \<Rightarrow> mc_entry) \<Rightarrow> string \<Rightarrow> 8 word \<Rightarrow> addr list \<Rightarrow> addr list" where
  "remove_chain hp k key_len [] = []"
| "remove_chain hp k key_len (a # rest) =
     (if key_match hp k key_len a then rest else a # remove_chain hp k key_len rest)"

text \<open>
  \<open>mc_table_remove\<close> unlinks the first entry of the chain with the key, takes it off
  \<open>mc_entry_list\<close> and decrements \<open>nentries\<close>; it returns the entry, or \<open>NULL\<close>.
\<close>

definition mc_table_remove :: "32 word \<Rightarrow> string \<Rightarrow> 8 word \<Rightarrow> mc_global
                                \<Rightarrow> addr option \<times> mc_global" where
  "mc_table_remove index k key_len s =
     (case lookup_chain (heap s) k key_len (t_table s index) of
        None \<Rightarrow> (None, s)
      | Some a \<Rightarrow>
          (Some a,
           s\<lparr>mc_entry_list := remove1 a (mc_entry_list s),
             t_table := (t_table s)(index := remove_chain (heap s) k key_len (t_table s index)),
             t_nentries := t_nentries s - 1\<rparr>))"

definition mc_table_insert :: "32 word \<Rightarrow> addr \<Rightarrow> mc_global \<Rightarrow> mc_global" where
  "mc_table_insert index a s =
     (let s1 = s\<lparr>mc_entry_list := mc_entry_list s @ [a],
                 t_table := (t_table s)(index := a # t_table s index),
                 t_nentries := t_nentries s + 1\<rparr>
      in if \<not> t_striding s1 \<and> mc_table_is_full s1
         then mc_table_start_striding (s1\<lparr>t_striding := True\<rparr>)
         else s1)"

section \<open>Decimal numbers in entries\<close>

text \<open>
  The decimal representation of a natural number, without leading zeros: what the claims
  call the decimal representation of a value, and what \<open>printf\<close> prints for \<open>%u\<close> and
  \<open>%llu\<close>.
\<close>

fun dec :: "nat \<Rightarrow> string" where
  "dec n = (if n < 10 then [char_of (48 + n)] else dec (n div 10) @ [char_of (48 + n mod 10)])"

text \<open>\<open>isdigit\<close> of the C library on a byte.\<close>

definition isdigit :: "char \<Rightarrow> bool" where
  "isdigit c = (48 \<le> (of_char c :: nat) \<and> (of_char c :: nat) \<le> 57)"

text \<open>
  The loop of \<open>mc_entry_value_u64\<close>: \<open>vv = v * 10 + c - '0'\<close> in 64-bit arithmetic, giving
  up (\<open>None\<close> for the result \<open>false\<close>) on a byte that is no digit and when \<open>vv < v\<close>.
\<close>

fun value_u64_loop :: "64 word \<Rightarrow> string \<Rightarrow> 64 word option" where
  "value_u64_loop v [] = Some v"
| "value_u64_loop v (c # cs) =
     (if \<not> isdigit c then None
      else let vv = v * 10 + of_nat (of_char c) - 48
           in if vv < v then None else value_u64_loop vv cs)"

definition mc_entry_value_u64 :: "mc_entry \<Rightarrow> 64 word option" where
  "mc_entry_value_u64 entry =
     (if e_value_len entry = 0 then None
      else value_u64_loop 0 (take (unat (e_value_len entry)) (e_value entry)))"

text \<open>
  The first loop of \<open>mc_entry_create_u64\<close> fills \<open>buffer\<close> with the digits of the value,
  the least significant first (a \<open>do .. while (value)\<close> loop).
\<close>

function u64_digits :: "64 word \<Rightarrow> string" where
  "u64_digits v =
     char_of (48 + unat (v mod 10)) # (if v div 10 = 0 then [] else u64_digits (v div 10))"
  by pat_completeness auto
termination
proof (relation "measure unat")
  show "wf (measure unat)" by simp
next
  fix v :: "64 word"
  have d: "unat (v div 10) = unat v div 10" by (simp add: unat_div)
  assume "v div 10 \<noteq> 0"
  then have "unat (v div 10) \<noteq> 0" by (simp add: unat_eq_zero)
  then have "unat v div 10 < unat v" unfolding d by simp
  then show "(v div 10, v) \<in> measure unat" by (simp add: d)
qed

text \<open>
  The second loop, \<open>do { i = entry->value_len - value_len--; v[i] = buffer[value_len]; }
  while (value_len)\<close>, copies the buffer backwards into the value region \<open>v\<close>.  The
  counter starts at the number of digits, which is at least one.
\<close>

function fill_digits :: "nat \<Rightarrow> string \<Rightarrow> nat \<Rightarrow> string \<Rightarrow> string" where
  "fill_digits value_len buffer entry_len v =
     (let i = entry_len - value_len;
          n = value_len - 1;
          v' = v[i := buffer ! n]
      in if n = 0 then v' else fill_digits n buffer entry_len v')"
  by pat_completeness auto
termination
  by (relation "measure (\<lambda>(value_len, buffer, entry_len, v). value_len)") auto


section \<open>Commands and their results\<close>

text \<open>
  \<open>struct mc_value\<close>: the payload of a storage command is the \<open>v_bytes\<close> bytes that start at
  \<open>value->start\<close> in the receive buffer; \<open>v_data\<close> is the buffer content from that position
  on, the segments of the chain joined.
\<close>

record mc_value =
  v_data :: string
  v_bytes :: "32 word"

text \<open>
  \<open>union mc_params\<close>, with the fields of its member structs side by side: the keys of
  \<open>get\<close>, the key, flags, expiration time and value of the storage commands, the stamp
  of \<open>cas\<close>, the operand of \<open>incr\<close> and \<open>decr\<close>, and the \<open>noreply\<close> flag.  A \<open>struct
  mc_string\<close> is the string of its \<open>len\<close> bytes.  \<open>par_keys\<close> is the content of the array
  \<open>params.get.keys\<close> and \<open>par_keys_ptr\<close> the pointer itself, \<open>None\<close> for \<open>NULL\<close>:
  \<open>mc_parse_get\<close> stores \<open>NULL\<close> or the array it allocated there, and in a command
  whose parse routine has not run it is what the memory of the command held.
\<close>

record mc_params =
  par_keys :: "string list"
  par_keys_ptr :: "addr option"
  par_key :: string
  par_flags :: "32 word"
  par_exptime :: "32 word"
  par_value :: mc_value
  par_cas :: "64 word"
  par_inc :: "64 word"
  par_noreply :: bool

text \<open>\<open>mc_result_t\<close> together with the member of \<open>union mc_result\<close> that it selects.\<close>

datatype mc_result =
    MC_RESULT_NONE
  | MC_RESULT_BLANK
  | MC_RESULT_REPLY string
  | MC_RESULT_ENTRY "addr list"
  | MC_RESULT_ENTRY_CAS "addr list"
  | MC_RESULT_VALUE addr
  | MC_RESULT_QUIT

text \<open>The command descriptors \<open>mc_desc_get\<close> .. \<open>mc_desc_verbosity\<close>.\<close>

datatype mc_desc =
    mc_desc_get | mc_desc_gets | mc_desc_set | mc_desc_add | mc_desc_replace
  | mc_desc_append | mc_desc_prepend | mc_desc_cas | mc_desc_incr | mc_desc_decr
  | mc_desc_delete | mc_desc_touch | mc_desc_slabs | mc_desc_stats | mc_desc_flush_all
  | mc_desc_verbosity

text \<open>
  \<open>struct mc_command\<close>; the \<open>next\<close> pointer is the position in the queue of the connection.
\<close>

record mc_command =
  c_desc :: "mc_desc option"
  c_params :: mc_params
  c_result :: mc_result

definition no_params :: mc_params where
  "no_params = \<lparr>par_keys = [], par_keys_ptr = None, par_key = [], par_flags = 0, par_exptime = 0,
                 par_value = \<lparr>v_data = [], v_bytes = 0\<rparr>, par_cas = 0, par_inc = 0,
                 par_noreply = False\<rparr>"

definition mc_command_create :: mc_command where
  "mc_command_create = \<lparr>c_desc = None, c_params = no_params, c_result = MC_RESULT_NONE\<rparr>"

definition mc_reply :: "mc_command \<Rightarrow> string \<Rightarrow> mc_command" where
  "mc_reply command str = command\<lparr>c_result := MC_RESULT_REPLY str\<rparr>"

definition mc_blank :: "mc_command \<Rightarrow> mc_command" where
  "mc_blank command = command\<lparr>c_result := MC_RESULT_BLANK\<rparr>"

definition crlf :: string where
  "crlf = [CR, LF]"

section \<open>Command processing\<close>

text \<open>
  A processor takes the address \<open>a\<close> that \<open>mm_alloc\<close> returns should it allocate an entry,
  the command and the global state; it returns the command with its result and the new
  state.  The result \<open>None\<close> stands for a run that ends in \<open>ABORT\<close> or dereferences \<open>NULL\<close>.
  Key lengths are narrowed to \<open>uint8_t\<close> where the callee takes them so.
\<close>

definition mc_process_value :: "addr \<Rightarrow> mc_value \<Rightarrow> 32 word \<Rightarrow> mc_global \<Rightarrow> mc_global" where
  "mc_process_value a val offset s =
     s\<lparr>heap := (heap s)(a := (heap s a)\<lparr>e_value :=
        write_bytes (unat offset) (take (unat (v_bytes val)) (v_data val)) (e_value (heap s a))\<rparr>)\<rparr>"

definition set_flags :: "addr \<Rightarrow> 32 word \<Rightarrow> mc_global \<Rightarrow> mc_global" where
  "set_flags a f s = s\<lparr>heap := (heap s)(a := (heap s a)\<lparr>e_flags := f\<rparr>)\<rparr>"

fun get_loop :: "string list \<Rightarrow> addr list \<Rightarrow> mc_global \<Rightarrow> (addr list \<times> mc_global) option" where
  "get_loop [] entries s = Some (entries, s)"
| "get_loop (k # ks) entries s =
     (let key_len = of_nat (length k) :: 8 word;
          index = mc_table_key_index s k key_len
      in case mc_table_lookup s index k key_len of
           None \<Rightarrow> get_loop ks entries s
         | Some entry \<Rightarrow>
             (case mc_entry_ref entry s of
                None \<Rightarrow> None
              | Some s' \<Rightarrow> get_loop ks (entries @ [entry]) s'))"

definition mc_process_get :: "mc_command \<Rightarrow> mc_global \<Rightarrow> (mc_command \<times> mc_global) option" where
  "mc_process_get command s =
     (case get_loop (par_keys (c_params command)) [] s of
        None \<Rightarrow> None
      | Some (entries, s') \<Rightarrow> Some (command\<lparr>c_result := MC_RESULT_ENTRY entries\<rparr>, s'))"

definition mc_process_gets :: "mc_command \<Rightarrow> mc_global \<Rightarrow> (mc_command \<times> mc_global) option" where
  "mc_process_gets command s =
     (case get_loop (par_keys (c_params command)) [] s of
        None \<Rightarrow> None
      | Some (entries, s') \<Rightarrow> Some (command\<lparr>c_result := MC_RESULT_ENTRY_CAS entries\<rparr>, s'))"

definition mc_process_set :: "addr \<Rightarrow> mc_command \<Rightarrow> mc_global \<Rightarrow> (mc_command \<times> mc_global) option" where
  "mc_process_set a command s =
     (let k = par_key (c_params command);
          key_len = of_nat (length k) :: 8 word;
          val = par_value (c_params command);
          index = mc_table_key_index s k key_len;
          (old_entry, s1) = mc_table_remove index k key_len s;
          s2 = (case old_entry of None \<Rightarrow> s1 | Some old \<Rightarrow> mc_entry_unref old s1);
          s3 = mc_entry_create a key_len (ucast (v_bytes val)) s2;
          s4 = mc_entry_set_key a k s3;
          s5 = mc_process_value a val 0 s4;
          s6 = set_flags a (par_flags (c_params command)) s5;
          s7 = mc_table_insert index a s6
      in case mc_entry_ref a s7 of
           None \<Rightarrow> None
         | Some s8 \<Rightarrow>
             Some (if par_noreply (c_params command) then mc_blank command
                   else mc_reply command (''STORED'' @ crlf), s8))"

definition mc_process_add :: "addr \<Rightarrow> mc_command \<Rightarrow> mc_global \<Rightarrow> (mc_command \<times> mc_global) option" where
  "mc_process_add a command s =
     (let k = par_key (c_params command);
          key_len = of_nat (length k) :: 8 word;
          val = par_value (c_params command);
          index = mc_table_key_index s k key_len;
          old_entry = mc_table_lookup s index k key_len;
          s' = (if old_entry = None
                then mc_table_insert index a
                       (set_flags a (par_flags (c_params command))
                          (mc_process_value a val 0
                             (mc_entry_set_key a k
                                (mc_entry_create a key_len (ucast (v_bytes val)) s))))
                else s)
      in Some (if par_noreply (c_params command) then mc_blank command
               else if old_entry = None then mc_reply command (''STORED'' @ crlf)
               else mc_reply command (''NOT_STORED'' @ crlf), s'))"

definition mc_process_replace :: "addr \<Rightarrow> mc_command \<Rightarrow> mc_global \<Rightarrow> (mc_command \<times> mc_global) option" where
  "mc_process_replace a command s =
     (let k = par_key (c_params command);
          key_len = of_nat (length k) :: 8 word;
          val = par_value (c_params command);
          index = mc_table_key_index s k key_len;
          (old_entry, s1) = mc_table_remove index k key_len s;
          s' = (case old_entry of
                  None \<Rightarrow> s1
                | Some old \<Rightarrow>
                    mc_table_insert index a
                      (set_flags a (par_flags (c_params command))
                         (mc_process_value a val 0
                            (mc_entry_set_key a k
                               (mc_entry_create a key_len (ucast (v_bytes val))
                                  (mc_entry_unref old s1))))))
      in Some (if par_noreply (c_params command) then mc_blank command
               else if old_entry \<noteq> None then mc_reply command (''STORED'' @ crlf)
               else mc_reply command (''NOT_STORED'' @ crlf), s'))"

definition mc_process_cas :: "addr \<Rightarrow> mc_command \<Rightarrow> mc_global \<Rightarrow> (mc_command \<times> mc_global) option" where
  "mc_process_cas a command s =
     (let k = par_key (c_params command);
          key_len = of_nat (length k) :: 8 word;
          val = par_value (c_params command);
          index = mc_table_key_index s k key_len;
          old_entry = mc_table_lookup s index k key_len;
          stored = (case old_entry of
                      None \<Rightarrow> False
                    | Some old \<Rightarrow> e_cas (heap s old) = par_cas (c_params command));
          command' = (if par_noreply (c_params command) then mc_blank command
                      else if stored then mc_reply command (''STORED'' @ crlf)
                      else if old_entry \<noteq> None then mc_reply command (''EXISTS'' @ crlf)
                      else mc_reply command (''NOT_FOUND'' @ crlf))
      in if stored
         then (case mc_table_remove index k key_len s of
                 (None, s1) \<Rightarrow> None
               | (Some old_entry2, s1) \<Rightarrow>
                   Some (command',
                         mc_table_insert index a
                           (set_flags a (par_flags (c_params command))
                              (mc_process_value a val 0
                                 (mc_entry_set_key a k
                                    (mc_entry_create a key_len (ucast (v_bytes val))
                                       (mc_entry_unref old_entry2 s1)))))))
         else Some (command', s))"

text \<open>
  \<open>mc_process_append\<close> and \<open>mc_process_prepend\<close>: the length of the new value is the sum of
  two \<open>uint32_t\<close>, taken in 32 bits and then widened to the \<open>size_t\<close> argument of
  \<open>mc_entry_create\<close>.
\<close>

definition mc_process_append :: "addr \<Rightarrow> mc_command \<Rightarrow> mc_global \<Rightarrow> (mc_command \<times> mc_global) option" where
  "mc_process_append a command s =
     (let k = par_key (c_params command);
          key_len = of_nat (length k) :: 8 word;
          val = par_value (c_params command);
          index = mc_table_key_index s k key_len;
          (old_entry, s1) = mc_table_remove index k key_len s;
          s' = (case old_entry of
                  None \<Rightarrow> s1
                | Some old \<Rightarrow>
                    (let old_len = e_value_len (heap s1 old);
                         s2 = mc_entry_create a key_len (ucast (old_len + v_bytes val)) s1;
                         s3 = mc_entry_set_key a k s2;
                         s4 = s3\<lparr>heap := (heap s3)(a := (heap s3 a)\<lparr>e_value :=
                                 write_bytes 0 (take (unat old_len) (e_value (heap s3 old)))
                                   (e_value (heap s3 a))\<rparr>)\<rparr>;
                         s5 = mc_process_value a val old_len s4;
                         s6 = set_flags a (e_flags (heap s5 old)) s5;
                         s7 = mc_table_insert index a s6
                     in mc_entry_unref old s7))
      in Some (if par_noreply (c_params command) then mc_blank command
               else if old_entry \<noteq> None then mc_reply command (''STORED'' @ crlf)
               else mc_reply command (''NOT_STORED'' @ crlf), s'))"

definition mc_process_prepend :: "addr \<Rightarrow> mc_command \<Rightarrow> mc_global \<Rightarrow> (mc_command \<times> mc_global) option" where
  "mc_process_prepend a command s =
     (let k = par_key (c_params command);
          key_len = of_nat (length k) :: 8 word;
          val = par_value (c_params command);
          index = mc_table_key_index s k key_len;
          (old_entry, s1) = mc_table_remove index k key_len s;
          s' = (case old_entry of
                  None \<Rightarrow> s1
                | Some old \<Rightarrow>
                    (let old_len = e_value_len (heap s1 old);
                         s2 = mc_entry_create a key_len (ucast (old_len + v_bytes val)) s1;
                         s3 = mc_entry_set_key a k s2;
                         s4 = mc_process_value a val 0 s3;
                         s5 = s4\<lparr>heap := (heap s4)(a := (heap s4 a)\<lparr>e_value :=
                                 write_bytes (unat (v_bytes val))
                                   (take (unat old_len) (e_value (heap s4 old)))
                                   (e_value (heap s4 a))\<rparr>)\<rparr>;
                         s6 = set_flags a (e_flags (heap s5 old)) s5;
                         s7 = mc_table_insert index a s6
                     in mc_entry_unref old s7))
      in Some (if par_noreply (c_params command) then mc_blank command
               else if old_entry \<noteq> None then mc_reply command (''STORED'' @ crlf)
               else mc_reply command (''NOT_STORED'' @ crlf), s'))"

text \<open>
  \<open>mc_entry_create_u64\<close>: the digits are produced into the buffer, the entry is created
  with as many value bytes, and the buffer is copied backwards into the value region.
\<close>

definition mc_entry_create_u64 :: "addr \<Rightarrow> 8 word \<Rightarrow> 64 word \<Rightarrow> mc_global \<Rightarrow> mc_global" where
  "mc_entry_create_u64 a key_len v s =
     (let buffer = u64_digits v;
          value_len = length buffer;
          s1 = mc_entry_create a key_len (of_nat value_len) s;
          entry = heap s1 a
      in s1\<lparr>heap := (heap s1)(a := entry\<lparr>e_value :=
            fill_digits value_len buffer (unat (e_value_len entry)) (e_value entry)\<rparr>)\<rparr>)"

definition non_numeric :: string where
  "non_numeric = ''CLIENT_ERROR cannot increment or decrement non-numeric value'' @ crlf"

text \<open>
  The common shape of \<open>mc_process_incr\<close> and \<open>mc_process_decr\<close>, which differ in the new
  value only: the entry with the new number is created, the old one is removed from the
  table and released, and the new one inserted.
\<close>

definition inc_store :: "addr \<Rightarrow> mc_command \<Rightarrow> 32 word \<Rightarrow> addr \<Rightarrow> 64 word \<Rightarrow> mc_global
                          \<Rightarrow> (mc_command \<times> mc_global) option" where
  "inc_store a command index old_entry v s =
     (let k = par_key (c_params command);
          key_len = of_nat (length k) :: 8 word;
          s1 = mc_entry_create_u64 a key_len v s;
          s2 = mc_entry_set_key a k s1;
          s3 = set_flags a (e_flags (heap s2 old_entry)) s2
      in case mc_table_remove index k key_len s3 of
           (None, s4) \<Rightarrow> None
         | (Some old_entry2, s4) \<Rightarrow>
             (let s5 = mc_entry_unref old_entry2 s4;
                  s6 = mc_table_insert index a s5
              in if par_noreply (c_params command) then Some (mc_blank command, s6)
                 else (case mc_entry_ref a s6 of
                         None \<Rightarrow> None
                       | Some s7 \<Rightarrow> Some (command\<lparr>c_result := MC_RESULT_VALUE a\<rparr>, s7))))"

definition inc_fail :: "mc_command \<Rightarrow> addr option \<Rightarrow> mc_command" where
  "inc_fail command old_entry =
     (if par_noreply (c_params command) then mc_blank command
      else if old_entry \<noteq> None then mc_reply command non_numeric
      else mc_reply command (''NOT_FOUND'' @ crlf))"

definition mc_process_incr :: "addr \<Rightarrow> mc_command \<Rightarrow> mc_global \<Rightarrow> (mc_command \<times> mc_global) option" where
  "mc_process_incr a command s =
     (let k = par_key (c_params command);
          key_len = of_nat (length k) :: 8 word;
          index = mc_table_key_index s k key_len;
          old_entry = mc_table_lookup s index k key_len
      in case old_entry of
           None \<Rightarrow> Some (inc_fail command old_entry, s)
         | Some old \<Rightarrow>
             (case mc_entry_value_u64 (heap s old) of
                None \<Rightarrow> Some (inc_fail command old_entry, s)
              | Some v \<Rightarrow> inc_store a command index old (v + par_inc (c_params command)) s))"

definition mc_process_decr :: "addr \<Rightarrow> mc_command \<Rightarrow> mc_global \<Rightarrow> (mc_command \<times> mc_global) option" where
  "mc_process_decr a command s =
     (let k = par_key (c_params command);
          key_len = of_nat (length k) :: 8 word;
          index = mc_table_key_index s k key_len;
          old_entry = mc_table_lookup s index k key_len
      in case old_entry of
           None \<Rightarrow> Some (inc_fail command old_entry, s)
         | Some old \<Rightarrow>
             (case mc_entry_value_u64 (heap s old) of
                None \<Rightarrow> Some (inc_fail command old_entry, s)
              | Some v \<Rightarrow>
                  inc_store a command index old
                    (if v > par_inc (c_params command) then v - par_inc (c_params command) else 0) s))"

text \<open>
  \<open>mc_process_delete\<close> ends with \<open>mc_entry_destroy(old_entry)\<close>; freeing \<open>NULL\<close> does
  nothing.
\<close>

definition mc_process_delete :: "mc_command \<Rightarrow> mc_global \<Rightarrow> (mc_command \<times> mc_global) option" where
  "mc_process_delete command s =
     (let k = par_key (c_params command);
          key_len = of_nat (length k) :: 8 word;
          index = mc_table_key_index s k key_len;
          (old_entry, s1) = mc_table_remove index k key_len s;
          command' = (if par_noreply (c_params command) then mc_blank command
                      else if old_entry \<noteq> None then mc_reply command (''DELETED'' @ crlf)
                      else mc_reply command (''NOT_FOUND'' @ crlf))
      in Some (command',
               case old_entry of None \<Rightarrow> s1 | Some old \<Rightarrow> mc_entry_destroy old s1))"

definition not_implemented :: "mc_command \<Rightarrow> mc_global \<Rightarrow> (mc_command \<times> mc_global) option" where
  "not_implemented command s = Some (mc_reply command (''SERVER_ERROR not implemented'' @ crlf), s)"

definition mc_process_dummy :: "mc_command \<Rightarrow> mc_global \<Rightarrow> (mc_command \<times> mc_global) option" where
  "mc_process_dummy command s = Some (command, s)"

text \<open>The \<open>process\<close> member of a descriptor, as the table of \<open>MC_DESC\<close> lines sets it.\<close>

fun desc_process :: "mc_desc \<Rightarrow> addr \<Rightarrow> mc_command \<Rightarrow> mc_global \<Rightarrow> (mc_command \<times> mc_global) option" where
  "desc_process mc_desc_get a = mc_process_get"
| "desc_process mc_desc_gets a = mc_process_gets"
| "desc_process mc_desc_set a = mc_process_set a"
| "desc_process mc_desc_add a = mc_process_add a"
| "desc_process mc_desc_replace a = mc_process_replace a"
| "desc_process mc_desc_append a = mc_process_append a"
| "desc_process mc_desc_prepend a = mc_process_prepend a"
| "desc_process mc_desc_cas a = mc_process_cas a"
| "desc_process mc_desc_incr a = mc_process_incr a"
| "desc_process mc_desc_decr a = mc_process_decr a"
| "desc_process mc_desc_delete a = mc_process_delete"
| "desc_process mc_desc_touch a = not_implemented"
| "desc_process mc_desc_slabs a = not_implemented"
| "desc_process mc_desc_stats a = not_implemented"
| "desc_process mc_desc_flush_all a = not_implemented"
| "desc_process mc_desc_verbosity a = mc_process_dummy"

text \<open>
  The \<open>destroy\<close> member.  \<open>mm_free\<close> on a pointer clears the allocation status of its
  address and does nothing on \<open>NULL\<close>.  \<open>mc_destroy_get\<close> and \<open>mc_destroy_gets\<close> free the
  array of keys, whatever the pointer holds, and release the entries of the result; the
  array \<open>result.entries.entries\<close> is the list carried by the result and has no address
  here, so that freeing it changes nothing.
\<close>

definition mm_free :: "addr option \<Rightarrow> mc_global \<Rightarrow> mc_global" where
  "mm_free p s = (case p of None \<Rightarrow> s | Some a \<Rightarrow> s\<lparr>live := (live s)(a := False)\<rparr>)"

fun unref_all :: "addr list \<Rightarrow> mc_global \<Rightarrow> mc_global" where
  "unref_all [] s = s"
| "unref_all (e # es) s = unref_all es (mc_entry_unref e s)"

definition mc_destroy_get :: "mc_command \<Rightarrow> mc_global \<Rightarrow> mc_global" where
  "mc_destroy_get command s =
     (let s1 = mm_free (par_keys_ptr (c_params command)) s
      in case c_result command of MC_RESULT_ENTRY entries \<Rightarrow> unref_all entries s1 | _ \<Rightarrow> s1)"

definition mc_destroy_gets :: "mc_command \<Rightarrow> mc_global \<Rightarrow> mc_global" where
  "mc_destroy_gets command s =
     (let s1 = mm_free (par_keys_ptr (c_params command)) s
      in case c_result command of MC_RESULT_ENTRY_CAS entries \<Rightarrow> unref_all entries s1 | _ \<Rightarrow> s1)"

definition mc_destroy_incr :: "mc_command \<Rightarrow> mc_global \<Rightarrow> mc_global" where
  "mc_destroy_incr command s =
     (case c_result command of MC_RESULT_VALUE entry \<Rightarrow> mc_entry_unref entry s | _ \<Rightarrow> s)"

fun desc_destroy :: "mc_desc \<Rightarrow> mc_command \<Rightarrow> mc_global \<Rightarrow> mc_global" where
  "desc_destroy mc_desc_get = mc_destroy_get"
| "desc_destroy mc_desc_gets = mc_destroy_gets"
| "desc_destroy mc_desc_incr = mc_destroy_incr"
| "desc_destroy mc_desc_decr = mc_destroy_incr"
| "desc_destroy d = (\<lambda>command s. s)"

definition mc_command_destroy :: "mc_command \<Rightarrow> mc_global \<Rightarrow> mc_global" where
  "mc_command_destroy command s =
     (case c_desc command of None \<Rightarrow> s | Some d \<Rightarrow> desc_destroy d command s)"

section \<open>The connection: command queue and transmit buffer\<close>

text \<open>
  The transmit buffer is a sequence of chunks: bytes copied into it by \<open>mm_buffer_append\<close>
  and \<open>mm_buffer_printf\<close>, and spliced regions, which \<open>mm_buffer_splice\<close> records as the
  entry whose value they borrow and the length.  \<open>struct mc_state\<close> keeps the commands
  from \<open>command_head\<close> to \<open>command_tail\<close> as a list, the transmit buffer, the quit flag;
  \<open>st_closed\<close> records \<open>mm_net_close\<close>, \<open>st_writers\<close> counts \<open>mm_net_spawn_writer\<close> and
  \<open>st_output\<close> collects the bytes written to the socket.  The receive buffer and the parse
  position belong to the parser.
\<close>

datatype tchunk = Data string | Splice addr "32 word"

record mc_state =
  st_queue :: "mc_command list"
  st_tbuf :: "tchunk list"
  st_quit :: bool
  st_closed :: bool
  st_writers :: nat
  st_output :: string

definition mc_create :: mc_state where
  "mc_create = \<lparr>st_queue = [], st_tbuf = [], st_quit = False, st_closed = False,
                 st_writers = 0, st_output = []\<rparr>"

definition mc_queue_command :: "mc_state \<Rightarrow> mc_command \<Rightarrow> mc_state" where
  "mc_queue_command state command = state\<lparr>st_queue := st_queue state @ [command]\<rparr>"

definition mc_process_command :: "addr \<Rightarrow> mc_state \<Rightarrow> mc_command \<Rightarrow> mc_global
                                   \<Rightarrow> (mc_state \<times> mc_global) option" where
  "mc_process_command a state command s =
     (case (case c_desc command of
              None \<Rightarrow> Some (command, s)
            | Some d \<Rightarrow>
                if c_result command = MC_RESULT_NONE then desc_process d a command s
                else Some (command, s)) of
        None \<Rightarrow> None
      | Some (command', s') \<Rightarrow>
          Some ((mc_queue_command state command')\<lparr>st_writers := st_writers state + 1\<rparr>, s'))"

subsection \<open>Encoding of results\<close>

text \<open>
  \<open>printf\<close> with \<open>%.*s\<close> prints the bytes of the string up to the precision, stopping at a
  zero byte.
\<close>

definition printf_s :: "nat \<Rightarrow> string \<Rightarrow> string" where
  "printf_s prec str = takeWhile (\<lambda>c. c \<noteq> CHR 0x00) (take prec str)"

definition buffer_append :: "mc_state \<Rightarrow> string \<Rightarrow> mc_state" where
  "buffer_append state bytes = state\<lparr>st_tbuf := st_tbuf state @ [Data bytes]\<rparr>"

definition buffer_splice :: "mc_state \<Rightarrow> addr \<Rightarrow> 32 word \<Rightarrow> mc_state" where
  "buffer_splice state entry len = state\<lparr>st_tbuf := st_tbuf state @ [Splice entry len]\<rparr>"

definition value_line :: "bool \<Rightarrow> mc_entry \<Rightarrow> string" where
  "value_line with_cas entry =
     ''VALUE '' @ printf_s (unat (e_key_len entry)) (e_key entry) @ '' '' @
     dec (unat (e_flags entry)) @ '' '' @ dec (unat (e_value_len entry)) @
     (if with_cas then '' '' @ dec (unat (e_cas entry)) else []) @ crlf"

text \<open>The \<open>for\<close> loop over the entries of an \<open>ENTRY\<close> or \<open>ENTRY_CAS\<close> result.\<close>

fun transmit_entries :: "bool \<Rightarrow> addr list \<Rightarrow> mc_state \<Rightarrow> mc_global
                          \<Rightarrow> (mc_state \<times> mc_global) option" where
  "transmit_entries with_cas [] state s = Some (state, s)"
| "transmit_entries with_cas (entry # rest) state s =
     (let state1 = buffer_append state (value_line with_cas (heap s entry))
      in case mc_entry_ref entry s of
           None \<Rightarrow> None
         | Some s' \<Rightarrow>
             transmit_entries with_cas rest
               (buffer_append (buffer_splice state1 entry (e_value_len (heap s entry))) crlf) s')"

definition mc_transmit_buffer :: "mc_state \<Rightarrow> mc_command \<Rightarrow> mc_global
                                   \<Rightarrow> (mc_state \<times> mc_global) option" where
  "mc_transmit_buffer state command s =
     (case c_result command of
        MC_RESULT_BLANK \<Rightarrow> Some (state, s)
      | MC_RESULT_REPLY str \<Rightarrow> Some (buffer_append state str, s)
      | MC_RESULT_ENTRY entries \<Rightarrow>
          (case transmit_entries False entries state s of
             None \<Rightarrow> None
           | Some (state', s') \<Rightarrow> Some (buffer_append state' (''END'' @ crlf), s'))
      | MC_RESULT_ENTRY_CAS entries \<Rightarrow>
          (case transmit_entries True entries state s of
             None \<Rightarrow> None
           | Some (state', s') \<Rightarrow> Some (buffer_append state' (''END'' @ crlf), s'))
      | MC_RESULT_VALUE entry \<Rightarrow>
          (case mc_entry_ref entry s of
             None \<Rightarrow> None
           | Some s' \<Rightarrow>
               Some (buffer_append (buffer_splice state entry (e_value_len (heap s entry)))
                       (''END'' @ crlf), s'))
      | MC_RESULT_QUIT \<Rightarrow> Some (state\<lparr>st_quit := True, st_closed := True\<rparr>, s)
      | MC_RESULT_NONE \<Rightarrow> None)"

subsection \<open>Writing to the socket\<close>

text \<open>
  Modelled from the spec: \<open>mm_net_writebuf\<close> and \<open>mm_buffer_rectify\<close> (\<open>net.c\<close>, \<open>buffer.c\<close>)
  are not part of the sources at hand.  The spec has the writer write the egress buffer to
  the socket, a spliced region carrying a release callback that unrefs the entry.  Here the
  socket takes the whole buffer unless it has been closed: the bytes of the chunks go out
  in order, a spliced region being read from the entry at that moment, and every splice is
  released through \<open>mc_transmit_unref\<close>.
\<close>

fun wire :: "(addr \<Rightarrow> mc_entry) \<Rightarrow> tchunk list \<Rightarrow> string" where
  "wire hp [] = []"
| "wire hp (Data bytes # rest) = bytes @ wire hp rest"
| "wire hp (Splice entry len # rest) = take (unat len) (e_value (hp entry)) @ wire hp rest"

fun release_splices :: "tchunk list \<Rightarrow> mc_global \<Rightarrow> mc_global" where
  "release_splices [] s = s"
| "release_splices (Data bytes # rest) s = release_splices rest s"
| "release_splices (Splice entry len # rest) s = release_splices rest (mc_entry_unref entry s)"

definition mc_transmit :: "mc_state \<Rightarrow> mc_global \<Rightarrow> mc_state \<times> mc_global" where
  "mc_transmit state s =
     (if st_closed state then (state, s)
      else (state\<lparr>st_output := st_output state @ wire (heap s) (st_tbuf state), st_tbuf := []\<rparr>,
            release_splices (st_tbuf state) s))"

subsection \<open>The writer\<close>

text \<open>
  The \<open>while (!state->quit)\<close> loop of \<open>mc_writer_routine\<close>, started at the head of the queue:
  \<open>last_cmd\<close> is the command \<open>last\<close> at hand, \<open>rest\<close> the commands behind it and \<open>n\<close> the number of
  commands transmitted so far.  It returns the number of commands transmitted and the
  number of commands up to and including the final \<open>last\<close>.
\<close>

fun writer_loop :: "mc_command \<Rightarrow> mc_command list \<Rightarrow> nat \<Rightarrow> mc_state \<Rightarrow> mc_global
                     \<Rightarrow> (nat \<times> nat \<times> mc_state \<times> mc_global) option" where
  "writer_loop last_cmd [] n state s =
     (if st_quit state then Some (n, n + 1, state, s)
      else case mc_transmit_buffer state last_cmd s of
             None \<Rightarrow> None
           | Some (state', s') \<Rightarrow> Some (n + 1, n + 1, state', s'))"
| "writer_loop last_cmd (next_cmd # rest) n state s =
     (if st_quit state then Some (n, n + 1, state, s)
      else case mc_transmit_buffer state last_cmd s of
             None \<Rightarrow> None
           | Some (state', s') \<Rightarrow>
               if c_result next_cmd = MC_RESULT_NONE then Some (n + 1, n + 1, state', s')
               else writer_loop next_cmd rest (n + 1) state' s')"

fun destroy_commands :: "mc_command list \<Rightarrow> mc_global \<Rightarrow> mc_global" where
  "destroy_commands [] s = s"
| "destroy_commands (head # rest) s = destroy_commands rest (mc_command_destroy head s)"

text \<open>
  \<open>mc_writer_routine\<close>: nothing happens on an empty queue or when the head has no result
  yet; otherwise the loop fills the transmit buffer, \<open>mc_transmit\<close> writes it, and the
  commands from the head to \<open>last\<close> are destroyed and taken off the queue.
\<close>

definition mc_writer_routine :: "mc_state \<Rightarrow> mc_global \<Rightarrow> (mc_state \<times> mc_global) option" where
  "mc_writer_routine state s =
     (case st_queue state of
        [] \<Rightarrow> Some (state, s)
      | last_cmd # rest \<Rightarrow>
          if c_result last_cmd = MC_RESULT_NONE then Some (state, s)
          else (case writer_loop last_cmd rest 0 state s of
                  None \<Rightarrow> None
                | Some (ntransmitted, nreleased, state1, s1) \<Rightarrow>
                    (let (state2, s2) = mc_transmit state1 s1;
                         s3 = destroy_commands (take nreleased (st_queue state)) s2
                     in Some (state2\<lparr>st_queue := drop nreleased (st_queue state)\<rparr>, s3))))"

text \<open>
  The bytes that \<open>mc_transmit_buffer\<close> produces for one command: the chunks it appends to
  an empty buffer, read in the given state.
\<close>

definition encoding :: "mc_global \<Rightarrow> mc_command \<Rightarrow> string" where
  "encoding s command =
     (case mc_transmit_buffer mc_create command s of
        None \<Rightarrow> []
      | Some (state', s') \<Rightarrow> wire (heap s) (st_tbuf state'))"

section \<open>Invariants of the table\<close>

text \<open>
  The table is well formed with exponent \<open>k\<close> when its size is \<open>2 ^ k\<close> between the
  minimal and the maximal size, the mask is \<open>size - 1\<close>, and \<open>used\<close> is a multiple of the
  stride between \<open>size / 2\<close> and \<open>size\<close>.  Every entry is placed when it sits in the bucket
  that \<open>mc_table_index\<close> computes from the hash of its key.
\<close>

definition table_wf :: "nat \<Rightarrow> mc_global \<Rightarrow> bool" where
  "table_wf k s =
     (12 \<le> k \<and> k \<le> 29 \<and> t_size s = 2 ^ k \<and> t_mask s = t_size s - 1 \<and>
      t_size s div 2 \<le> t_used s \<and> t_used s \<le> t_size s \<and> unat (t_used s) mod 64 = 0)"

definition placed :: "mc_global \<Rightarrow> bool" where
  "placed s = (\<forall>i a. a \<in> set (t_table s i) \<longrightarrow> mc_table_index s (entry_hash (heap s) a) = i)"

definition stored :: "mc_global \<Rightarrow> addr set" where
  "stored s = (\<Union>i. set (t_table s i))"

text \<open>
  The bucket index computed on natural numbers: \<open>k\<close> is the exponent of the size,
  \<open>u\<close> the number of used buckets and \<open>x\<close> the hash.  \<open>placed_at\<close> is \<open>placed\<close> with
  the number of used buckets given separately, as it holds in the middle of a stride.
\<close>

definition idxn :: "nat \<Rightarrow> nat \<Rightarrow> nat \<Rightarrow> nat" where
  "idxn k u x = (if x mod 2 ^ k \<ge> u then x mod 2 ^ (k - 1) else x mod 2 ^ k)"

definition placed_at :: "nat \<Rightarrow> nat \<Rightarrow> (addr \<Rightarrow> mc_entry) \<Rightarrow> (32 word \<Rightarrow> addr list) \<Rightarrow> bool" where
  "placed_at k v hp tb = (\<forall>i a. a \<in> set (tb i) \<longrightarrow> idxn k v (unat (entry_hash hp a)) = unat i)"

section \<open>Example states\<close>

text \<open>A table of minimal size, all of it in use, holding one entry with the key \<open>a\<close>.\<close>

definition ex_entry_a :: mc_entry where
  "ex_entry_a = \<lparr>e_key_len = 1, e_value_len = 1, e_ref_count = 1, e_flags = 0, e_cas = 1,
                 e_key = ''a'', e_value = ''x''\<rparr>"

definition ex_state_a :: mc_global where
  "ex_state_a = \<lparr>t_mask = 4095, t_size = 4096, t_used = 4096, t_striding = True, t_nentries = 1,
                 t_table = (\<lambda>i. if i = 0x92C then [0] else []), mc_entry_list = [0],
                 heap = (\<lambda>a. ex_entry_a), live = (\<lambda>a. a = 0), cas_counter = 1, posted = 1\<rparr>"

section \<open>The partitioned table of \<open>memcache/table.c\<close>\<close>

text \<open>
  Modelled from the spec: the declarations of \<open>struct mc_tpart\<close> and of \<open>mc_table.nbuckets_max\<close>
  (\<open>memcache/table.h\<close>) are not part of the sources at hand.  The record holds the fields
  that \<open>mc_table_check_size\<close> and \<open>mc_table_reserve_entries\<close> read and write, as 32-bit
  counters like the locals they are loaded into; the spec lists them as \<open>nentries\<close>,
  \<open>nbuckets\<close> and the \<open>striding\<close> flag of a partition.  \<open>p_posted\<close> counts the
  \<open>mc_table_stride_routine\<close> work items handed to \<open>mm_core_post\<close>.
\<close>

record mc_tpart =
  p_nbuckets :: "32 word"
  p_nentries :: "32 word"
  p_nentries_free :: "32 word"
  p_nentries_void :: "32 word"
  p_striding :: bool
  p_posted :: nat

definition mc_table_check_size :: "32 word \<Rightarrow> mc_tpart \<Rightarrow> bool" where
  "mc_table_check_size nbuckets_max part =
     (let nb = p_nbuckets part;
          ne = p_nentries part;
          ne1 = ne - p_nentries_free part;
          ne2 = ne1 - p_nentries_void part
      in ne2 > nb * 2 \<and> nb < nbuckets_max)"

definition mc_table_start_striding_part :: "mc_tpart \<Rightarrow> mc_tpart" where
  "mc_table_start_striding_part part = part\<lparr>p_posted := p_posted part + 1\<rparr>"

definition mc_table_reserve_entries :: "32 word \<Rightarrow> mc_tpart \<Rightarrow> mc_tpart" where
  "mc_table_reserve_entries nbuckets_max part =
     (if \<not> p_striding part \<and> mc_table_check_size nbuckets_max part
      then mc_table_start_striding_part (part\<lparr>p_striding := True\<rparr>)
      else part)"

text \<open>
  A table of 4096 buckets holding 8192 entries (the chains are left out, the insertion
  does not read them), and a partition that is already striding.
\<close>

definition ex_state_8192 :: mc_global where
  "ex_state_8192 = \<lparr>t_mask = 4095, t_size = 4096, t_used = 4096, t_striding = False,
                    t_nentries = 8192, t_table = (\<lambda>i. []), mc_entry_list = [],
                    heap = (\<lambda>a. ex_entry_a), live = (\<lambda>a. False), cas_counter = 8192, posted = 0\<rparr>"

definition ex_part :: mc_tpart where
  "ex_part = \<lparr>p_nbuckets = 8, p_nentries = 32, p_nentries_free = 2, p_nentries_void = 3,
              p_striding = False, p_posted = 0\<rparr>"

text \<open>
  An empty table of minimal size, a table holding the key \<open>a\<close> with the value \<open>5\<close>, and
  commands as the parser leaves them: a storage command with key, flags and payload, and a
  command with a key and a number for \<open>incr\<close>, \<open>decr\<close> and \<open>cas\<close>.
\<close>

definition ex_empty :: mc_global where
  "ex_empty = \<lparr>t_mask = 4095, t_size = 4096, t_used = 4096, t_striding = False, t_nentries = 0,
               t_table = (\<lambda>i. []), mc_entry_list = [],
               heap = (\<lambda>a. ex_entry_a), live = (\<lambda>a. False), cas_counter = 0, posted = 0\<rparr>"

definition ex_entry_5 :: mc_entry where
  "ex_entry_5 = ex_entry_a\<lparr>e_value := ''5''\<rparr>"

definition ex_state_5 :: mc_global where
  "ex_state_5 = ex_state_a\<lparr>heap := (\<lambda>a. ex_entry_5)\<rparr>"

definition storage_command :: "mc_desc \<Rightarrow> string \<Rightarrow> 32 word \<Rightarrow> string \<Rightarrow> mc_command" where
  "storage_command d k f v =
     \<lparr>c_desc = Some d,
      c_params = no_params\<lparr>par_key := k, par_flags := f,
                           par_value := \<lparr>v_data = v, v_bytes = of_nat (length v)\<rparr>\<rparr>,
      c_result = MC_RESULT_NONE\<rparr>"

definition key_command :: "mc_desc \<Rightarrow> string \<Rightarrow> 64 word \<Rightarrow> mc_command" where
  "key_command d k n =
     \<lparr>c_desc = Some d,
      c_params = no_params\<lparr>par_keys := [k], par_key := k, par_cas := n, par_inc := n\<rparr>,
      c_result = MC_RESULT_NONE\<rparr>"

text \<open>
  The stamps of the stored entries were handed out by the counter: none exceeds it.
\<close>

definition stamps_bounded :: "mc_global \<Rightarrow> bool" where
  "stamps_bounded s = (\<forall>i. \<forall>b \<in> set (t_table s i). e_cas (heap s b) \<le> cas_counter s)"

definition cas_command :: "string \<Rightarrow> 32 word \<Rightarrow> string \<Rightarrow> 64 word \<Rightarrow> mc_command" where
  "cas_command k f v stamp =
     \<lparr>c_desc = Some mc_desc_cas,
      c_params = no_params\<lparr>par_key := k, par_flags := f,
                           par_value := \<lparr>v_data = v, v_bytes = of_nat (length v)\<rparr>,
                           par_cas := stamp\<rparr>,
      c_result = MC_RESULT_NONE\<rparr>"

section \<open>What the writer puts into the transmit buffer\<close>

text \<open>
  The chunks that \<open>mc_transmit_buffer\<close> appends for a result, read off its cases: nothing
  for a blank result and for \<open>QUIT\<close>, the reply string, and for every entry of an entry
  result the \<open>VALUE\<close> line, the spliced value and a line end, followed by \<open>END\<close>.  Two heaps
  have the same content when they differ in reference counts only; \<open>refs_needed\<close> counts
  the references the writer takes for the results of a queue.
\<close>

definition entry_chunks :: "bool \<Rightarrow> (addr \<Rightarrow> mc_entry) \<Rightarrow> addr \<Rightarrow> tchunk list" where
  "entry_chunks with_cas hp entry =
     [Data (value_line with_cas (hp entry)), Splice entry (e_value_len (hp entry)), Data crlf]"

fun result_chunks :: "(addr \<Rightarrow> mc_entry) \<Rightarrow> mc_result \<Rightarrow> tchunk list" where
  "result_chunks hp MC_RESULT_NONE = []"
| "result_chunks hp MC_RESULT_BLANK = []"
| "result_chunks hp (MC_RESULT_REPLY str) = [Data str]"
| "result_chunks hp (MC_RESULT_ENTRY entries) =
     concat (map (entry_chunks False hp) entries) @ [Data (''END'' @ crlf)]"
| "result_chunks hp (MC_RESULT_ENTRY_CAS entries) =
     concat (map (entry_chunks True hp) entries) @ [Data (''END'' @ crlf)]"
| "result_chunks hp (MC_RESULT_VALUE entry) =
     [Splice entry (e_value_len (hp entry)), Data (''END'' @ crlf)]"
| "result_chunks hp MC_RESULT_QUIT = []"

definition same_content :: "(addr \<Rightarrow> mc_entry) \<Rightarrow> (addr \<Rightarrow> mc_entry) \<Rightarrow> bool" where
  "same_content hp hp' =
     (\<forall>a. e_key_len (hp' a) = e_key_len (hp a) \<and> e_key (hp' a) = e_key (hp a) \<and>
          e_value_len (hp' a) = e_value_len (hp a) \<and> e_value (hp' a) = e_value (hp a) \<and>
          e_flags (hp' a) = e_flags (hp a) \<and> e_cas (hp' a) = e_cas (hp a))"

fun result_refs :: "mc_result \<Rightarrow> nat" where
  "result_refs (MC_RESULT_ENTRY entries) = length entries"
| "result_refs (MC_RESULT_ENTRY_CAS entries) = length entries"
| "result_refs (MC_RESULT_VALUE entry) = 1"
| "result_refs r = 0"

definition refs_needed :: "mc_command list \<Rightarrow> nat" where
  "refs_needed q = sum_list (map (\<lambda>c. result_refs (c_result c)) q)"

text \<open>
  A queue of four commands: a reply, the entry found by \<open>get a\<close> in the example table, a
  command that has no result yet, and another reply.
\<close>

definition ex_queue :: "mc_command list" where
  "ex_queue =
     [mc_reply (storage_command mc_desc_set ''a'' 0 ''x'') (''STORED'' @ crlf),
      (key_command mc_desc_get ''a'' 0)\<lparr>c_result := MC_RESULT_ENTRY [0]\<rparr>,
      key_command mc_desc_get ''b'' 0,
      mc_reply mc_command_create (''ERROR'' @ crlf)]"

section \<open>The multi-producer multi-consumer ring of \<open>base/ring.h\<close>\<close>

text \<open>
  \<open>struct mm_ring_node\<close> and the fields of \<open>struct mm_ring_mpmc\<close> that the operations use:
  \<open>base.head\<close>, \<open>base.tail\<close>, \<open>base.mask\<close> and the array of nodes.  A \<open>uintptr_t\<close> is a 64-bit
  word.
\<close>

record mm_ring_node =
  n_data :: "64 word"
  n_lock :: "64 word"

record mm_ring_mpmc =
  r_head :: "64 word"
  r_tail :: "64 word"
  r_mask :: "64 word"
  r_ring :: "mm_ring_node list"

text \<open>
  Modelled from the spec: \<open>mm_atomic_uintptr_cas\<close> (\<open>arch/atomic.h\<close>) is not part of the
  sources at hand.  The spec has producers and consumers \<open>CAS\<close> the tail and the head; the
  callers compare what it returns with the expected value, so it returns the value found
  and stores the new value when that is the expected one.  The result is the value found
  and the new content of the variable.
\<close>

definition mm_atomic_uintptr_cas :: "64 word \<Rightarrow> 64 word \<Rightarrow> 64 word \<Rightarrow> 64 word \<times> 64 word" where
  "mm_atomic_uintptr_cas content expected new =
     (content, if content = expected then new else content)"

text \<open>
  Other threads may run between any two accesses to the ring, so an operation is a
  sequence of steps on the shared ring, each with one access; the frame holds the
  arguments, the locals and the position in the body.  \<open>node\<close> is \<open>&ring->ring[tail & mask]\<close>;
  a step that would touch a node outside the array has no result.
\<close>

datatype put_pc = PUT_LOAD_TAIL | PUT_LOAD_LOCK | PUT_CAS | PUT_STORE_DATA | PUT_STORE_LOCK
  | PUT_RETURN bool

record put_frame =
  p_pc :: put_pc
  p_data :: "64 word"
  p_tail :: "64 word"

definition node_index :: "mm_ring_mpmc \<Rightarrow> 64 word \<Rightarrow> nat" where
  "node_index ring position = unat (position AND r_mask ring)"

definition put_step :: "put_frame \<Rightarrow> mm_ring_mpmc \<Rightarrow> (put_frame \<times> mm_ring_mpmc) option" where
  "put_step f ring =
     (let i = node_index ring (p_tail f)
      in case p_pc f of
           PUT_LOAD_TAIL \<Rightarrow> Some (f\<lparr>p_pc := PUT_LOAD_LOCK, p_tail := r_tail ring\<rparr>, ring)
         | PUT_LOAD_LOCK \<Rightarrow>
             if i < length (r_ring ring)
             then Some (f\<lparr>p_pc := (if n_lock (r_ring ring ! i) \<noteq> p_tail f then PUT_RETURN False
                                     else PUT_CAS)\<rparr>, ring)
             else None
         | PUT_CAS \<Rightarrow>
             (let (found, content) = mm_atomic_uintptr_cas (r_tail ring) (p_tail f) (p_tail f + 1)
              in Some (f\<lparr>p_pc := (if found \<noteq> p_tail f then PUT_RETURN False else PUT_STORE_DATA)\<rparr>,
                       ring\<lparr>r_tail := content\<rparr>))
         | PUT_STORE_DATA \<Rightarrow>
             if i < length (r_ring ring)
             then Some (f\<lparr>p_pc := PUT_STORE_LOCK\<rparr>,
                        ring\<lparr>r_ring := (r_ring ring)[i := (r_ring ring ! i)\<lparr>n_data := p_data f\<rparr>]\<rparr>)
             else None
         | PUT_STORE_LOCK \<Rightarrow>
             if i < length (r_ring ring)
             then Some (f\<lparr>p_pc := PUT_RETURN True\<rparr>,
                        ring\<lparr>r_ring := (r_ring ring)[i := (r_ring ring ! i)\<lparr>n_lock := p_tail f + 1\<rparr>]\<rparr>)
             else None
         | PUT_RETURN b \<Rightarrow> Some (f, ring))"

datatype get_pc = GET_LOAD_HEAD | GET_LOAD_LOCK | GET_CAS | GET_LOAD_DATA | GET_STORE_LOCK
  | GET_RETURN bool

text \<open>\<open>g_out\<close> is the variable that \<open>data_ptr\<close> points to: nothing until the operation writes it.\<close>

record get_frame =
  g_pc :: get_pc
  g_out :: "64 word option"
  g_head :: "64 word"

definition get_step :: "get_frame \<Rightarrow> mm_ring_mpmc \<Rightarrow> (get_frame \<times> mm_ring_mpmc) option" where
  "get_step f ring =
     (let i = node_index ring (g_head f)
      in case g_pc f of
           GET_LOAD_HEAD \<Rightarrow> Some (f\<lparr>g_pc := GET_LOAD_LOCK, g_head := r_head ring\<rparr>, ring)
         | GET_LOAD_LOCK \<Rightarrow>
             if i < length (r_ring ring)
             then Some (f\<lparr>g_pc := (if n_lock (r_ring ring ! i) \<noteq> g_head f + 1 then GET_RETURN False
                                     else GET_CAS)\<rparr>, ring)
             else None
         | GET_CAS \<Rightarrow>
             (let (found, content) = mm_atomic_uintptr_cas (r_head ring) (g_head f) (g_head f + 1)
              in Some (f\<lparr>g_pc := (if found \<noteq> g_head f then GET_RETURN False else GET_LOAD_DATA)\<rparr>,
                       ring\<lparr>r_head := content\<rparr>))
         | GET_LOAD_DATA \<Rightarrow>
             if i < length (r_ring ring)
             then Some (f\<lparr>g_pc := GET_STORE_LOCK, g_out := Some (n_data (r_ring ring ! i))\<rparr>, ring)
             else None
         | GET_STORE_LOCK \<Rightarrow>
             if i < length (r_ring ring)
             then Some (f\<lparr>g_pc := GET_RETURN True\<rparr>,
                        ring\<lparr>r_ring := (r_ring ring)
                                [i := (r_ring ring ! i)\<lparr>n_lock := g_head f + 1 + r_mask ring\<rparr>]\<rparr>)
             else None
         | GET_RETURN b \<Rightarrow> Some (f, ring))"

text \<open>
  The operations run alone, without another thread between their steps: the steps follow
  one another until the body returns.
\<close>

fun put_rank :: "put_pc \<Rightarrow> nat" where
  "put_rank PUT_LOAD_TAIL = 5"
| "put_rank PUT_LOAD_LOCK = 4"
| "put_rank PUT_CAS = 3"
| "put_rank PUT_STORE_DATA = 2"
| "put_rank PUT_STORE_LOCK = 1"
| "put_rank (PUT_RETURN b) = 0"

fun get_rank :: "get_pc \<Rightarrow> nat" where
  "get_rank GET_LOAD_HEAD = 5"
| "get_rank GET_LOAD_LOCK = 4"
| "get_rank GET_CAS = 3"
| "get_rank GET_LOAD_DATA = 2"
| "get_rank GET_STORE_LOCK = 1"
| "get_rank (GET_RETURN b) = 0"

function put_run :: "put_frame \<Rightarrow> mm_ring_mpmc \<Rightarrow> (bool \<times> mm_ring_mpmc) option" where
  "put_run f ring =
     (if put_rank (p_pc f) = 0 then Some (p_pc f = PUT_RETURN True, ring)
      else case put_step f ring of
             None \<Rightarrow> None
           | Some (f', ring') \<Rightarrow> put_run f' ring')"
  by pat_completeness auto
termination
proof (relation "measure (\<lambda>(f, ring). put_rank (p_pc f))")
  show "wf (measure (\<lambda>(f, ring). put_rank (p_pc f)))" by simp
next
  fix f :: put_frame and ring x2 x y
  assume "put_rank (p_pc f) \<noteq> 0" and "put_step f ring = Some x2" and "(x, y) = x2"
  then show "((x, y), f, ring) \<in> measure (\<lambda>(f, ring). put_rank (p_pc f))"
    by (cases "p_pc f")
       (auto simp: put_step_def mm_atomic_uintptr_cas_def Let_def split: if_splits)
qed

function get_run :: "get_frame \<Rightarrow> mm_ring_mpmc \<Rightarrow> (bool \<times> 64 word option \<times> mm_ring_mpmc) option" where
  "get_run f ring =
     (if get_rank (g_pc f) = 0 then Some (g_pc f = GET_RETURN True, g_out f, ring)
      else case get_step f ring of
             None \<Rightarrow> None
           | Some (f', ring') \<Rightarrow> get_run f' ring')"
  by pat_completeness auto
termination
proof (relation "measure (\<lambda>(f, ring). get_rank (g_pc f))")
  show "wf (measure (\<lambda>(f, ring). get_rank (g_pc f)))" by simp
next
  fix f :: get_frame and ring x2 x y
  assume "get_rank (g_pc f) \<noteq> 0" and "get_step f ring = Some x2" and "(x, y) = x2"
  then show "((x, y), f, ring) \<in> measure (\<lambda>(f, ring). get_rank (g_pc f))"
    by (cases "g_pc f")
       (auto simp: get_step_def mm_atomic_uintptr_cas_def Let_def split: if_splits)
qed

definition mm_ring_mpmc_put :: "mm_ring_mpmc \<Rightarrow> 64 word \<Rightarrow> (bool \<times> mm_ring_mpmc) option" where
  "mm_ring_mpmc_put ring data = put_run \<lparr>p_pc = PUT_LOAD_TAIL, p_data = data, p_tail = 0\<rparr> ring"

definition mm_ring_mpmc_get :: "mm_ring_mpmc \<Rightarrow> (bool \<times> 64 word option \<times> mm_ring_mpmc) option" where
  "mm_ring_mpmc_get ring = get_run \<lparr>g_pc = GET_LOAD_HEAD, g_out = None, g_head = 0\<rparr> ring"

text \<open>
  Modelled from the spec: \<open>mm_ring_mpmc_prepare\<close> (\<open>ring.c\<close>) is not part of the sources at
  hand.  The rings are of a power-of-two size and a position is reduced to a node with
  \<open>& mask\<close>, so the mask is the number of nodes less one; an enqueue at position \<open>t\<close> goes
  through when the lock of its node is \<open>t\<close>, so the lock of node \<open>i\<close> starts as \<open>i\<close>.  The
  example is such a ring of four nodes, nothing enqueued yet.
\<close>

definition ring_sized :: "mm_ring_mpmc \<Rightarrow> bool" where
  "ring_sized ring = (length (r_ring ring) = unat (r_mask ring) + 1)"

definition ex_ring :: mm_ring_mpmc where
  "ex_ring = \<lparr>r_head = 0, r_tail = 0, r_mask = 3,
              r_ring = [\<lparr>n_data = 0, n_lock = 0\<rparr>, \<lparr>n_data = 0, n_lock = 1\<rparr>,
                        \<lparr>n_data = 0, n_lock = 2\<rparr>, \<lparr>n_data = 0, n_lock = 3\<rparr>]\<rparr>"

section \<open>Command parsing\<close>

text \<open>
  Modelled from the spec: \<open>struct mm_buffer_cursor\<close>, \<open>mm_buffer_first_out\<close> and
  \<open>mm_buffer_next_out\<close> (\<open>buffer.h\<close>, \<open>buffer.c\<close>) are not part of the sources at hand.  The spec
  has the receive buffer as a chain of segments, reads landing in the last one, with a
  cursor that parsed commands advance.  The cursor holds the bytes of its segment, the
  offsets \<open>ptr\<close> and \<open>end\<close> into them, and the segments that follow in the chain;
  \<open>mm_buffer_next_out\<close> moves it to the start of the next segment and returns false when
  there is none.
\<close>

record mm_buffer_cursor =
  cur_data :: string
  cur_ptr :: nat
  cur_end :: nat
  cur_next :: "string list"

definition mm_buffer_next_out :: "mm_buffer_cursor \<Rightarrow> bool \<times> mm_buffer_cursor" where
  "mm_buffer_next_out cur =
     (case cur_next cur of
        [] \<Rightarrow> (False, cur)
      | seg # segs \<Rightarrow> (True, \<lparr>cur_data = seg, cur_ptr = 0, cur_end = length seg, cur_next = segs\<rparr>))"

text \<open>The bytes from \<open>cursor.ptr\<close> up to \<open>cursor.end\<close>, and all the input from the cursor on.\<close>

definition window :: "mm_buffer_cursor \<Rightarrow> string" where
  "window cur = drop (cur_ptr cur) (take (cur_end cur) (cur_data cur))"

definition remaining :: "mm_buffer_cursor \<Rightarrow> string" where
  "remaining cur = window cur @ concat (cur_next cur)"

text \<open>\<open>struct mc_parser\<close>; \<open>ps_state\<close> is the connection state that \<open>parser->state\<close> points to.\<close>

record mc_parser =
  ps_cursor :: mm_buffer_cursor
  ps_command :: mc_command
  ps_state :: mc_state
  ps_error :: bool

definition mc_more_input :: "mc_parser \<Rightarrow> int \<Rightarrow> bool \<times> mc_parser" where
  "mc_more_input parser count =
     (if count > 1024
      then (False, parser\<lparr>ps_command := (ps_command parser)\<lparr>c_result := MC_RESULT_QUIT\<rparr>,
                          ps_state := (ps_state parser)\<lparr>st_quit := True\<rparr>\<rparr>)
      else let (rc, cur) = mm_buffer_next_out (ps_cursor parser)
           in (rc, parser\<lparr>ps_cursor := cur\<rparr>))"

text \<open>\<open>memchr\<close>: the offset of the first occurrence of the byte, if there is one.\<close>

definition memchr :: "string \<Rightarrow> char \<Rightarrow> nat option" where
  "memchr bytes c =
     (if c \<in> set bytes then Some (length (takeWhile (\<lambda>x. x \<noteq> c) bytes)) else None)"

text \<open>The \<open>do\<close> loop of \<open>mc_parse_error\<close>, and \<open>mc_parse_error\<close>.\<close>

function mc_parse_error_loop :: "mc_parser \<Rightarrow> string \<Rightarrow> bool \<times> mc_parser" where
  "mc_parse_error_loop parser error_string =
     (let cur = ps_cursor parser
      in case memchr (window cur) LF of
           Some p \<Rightarrow>
             (True, parser\<lparr>ps_cursor := cur\<lparr>cur_ptr := cur_ptr cur + p + 1\<rparr>,
                           ps_command := mc_reply (ps_command parser) error_string\<rparr>)
         | None \<Rightarrow>
             (case mm_buffer_next_out cur of
                (True, cur') \<Rightarrow> mc_parse_error_loop (parser\<lparr>ps_cursor := cur'\<rparr>) error_string
              | (False, cur') \<Rightarrow> (False, parser\<lparr>ps_cursor := cur'\<rparr>)))"
  by pat_completeness auto
termination
  by (relation "measure (\<lambda>(parser, error_string). length (cur_next (ps_cursor parser)))")
     (auto simp: mm_buffer_next_out_def split: list.splits)

definition mc_parse_error :: "mc_parser \<Rightarrow> string \<Rightarrow> bool \<times> mc_parser" where
  "mc_parse_error parser error_string =
     mc_parse_error_loop (parser\<lparr>ps_error := True\<rparr>) error_string"

subsection \<open>The command name\<close>

text \<open>
  The scanner of \<open>mc_parse_command\<close>: its state, the four bytes collected in \<open>start\<close> and what
  is left of \<open>rest\<close>.  A byte is read into an \<open>int\<close> through \<open>char\<close>, which is signed on the
  x86 targets of the repository.  One pass through the \<open>switch\<close> either goes on to the next
  byte, or leaves or fails with \<open>cursor.ptr\<close> set to \<open>s\<close> or \<open>s + 1\<close>.
\<close>

datatype parse_state = S_START | S_CMD_1 | S_CMD_2 | S_CMD_3 | S_CMD_REST | S_EOL_0 | S_EOL_1

record scanner =
  sc_state :: parse_state
  sc_start :: "32 word"
  sc_rest :: string

datatype scan_step =
    SCAN_NEXT scanner mc_command
  | SCAN_LEAVE nat mc_command
  | SCAN_ERROR nat mc_command

definition char_int :: "char \<Rightarrow> 32 word" where
  "char_int c = signed_take_bit 7 (of_nat (of_char c))"

definition C_macro :: "char \<Rightarrow> char \<Rightarrow> char \<Rightarrow> char \<Rightarrow> 32 word" where
  "C_macro a b c d =
     push_bit 24 (char_int a) OR push_bit 16 (char_int b) OR push_bit 8 (char_int c) OR char_int d"

definition rest_of :: "scanner \<Rightarrow> string \<Rightarrow> mc_command \<Rightarrow> scan_step" where
  "rest_of sc rest command = SCAN_NEXT (sc\<lparr>sc_state := S_CMD_REST, sc_rest := rest\<rparr>) command"

definition with_desc :: "mc_command \<Rightarrow> mc_desc \<Rightarrow> mc_command" where
  "with_desc command d = command\<lparr>c_desc := Some d\<rparr>"

definition command_start :: "scanner \<Rightarrow> mc_command \<Rightarrow> scan_step" where
  "command_start sc command =
     (let start = sc_start sc in
      if start = C_macro CHR ''g'' CHR ''e'' CHR ''t'' CHR '' ''
        then SCAN_LEAVE 1 (with_desc command mc_desc_get)
      else if start = C_macro CHR ''s'' CHR ''e'' CHR ''t'' CHR '' ''
        then SCAN_LEAVE 1 (with_desc command mc_desc_set)
      else if start = C_macro CHR ''r'' CHR ''e'' CHR ''p'' CHR ''l''
        then rest_of sc ''ace'' (with_desc command mc_desc_replace)
      else if start = C_macro CHR ''d'' CHR ''e'' CHR ''l'' CHR ''e''
        then rest_of sc ''te'' (with_desc command mc_desc_delete)
      else if start = C_macro CHR ''a'' CHR ''d'' CHR ''d'' CHR '' ''
        then SCAN_LEAVE 1 (with_desc command mc_desc_add)
      else if start = C_macro CHR ''i'' CHR ''n'' CHR ''c'' CHR ''r''
        then rest_of sc (sc_rest sc) (with_desc command mc_desc_incr)
      else if start = C_macro CHR ''d'' CHR ''e'' CHR ''c'' CHR ''r''
        then rest_of sc (sc_rest sc) (with_desc command mc_desc_decr)
      else if start = C_macro CHR ''g'' CHR ''e'' CHR ''t'' CHR ''s''
        then rest_of sc (sc_rest sc) (with_desc command mc_desc_gets)
      else if start = C_macro CHR ''c'' CHR ''a'' CHR ''s'' CHR '' ''
        then SCAN_LEAVE 1 (with_desc command mc_desc_cas)
      else if start = C_macro CHR ''a'' CHR ''p'' CHR ''p'' CHR ''e''
        then rest_of sc ''nd'' (with_desc command mc_desc_append)
      else if start = C_macro CHR ''p'' CHR ''r'' CHR ''e'' CHR ''p''
        then rest_of sc ''end'' (with_desc command mc_desc_prepend)
      else if start = C_macro CHR ''t'' CHR ''o'' CHR ''u'' CHR ''c''
        then rest_of sc ''h'' (with_desc command mc_desc_touch)
      else if start = C_macro CHR ''s'' CHR ''l'' CHR ''a'' CHR ''b''
        then rest_of sc ''s'' (with_desc command mc_desc_slabs)
      else if start = C_macro CHR ''s'' CHR ''t'' CHR ''a'' CHR ''t''
        then rest_of sc ''s'' (with_desc command mc_desc_stats)
      else if start = C_macro CHR ''f'' CHR ''l'' CHR ''u'' CHR ''s''
        then rest_of sc ''h_all'' (with_desc command mc_desc_flush_all)
      else if start = C_macro CHR ''v'' CHR ''e'' CHR ''r'' CHR ''s''
        then rest_of sc ''ion'' (mc_reply command (''VERSION 0.0'' @ crlf))
      else if start = C_macro CHR ''v'' CHR ''e'' CHR ''r'' CHR ''b''
        then rest_of sc ''osity'' (with_desc command mc_desc_verbosity)
      else if start = C_macro CHR ''q'' CHR ''u'' CHR ''i'' CHR ''t''
        then SCAN_NEXT (sc\<lparr>sc_state := S_EOL_0\<rparr>) (command\<lparr>c_result := MC_RESULT_QUIT\<rparr>)
      else SCAN_ERROR 0 command)"

definition eol_1 :: "mc_command \<Rightarrow> char \<Rightarrow> scan_step" where
  "eol_1 command c = (if c \<noteq> LF then SCAN_ERROR 1 command else SCAN_LEAVE 1 command)"

definition eol_0 :: "scanner \<Rightarrow> mc_command \<Rightarrow> char \<Rightarrow> scan_step" where
  "eol_0 sc command c =
     (if c = CR then SCAN_NEXT (sc\<lparr>sc_state := S_EOL_1\<rparr>) command
      else if c = CHR '' '' then SCAN_NEXT sc command
      else eol_1 command c)"

definition rest_char :: "string \<Rightarrow> char" where
  "rest_char rest = (case rest of [] \<Rightarrow> CHR 0x00 | x # xs \<Rightarrow> x)"

definition parse_char :: "scanner \<Rightarrow> mc_command \<Rightarrow> char \<Rightarrow> scan_step" where
  "parse_char sc command c =
     (case sc_state sc of
        S_START \<Rightarrow>
          if c = LF then SCAN_ERROR 0 command
          else if c = CHR '' '' then SCAN_NEXT sc command
          else SCAN_NEXT (sc\<lparr>sc_state := S_CMD_1, sc_start := push_bit 24 (char_int c)\<rparr>) command
      | S_CMD_1 \<Rightarrow>
          if c = LF then SCAN_ERROR 0 command
          else SCAN_NEXT (sc\<lparr>sc_state := S_CMD_2,
                              sc_start := sc_start sc OR push_bit 16 (char_int c)\<rparr>) command
      | S_CMD_2 \<Rightarrow>
          if c = LF then SCAN_ERROR 0 command
          else SCAN_NEXT (sc\<lparr>sc_state := S_CMD_3,
                              sc_start := sc_start sc OR push_bit 8 (char_int c)\<rparr>) command
      | S_CMD_3 \<Rightarrow> command_start (sc\<lparr>sc_start := sc_start sc OR char_int c\<rparr>) command
      | S_CMD_REST \<Rightarrow>
          if c = rest_char (sc_rest sc)
          then (if c = CHR 0x00 then SCAN_ERROR 1 command
                else SCAN_NEXT (sc\<lparr>sc_rest := tl (sc_rest sc)\<rparr>) command)
          else if rest_char (sc_rest sc) \<noteq> CHR 0x00 then SCAN_ERROR 0 command
          else if c \<noteq> CHR '' '' \<and> c \<noteq> CR \<and> c \<noteq> LF then SCAN_ERROR 1 command
          else if c_desc command \<noteq> None then SCAN_LEAVE 0 command
          else eol_0 (sc\<lparr>sc_state := S_EOL_0\<rparr>) command c
      | S_EOL_0 \<Rightarrow> eol_0 sc command c
      | S_EOL_1 \<Rightarrow> eol_1 command c)"

text \<open>
  The \<open>for\<close> loop over the bytes from \<open>s\<close> on: it ends with the position that \<open>cursor.ptr\<close>
  gets, or runs out of bytes with \<open>SCAN_NEXT\<close>.
\<close>

fun scan :: "string \<Rightarrow> nat \<Rightarrow> scanner \<Rightarrow> mc_command \<Rightarrow> scan_step" where
  "scan [] s sc command = SCAN_NEXT sc command"
| "scan (c # bytes) s sc command =
     (case parse_char sc command c of
        SCAN_NEXT sc' command' \<Rightarrow> scan bytes (s + 1) sc' command'
      | SCAN_LEAVE n command' \<Rightarrow> SCAN_LEAVE (s + n) command'
      | SCAN_ERROR n command' \<Rightarrow> SCAN_ERROR (s + n) command')"

function mc_parse_command_loop :: "mc_parser \<Rightarrow> scanner \<Rightarrow> int \<Rightarrow> bool \<times> mc_parser" where
  "mc_parse_command_loop parser sc count =
     (let cur = ps_cursor parser
      in case scan (window cur) (cur_ptr cur) sc (ps_command parser) of
           SCAN_LEAVE p command \<Rightarrow>
             (True, parser\<lparr>ps_cursor := cur\<lparr>cur_ptr := p\<rparr>, ps_command := command\<rparr>)
         | SCAN_ERROR p command \<Rightarrow>
             mc_parse_error (parser\<lparr>ps_cursor := cur\<lparr>cur_ptr := p\<rparr>, ps_command := command\<rparr>)
               (''ERROR'' @ crlf)
         | SCAN_NEXT sc' command \<Rightarrow>
             (case mc_more_input (parser\<lparr>ps_command := command\<rparr>)
                     (count + (int (cur_end cur) - int (cur_ptr cur))) of
                (True, parser') \<Rightarrow>
                  mc_parse_command_loop parser' sc' (count + (int (cur_end cur) - int (cur_ptr cur)))
              | (False, parser') \<Rightarrow> (False, parser')))"
  by pat_completeness auto
termination
  by (relation "measure (\<lambda>(parser, sc, count). length (cur_next (ps_cursor parser)))")
     (auto simp: mc_more_input_def mm_buffer_next_out_def split: if_splits list.splits)

definition mc_parse_command :: "mc_parser \<Rightarrow> bool \<times> mc_parser" where
  "mc_parse_command parser =
     mc_parse_command_loop parser \<lparr>sc_state = S_START, sc_start = - 1, sc_rest = []\<rparr> 0"

text \<open>
  The cursor points into its segment; a parser as \<open>mc_reader_routine\<close> sets it up for a new
  command, on the given segments of input.
\<close>

definition cursor_ok :: "mm_buffer_cursor \<Rightarrow> bool" where
  "cursor_ok cur = (cur_ptr cur \<le> cur_end cur \<and> cur_end cur \<le> length (cur_data cur))"

definition parser_on :: "string \<Rightarrow> string list \<Rightarrow> mc_parser" where
  "parser_on seg segs =
     \<lparr>ps_cursor = \<lparr>cur_data = seg, cur_ptr = 0, cur_end = length seg, cur_next = segs\<rparr>,
      ps_command = mc_command_create, ps_state = mc_create, ps_error = False\<rparr>"

text \<open>
  What holds of the scanner between two bytes: no line feed is left in \<open>rest\<close>, and while the
  first bytes are collected the low byte of \<open>start\<close> is still clear.
\<close>

definition scanner_inv :: "scanner \<Rightarrow> bool" where
  "scanner_inv sc =
     (LF \<notin> set (sc_rest sc) \<and>
      (sc_state sc = S_CMD_1 \<or> sc_state sc = S_CMD_2 \<or> sc_state sc = S_CMD_3
         \<longrightarrow> take_bit 8 (sc_start sc) = 0))"

section \<open>The bucket index and the stride step\<close>


lemma wf_mask: "table_wf k s \<Longrightarrow> t_mask s = mask k"
  by (simp add: table_wf_def mask_eq_exp_minus_1)

lemma drop_bit_1_mask: "k \<le> 32 \<Longrightarrow> drop_bit 1 (mask k :: 32 word) = mask (k - 1)"
  by (rule bit_eqI) (auto simp: bit_simps)

lemma unat_tb: "unat (take_bit k (h::32 word)) = unat h mod 2 ^ k"
  unfolding unsigned_take_bit_eq by (simp add: take_bit_eq_mod)

lemma and_mask_mask: "((h::32 word) AND mask k) AND mask (k - 1) = take_bit (k - 1) h"
proof -
  have "take_bit (k - 1) (take_bit k h) = take_bit (k - 1) h" by (simp add: min_def)
  then show ?thesis by (simp only: take_bit_eq_mask)
qed

lemma index_wf:
  assumes "table_wf k s"
  shows "mc_table_index s h = (if take_bit k h \<ge> t_used s then take_bit (k - 1) h else take_bit k h)"
proof -
  have m: "t_mask s = mask k" using assms by (rule wf_mask)
  have k: "k \<le> 32" using assms by (simp add: table_wf_def)
  show ?thesis
    unfolding mc_table_index_def Let_def m drop_bit_1_mask[OF k] and_mask_mask
    by (simp only: take_bit_eq_mask)
qed

lemma unat_index_wf:
  assumes "table_wf k s"
  shows "unat (mc_table_index s h) = idxn k (unat (t_used s)) (unat h)"
  unfolding index_wf[OF assms] idxn_def word_le_nat_alt unat_tb
  by (simp add: unat_tb)

lemma mod_half: 
  assumes "k \<ge> 1"
  shows "(x::nat) mod 2 ^ k = x mod 2 ^ (k - 1) \<or> x mod 2 ^ k = x mod 2 ^ (k - 1) + 2 ^ (k - 1)"
proof -
  obtain j where k: "k = Suc j" using assms by (cases k) auto
  have "x mod (2 ^ j * 2) = 2 ^ j * (x div 2 ^ j mod 2) + x mod 2 ^ j"
    by (rule mod_mult2_eq)
  moreover have "x div 2 ^ j mod 2 = 0 \<or> x div 2 ^ j mod 2 = 1" by arith
  ultimately show ?thesis unfolding k by (auto simp: mult.commute)
qed



lemma split_chain_sets:
  "split_chain hp m src xs s0 t0 = (s, t) \<Longrightarrow>
     set s = set s0 \<union> {a \<in> set xs. entry_hash hp a AND m = src} \<and>
     set t = set t0 \<union> {a \<in> set xs. entry_hash hp a AND m \<noteq> src}"
proof (induction xs arbitrary: s0 t0)
  case Nil
  then show ?case by simp
next
  case (Cons x xs)
  show ?case
  proof (cases "entry_hash hp x AND m = src")
    case True
    with Cons.prems have "split_chain hp m src xs (x # s0) t0 = (s, t)" by (simp add: Let_def)
    from Cons.IH[OF this] True show ?thesis by auto
  next
    case False
    with Cons.prems have "split_chain hp m src xs s0 (x # t0) = (s, t)" by (simp add: Let_def)
    from Cons.IH[OF this] False show ?thesis by auto
  qed
qed

lemma and_mask_eq_iff: "((h::32 word) AND mask k = w) \<longleftrightarrow> (unat h mod 2 ^ k = unat w)"
proof -
  have "h AND mask k = take_bit k h" by (simp only: take_bit_eq_mask)
  then show ?thesis by (metis unat_tb word_unat_eq_iff)
qed

lemma idxn_lt: "1 \<le> k \<Longrightarrow> 2 ^ (k - 1) \<le> v \<Longrightarrow> idxn k v x < v"
proof -
  assume k: "1 \<le> k" and v: "2 ^ (k - 1) \<le> v"
  have "x mod 2 ^ (k - 1) < (2::nat) ^ (k - 1)" by simp
  then have "x mod 2 ^ (k - 1) < v" using v by (rule less_le_trans)
  then show ?thesis unfolding idxn_def by (auto simp: not_le)
qed

lemma idxn_arith:
  fixes p q H v :: nat
  assumes "q < H" and "p = q \<or> p = q + H" and "H \<le> v"
  shows "(if Suc v \<le> p then q else p) = (if p = v then v else (if v \<le> p then q else p))"
    and "p = v \<Longrightarrow> (if v \<le> p then q else p) = v - H"
    and "(if v \<le> p then q else p) = v - H \<Longrightarrow> p \<noteq> v - H \<Longrightarrow> p = v"
  using assms by (auto split: if_splits)

lemma idxn_step:
  assumes k: "1 \<le> k" and v: "2 ^ (k - 1) \<le> v" "v < 2 ^ k"
  shows "idxn k (Suc v) x = (if x mod 2 ^ k = v then v else idxn k v x)"
    and "x mod 2 ^ k = v \<Longrightarrow> idxn k v x = v - 2 ^ (k - 1)"
    and "idxn k v x = v - 2 ^ (k - 1) \<Longrightarrow> x mod 2 ^ k \<noteq> v - 2 ^ (k - 1) \<Longrightarrow> x mod 2 ^ k = v"
proof -
  have q: "x mod 2 ^ (k - 1) < (2::nat) ^ (k - 1)" by simp
  note pq = mod_half[OF k, of x]
  show "idxn k (Suc v) x = (if x mod 2 ^ k = v then v else idxn k v x)"
    unfolding idxn_def by (rule idxn_arith(1)[OF q pq v(1)])
  show "x mod 2 ^ k = v \<Longrightarrow> idxn k v x = v - 2 ^ (k - 1)"
    unfolding idxn_def by (rule idxn_arith(2)[OF q pq v(1)])
  show "idxn k v x = v - 2 ^ (k - 1) \<Longrightarrow> x mod 2 ^ k \<noteq> v - 2 ^ (k - 1) \<Longrightarrow> x mod 2 ^ k = v"
    unfolding idxn_def by (rule idxn_arith(3)[OF q pq v(1)])
qed

lemma placed_at_step:
  assumes k: "1 \<le> k" and v: "2 ^ (k - 1) \<le> v" "v < 2 ^ k"
    and src: "unat src = v - 2 ^ (k - 1)" and tgt: "unat tgt = v"
    and P: "placed_at k v hp tb"
    and sp: "split_chain hp (mask k) src (tb src) [] [] = (s, t)"
  shows "placed_at k (Suc v) hp ((tb(src := s))(tgt := t))"
    and "set s \<union> set t = set (tb src)" and "tb tgt = []" and "src \<noteq> tgt"
proof -
  note st = split_chain_sets[OF sp]
  have H: "(0::nat) < 2 ^ (k - 1)" by simp
  show ne: "src \<noteq> tgt" using src tgt v H by (metis diff_less less_le_trans not_less_iff_gr_or_eq)
  show "tb tgt = []"
  proof (cases "tb tgt")
    case (Cons a as)
    then have "idxn k v (unat (entry_hash hp a)) = v" using P tgt by (auto simp: placed_at_def)
    with idxn_lt[OF k v(1), of "unat (entry_hash hp a)"] show ?thesis by simp
  qed simp
  show "set s \<union> set t = set (tb src)" using st by auto
  show "placed_at k (Suc v) hp ((tb(src := s))(tgt := t))"
    unfolding placed_at_def
  proof (intro allI impI)
    fix i a assume a: "a \<in> set (((tb(src := s))(tgt := t)) i)"
    let ?x = "unat (entry_hash hp a)"
    show "idxn k (Suc v) ?x = unat i"
    proof (cases "i = tgt")
      case True
      with a st have a1: "a \<in> set (tb src)" and a2: "?x mod 2 ^ k \<noteq> v - 2 ^ (k - 1)"
        by (auto simp: and_mask_eq_iff src)
      from a1 P have "idxn k v ?x = v - 2 ^ (k - 1)" by (simp add: placed_at_def src)
      from idxn_step(3)[OF k v this a2] have "?x mod 2 ^ k = v" .
      then show ?thesis using True tgt by (simp add: idxn_step(1)[OF k v])
    next
      case False
      show ?thesis
      proof (cases "i = src")
        case True
        with a st ne have a1: "a \<in> set (tb src)" and a2: "?x mod 2 ^ k = v - 2 ^ (k - 1)"
          by (auto simp: and_mask_eq_iff src)
        from a1 P have "idxn k v ?x = v - 2 ^ (k - 1)" by (simp add: placed_at_def src)
        moreover have "?x mod 2 ^ k \<noteq> v" using a2 v H by arith
        ultimately show ?thesis using True src by (simp add: idxn_step(1)[OF k v])
      next
        case F2: False
        with False a have a1: "a \<in> set (tb i)" by simp
        with P have i: "idxn k v ?x = unat i" by (simp add: placed_at_def)
        have "?x mod 2 ^ k \<noteq> v"
        proof
          assume "?x mod 2 ^ k = v"
          from idxn_step(2)[OF k v this] i have "unat i = unat src" by (simp add: src)
          then show False using F2 by (simp add: word_unat_eq_iff)
        qed
        then show ?thesis using i by (simp add: idxn_step(1)[OF k v])
      qed
    qed
  qed
qed



lemma unat_plus1: "unat (w::32 word) < 2 ^ 31 \<Longrightarrow> unat (w + 1) = Suc (unat w)"
  by (simp add: unat_word_ariths)

lemma union_two_updates:
  assumes "set s \<union> set t = set (tb src)" and "tb tgt = []" and "src \<noteq> tgt"
  shows "(\<Union>i. set (((tb(src := s))(tgt := t)) i)) = (\<Union>i. set (tb i))"
proof (intro set_eqI iffI)
  fix a assume "a \<in> (\<Union>i. set (((tb(src := s))(tgt := t)) i))"
  then obtain i where i: "a \<in> set (((tb(src := s))(tgt := t)) i)" by blast
  show "a \<in> (\<Union>i. set (tb i))"
  proof (cases "i = tgt \<or> i = src")
    case True
    with i assms have "a \<in> set (tb src)" by (auto split: if_splits)
    then show ?thesis by blast
  next
    case False
    with i show ?thesis by auto
  qed
next
  fix a assume "a \<in> (\<Union>i. set (tb i))"
  then obtain i where i: "a \<in> set (tb i)" by blast
  have it: "i \<noteq> tgt" using i assms(2) by auto
  show "a \<in> (\<Union>i. set (((tb(src := s))(tgt := t)) i))"
  proof (cases "i = src")
    case True
    with i assms(1) have "a \<in> set s \<or> a \<in> set t" by auto
    then show ?thesis
    proof
      assume "a \<in> set s"
      then have "a \<in> set (((tb(src := s))(tgt := t)) src)" using assms(3) by simp
      then show ?thesis by blast
    next
      assume "a \<in> set t"
      then have "a \<in> set (((tb(src := s))(tgt := t)) tgt)" by simp
      then show ?thesis by blast
    qed
  next
    case False
    with it i have "a \<in> set (((tb(src := s))(tgt := t)) i)" by simp
    then show ?thesis by blast
  qed
qed

lemma stride_loop_placed:
  assumes "1 \<le> k" and "k \<le> 31"
  shows "v + n \<le> 2 ^ k \<Longrightarrow> 2 ^ (k - 1) \<le> v \<Longrightarrow> unat src = v - 2 ^ (k - 1) \<Longrightarrow> unat tgt = v
         \<Longrightarrow> placed_at k v hp tb
         \<Longrightarrow> placed_at k (v + n) hp (stride_loop n hp (mask k) src tgt tb) \<and>
             (\<Union>i. set (stride_loop n hp (mask k) src tgt tb i)) = (\<Union>i. set (tb i))"
proof (induction n arbitrary: v src tgt tb)
  case 0
  then show ?case by simp
next
  case (Suc n)
  obtain s t where sp: "split_chain hp (mask k) src (tb src) [] [] = (s, t)" by fastforce
  let ?tb = "(tb(src := s))(tgt := t)"
  have v: "v < 2 ^ k" using Suc.prems(1) by simp
  have k31: "(2::nat) ^ k \<le> 2 ^ 31" using assms(2) by (intro power_increasing) simp_all
  note st = placed_at_step[OF assms(1) Suc.prems(2) v Suc.prems(3) Suc.prems(4) Suc.prems(5) sp]
  have s1: "unat (src + 1) = Suc v - 2 ^ (k - 1)"
    using Suc.prems(2,3) v k31 by (simp add: unat_plus1 Suc_diff_le)
  have t1: "unat (tgt + 1) = Suc v" using Suc.prems(4) v k31 by (simp add: unat_plus1)
  have "Suc v + n \<le> 2 ^ k" using Suc.prems(1) by simp
  moreover have "2 ^ (k - 1) \<le> Suc v" using Suc.prems(2) by simp
  ultimately have IH: "placed_at k (Suc v + n) hp (stride_loop n hp (mask k) (src + 1) (tgt + 1) ?tb) \<and>
        (\<Union>i. set (stride_loop n hp (mask k) (src + 1) (tgt + 1) ?tb i)) = (\<Union>i. set (?tb i))"
    using Suc.IH[of "Suc v" "src + 1" "tgt + 1" ?tb] s1 t1 st(1) by blast
  have eq: "stride_loop (Suc n) hp (mask k) src tgt tb = stride_loop n hp (mask k) (src + 1) (tgt + 1) ?tb"
    by (simp add: sp)
  show ?case unfolding eq using IH union_two_updates[OF st(2) st(3) st(4)] by simp
qed



lemma unat_2p:
  assumes "k < 32"
  shows "unat ((2::32 word) ^ k) = 2 ^ k"
proof -
  have "(2::32 word) ^ k = of_nat (2 ^ k)" by simp
  then have "unat ((2::32 word) ^ k) = 2 ^ k mod 2 ^ LENGTH(32)" by (simp only: unat_of_nat)
  moreover have "(2::nat) ^ k < 2 ^ 32" using assms by (intro power_strict_increasing) simp_all
  ultimately show ?thesis by simp
qed

lemma placed_iff:
  assumes "table_wf k s"
  shows "placed s \<longleftrightarrow> placed_at k (unat (t_used s)) (heap s) (t_table s)"
  unfolding placed_def placed_at_def
  by (simp add: word_unat_eq_iff unat_index_wf[OF assms])

lemma wf_unat:
  assumes "table_wf k s"
  shows "unat (t_size s) = 2 ^ k" and "2 ^ (k - 1) \<le> unat (t_used s)" and "unat (t_used s) \<le> 2 ^ k"
    and "1 \<le> k" and "k \<le> 31" and "unat (t_size s div 2) = 2 ^ (k - 1)"
proof -
  have k: "12 \<le> k" "k \<le> 29" and sz: "t_size s = 2 ^ k" using assms by (simp_all add: table_wf_def)
  show s: "unat (t_size s) = 2 ^ k" using k sz by (simp add: unat_2p)
  show "1 \<le> k" "k \<le> 31" using k by simp_all
  obtain j where j: "k = Suc j" using k by (cases k) auto
  show h: "unat (t_size s div 2) = 2 ^ (k - 1)" by (simp add: unat_div s j)
  have "t_size s div 2 \<le> t_used s" "t_used s \<le> t_size s" using assms unfolding table_wf_def by blast+
  then show "2 ^ (k - 1) \<le> unat (t_used s)" "unat (t_used s) \<le> 2 ^ k"
    unfolding word_le_nat_alt h s by simp_all
qed



lemma idxn_double_arith:
  fixes p q H r :: nat
  assumes "q < H" and "p = q \<or> p = q + H"
  shows "(if H \<le> p then q else p) = (if H \<le> q then r else q)"
  using assms by auto

lemma idxn_double: "idxn (Suc k) (2 ^ k) x = idxn k (2 ^ k) x"
proof -
  have a: "x mod 2 ^ k < (2::nat) ^ k" by simp
  have b: "x mod 2 ^ Suc k = x mod 2 ^ k \<or> x mod 2 ^ Suc k = x mod 2 ^ k + 2 ^ k"
    using mod_half[of "Suc k" x] by simp
  have "idxn (Suc k) (2 ^ k) x = (if 2 ^ k \<le> x mod 2 ^ Suc k then x mod 2 ^ k else x mod 2 ^ Suc k)"
    by (simp add: idxn_def)
  also have "\<dots> = (if 2 ^ k \<le> x mod 2 ^ k then x mod 2 ^ (k - 1) else x mod 2 ^ k)"
    by (rule idxn_double_arith[OF a b])
  finally show ?thesis by (simp add: idxn_def)
qed

lemma expand_wf:
  assumes wf: "table_wf k s" and full: "t_used s = t_size s" and k: "k < 29"
  shows "table_wf (Suc k) (mc_table_expand (t_size s * 2) s)"
proof -
  have sz: "t_size s = 2 ^ k" and k12: "12 \<le> k" and m: "unat (t_used s) mod 64 = 0"
    using wf unfolding table_wf_def by blast+
  have d: "(2::32 word) ^ Suc k div 2 = 2 ^ k"
  proof -
    have "unat ((2::32 word) ^ Suc k div 2) = unat ((2::32 word) ^ Suc k) div unat (2::32 word)"
      by (rule unat_div)
    also have "\<dots> = 2 ^ Suc k div 2" using k by (simp only: unat_2p) simp
    also have "\<dots> = unat ((2::32 word) ^ k)" using k by (simp add: unat_2p)
    finally have "unat ((2::32 word) ^ Suc k div 2) = unat ((2::32 word) ^ k)" .
    then show ?thesis by (simp only: word_unat_eq_iff)
  qed
  have le: "(2::32 word) ^ k \<le> 2 ^ Suc k"
    unfolding word_le_nat_alt using k by (simp add: unat_2p del: power_Suc)
  show ?thesis
    unfolding table_wf_def mc_table_expand_def
    using k k12 m d le by (simp add: sz full mult.commute)
qed

lemma expand_placed:
  assumes wf: "table_wf k s" and full: "t_used s = t_size s" and k: "k < 29" and pl: "placed s"
  shows "placed (mc_table_expand (t_size s * 2) s)"
    and "stored (mc_table_expand (t_size s * 2) s) = stored s"
proof -
  let ?s1 = "mc_table_expand (t_size s * 2) s"
  note wf1 = expand_wf[OF wf full k]
  have u: "unat (t_used s) = 2 ^ k" using wf_unat(1)[OF wf] full by simp
  have P: "placed_at k (2 ^ k) (heap s) (t_table s)" using pl placed_iff[OF wf] u by simp
  have empty: "t_table s i = []" if "t_size s \<le> i" for i
  proof (cases "t_table s i")
    case (Cons a as)
    then have "idxn k (2 ^ k) (unat (entry_hash (heap s) a)) = unat i"
      using P by (auto simp: placed_at_def)
    moreover have "2 ^ k \<le> unat i" using that wf_unat(1)[OF wf] by (simp add: word_le_nat_alt)
    ultimately show ?thesis using idxn_lt[of k "2 ^ k" "unat (entry_hash (heap s) a)"] wf_unat(4)[OF wf]
      by simp
  qed simp
  have tb: "t_table ?s1 = t_table s" 
    by (rule ext) (simp add: mc_table_expand_def empty)
  have u1: "unat (t_used ?s1) = 2 ^ k" using u by (simp add: mc_table_expand_def)
  have "placed_at (Suc k) (2 ^ k) (heap ?s1) (t_table ?s1)"
    using P unfolding placed_at_def tb idxn_double by (simp add: mc_table_expand_def)
  then show "placed ?s1" using placed_iff[OF wf1] u1 by simp
  show "stored ?s1 = stored s" by (simp add: stored_def tb)
qed



lemma stride_room:
  fixes v k :: nat
  assumes "v mod 64 = 0" and "v < 2 ^ k" and "6 \<le> k"
  shows "v + 64 \<le> 2 ^ k"
proof -
  obtain j where j: "k = 6 + j" using assms(3) by (metis le_add_diff_inverse)
  have p: "(2::nat) ^ k = 64 * 2 ^ j" unfolding j by (simp add: power_add)
  have "64 dvd v" using assms(1) by (simp add: dvd_eq_mod_eq_0)
  then obtain a where a: "v = 64 * a" by (rule dvdE)
  have "a < 2 ^ j" using assms(2) unfolding p a by simp
  then have "Suc a \<le> 2 ^ j" by simp
  then have "64 * Suc a \<le> 64 * 2 ^ j" by (rule mult_le_mono2)
  then show ?thesis unfolding p a by simp
qed

lemma stride_wf_placed:
  assumes wf: "table_wf k s" and lt: "t_used s < t_size s" and pl: "placed s"
  shows "table_wf k (mc_table_stride s)" and "placed (mc_table_stride s)"
    and "stored (mc_table_stride s) = stored s"
proof -
  let ?v = "unat (t_used s)"
  let ?s1 = "mc_table_stride s"
  have k12: "12 \<le> k" and k29: "k \<le> 29" and m64: "?v mod 64 = 0" and msk: "t_mask s = t_size s - 1"
    and sz: "t_size s = 2 ^ k" and half: "t_size s div 2 \<le> t_used s"
    using wf unfolding table_wf_def by blast+
  note u = wf_unat[OF wf]
  have vlt: "?v < 2 ^ k" using lt u(1) by (simp add: word_less_nat_alt)
  have room: "?v + 64 \<le> 2 ^ k" using stride_room[OF m64 vlt] k12 by simp
  have k32: "(2::nat) ^ k < 2 ^ 32" using k29 by (intro power_strict_increasing) simp_all
  have src: "unat (t_used s - t_size s div 2) = ?v - 2 ^ (k - 1)"
    using half u(6) by (simp add: unat_sub)
  have used': "unat (t_used s + 64) = ?v + 64"
    using room k32 by (simp add: unat_word_ariths)
  have P: "placed_at k ?v (heap s) (t_table s)" using pl placed_iff[OF wf] by simp
  note L = stride_loop_placed[OF u(4) u(5), of ?v 64 "t_used s - t_size s div 2" "t_used s" "heap s" "t_table s",
      OF room u(2) src refl P]
  have tb: "t_table ?s1 = stride_loop 64 (heap s) (mask k) (t_used s - t_size s div 2) (t_used s) (t_table s)"
    by (simp add: mc_table_stride_def Let_def MC_TABLE_STRIDE_def wf_mask[OF wf])
  have fields: "t_used ?s1 = t_used s + 64" "t_size ?s1 = t_size s" "t_mask ?s1 = t_mask s" "heap ?s1 = heap s"
    by (simp_all add: mc_table_stride_def Let_def MC_TABLE_STRIDE_def)
  have le1: "t_size s div 2 \<le> t_used s + 64" "t_used s + 64 \<le> t_size s"
    unfolding word_le_nat_alt used' u(6) u(1) using u(2) room by simp_all
  show wf1: "table_wf k ?s1"
    unfolding table_wf_def fields using k12 k29 sz msk le1 m64 used' by simp
  show "placed ?s1"
    using L unfolding placed_iff[OF wf1] fields used' tb by simp
  show "stored ?s1 = stored s"
    using L unfolding stored_def tb by simp
qed

lemma routine_wf_placed:
  assumes wf: "table_wf k s" and pl: "placed s" and room: "t_used s = t_size s \<longrightarrow> k < 29"
  shows "table_wf (if t_used s = t_size s then Suc k else k) (mc_table_stride_routine s)"
    and "placed (mc_table_stride_routine s)"
    and "stored (mc_table_stride_routine s) = stored s"
    and "heap (mc_table_stride_routine s) = heap s"
    and "t_used (mc_table_stride_routine s) = t_used s + 64"
    and "t_size (mc_table_stride_routine s) = (if t_used s = t_size s then t_size s * 2 else t_size s)"
proof -
  define s1 where "s1 = (if t_used s = t_size s then mc_table_expand (t_size s * 2) s else s)"
  define k1 where "k1 = (if t_used s = t_size s then Suc k else k)"
  have wf1: "table_wf k1 s1" and pl1: "placed s1" and st1: "stored s1 = stored s"
    using wf pl room expand_wf[of k s] expand_placed[of k s] by (auto simp: s1_def k1_def)
  have f1: "t_used s1 = t_used s" "heap s1 = heap s"
    "t_size s1 = (if t_used s = t_size s then t_size s * 2 else t_size s)"
    by (simp_all add: s1_def mc_table_expand_def)
  have lt: "t_used s1 < t_size s1"
  proof (cases "t_used s = t_size s")
    case True
    then have "unat (t_used s1) = 2 ^ k" using wf_unat(1)[OF wf] f1 by simp
    moreover have "unat (t_size s1) = 2 ^ Suc k" using wf_unat(1)[OF wf1] True by (simp add: k1_def)
    ultimately show ?thesis by (simp add: word_less_nat_alt)
  next
    case False
    moreover have "t_used s \<le> t_size s" using wf unfolding table_wf_def by blast
    ultimately show ?thesis unfolding s1_def by (simp add: order_less_le)
  qed
  note S = stride_wf_placed[OF wf1 lt pl1]
  have r: "mc_table_stride_routine s =
      (if mc_table_is_full (mc_table_stride s1) then mc_table_start_striding (mc_table_stride s1)
       else (mc_table_stride s1)\<lparr>t_striding := False\<rparr>)"
    by (simp add: mc_table_stride_routine_def Let_def s1_def)
  have same: "table_wf k1 (mc_table_stride_routine s) = table_wf k1 (mc_table_stride s1)"
    "placed (mc_table_stride_routine s) = placed (mc_table_stride s1)"
    "stored (mc_table_stride_routine s) = stored (mc_table_stride s1)"
    "heap (mc_table_stride_routine s) = heap (mc_table_stride s1)"
    "t_used (mc_table_stride_routine s) = t_used (mc_table_stride s1)"
    "t_size (mc_table_stride_routine s) = t_size (mc_table_stride s1)"
    unfolding r by (simp_all add: table_wf_def placed_def stored_def mc_table_index_def
        mc_table_start_striding_def)
  have f2: "t_used (mc_table_stride s1) = t_used s1 + 64" "t_size (mc_table_stride s1) = t_size s1"
    "heap (mc_table_stride s1) = heap s1"
    by (simp_all add: mc_table_stride_def Let_def MC_TABLE_STRIDE_def)
  show "table_wf (if t_used s = t_size s then Suc k else k) (mc_table_stride_routine s)"
    using S(1) same(1) by (simp add: k1_def)
  show "placed (mc_table_stride_routine s)" using S(2) same(2) by simp
  show "stored (mc_table_stride_routine s) = stored s" using S(3) same(3) st1 by simp
  show "heap (mc_table_stride_routine s) = heap s" using same(4) f2 f1 by simp
  show "t_used (mc_table_stride_routine s) = t_used s + 64" using same(5) f2 f1 by simp
  show "t_size (mc_table_stride_routine s) = (if t_used s = t_size s then t_size s * 2 else t_size s)"
    using same(6) f2 f1 by simp
qed

lemma lookup_chain_finds:
  "a \<in> set chain \<Longrightarrow> key_match hp k kl a \<Longrightarrow>
     \<exists>b. lookup_chain hp k kl chain = Some b \<and> b \<in> set chain \<and> key_match hp k kl b"
  by (induction chain) auto

lemma placed_findable:
  assumes "placed s" and "a \<in> stored s"
  shows "a \<in> set (t_table s (mc_table_key_index s (e_key (heap s a)) (e_key_len (heap s a))))"
    and "\<exists>b. mc_table_lookup s (mc_table_key_index s (e_key (heap s a)) (e_key_len (heap s a)))
               (e_key (heap s a)) (e_key_len (heap s a)) = Some b \<and>
             key_match (heap s) (e_key (heap s a)) (e_key_len (heap s a)) b"
proof -
  let ?i = "mc_table_key_index s (e_key (heap s a)) (e_key_len (heap s a))"
  obtain i where i: "a \<in> set (t_table s i)" using assms(2) by (auto simp: stored_def)
  then have "mc_table_index s (entry_hash (heap s) a) = i" using assms(1) by (simp add: placed_def)
  then have "?i = i" by (simp add: mc_table_key_index_def entry_hash_def)
  with i show a: "a \<in> set (t_table s ?i)" by simp
  have "key_match (heap s) (e_key (heap s a)) (e_key_len (heap s a)) a" by (simp add: key_match_def)
  from lookup_chain_finds[OF a this] show "\<exists>b. mc_table_lookup s ?i
               (e_key (heap s a)) (e_key_len (heap s a)) = Some b \<and>
             key_match (heap s) (e_key (heap s a)) (e_key_len (heap s a)) b"
    by (auto simp: mc_table_lookup_def)
qed






lemma index_formula:
  assumes wf: "table_wf k s"
  shows "mc_table_index s h =
         (if h AND (t_size s - 1) < t_used s then h AND (t_size s - 1)
          else h AND drop_bit 1 (t_size s - 1))"
proof -
  have m: "t_size s - 1 = mask k" using wf wf_mask[OF wf] by (simp add: table_wf_def)
  have k: "k \<le> 32" using wf by (simp add: table_wf_def)
  show ?thesis
    unfolding index_wf[OF wf] m drop_bit_1_mask[OF k]
    by (auto simp: take_bit_eq_mask not_less)
qed

lemma max_size_exponent:
  assumes wf: "table_wf k s"
  shows "t_size s = MC_TABLE_SIZE_MAX \<longleftrightarrow> k = 29"
proof -
  have k: "k \<le> 29" and sz: "t_size s = 2 ^ k" using wf unfolding table_wf_def by blast+
  have "unat (t_size s) = 2 ^ k" by (rule wf_unat(1)[OF wf])
  moreover have "unat MC_TABLE_SIZE_MAX = 2 ^ 29" by (simp add: MC_TABLE_SIZE_MAX_def)
  ultimately have "t_size s = MC_TABLE_SIZE_MAX \<longleftrightarrow> (2::nat) ^ k = 2 ^ 29"
    by (metis word_unat_eq_iff)
  moreover have "((2::nat) ^ k = 2 ^ 29) = (k = 29)" by (rule power_inject_exp) simp
  ultimately show ?thesis by blast
qed

text \<open>
  Claim C4.  In a well-formed table a lookup of the hash \<open>h\<close> examines bucket
  \<open>h AND (size - 1)\<close> when that index is below \<open>used\<close> and bucket
  \<open>h AND ((size - 1) >> 1)\<close> otherwise.  One run of \<open>mc_table_stride_routine\<close> (doubling
  the size first when \<open>used = size\<close>, then splitting 64 chains and advancing \<open>used\<close> by
  64) keeps the table well formed and every entry in the bucket computed from its key,
  loses and adds no entry, and every stored entry is still found by \<open>mc_table_lookup\<close> at
  the index \<open>mc_table_key_index\<close> computes for its key.
\<close>

theorem stride_step_keeps_entries_findable:
  assumes wf: "table_wf k s" and pl: "placed s"
    and room: "\<not> (t_size s = MC_TABLE_SIZE_MAX \<and> t_used s = t_size s)"
  shows "mc_table_index s h =
           (if h AND (t_size s - 1) < t_used s then h AND (t_size s - 1)
            else h AND drop_bit 1 (t_size s - 1)) \<and>
         (\<exists>k'. table_wf k' (mc_table_stride_routine s)) \<and>
         placed (mc_table_stride_routine s) \<and>
         stored (mc_table_stride_routine s) = stored s \<and>
         heap (mc_table_stride_routine s) = heap s \<and>
         t_size (mc_table_stride_routine s) = (if t_used s = t_size s then t_size s * 2 else t_size s) \<and>
         t_used (mc_table_stride_routine s) = t_used s + 64 \<and>
         (\<forall>a \<in> stored s.
            a \<in> set (t_table (mc_table_stride_routine s)
                      (mc_table_key_index (mc_table_stride_routine s)
                         (e_key (heap s a)) (e_key_len (heap s a)))) \<and>
            (\<exists>b. mc_table_lookup (mc_table_stride_routine s)
                    (mc_table_key_index (mc_table_stride_routine s)
                       (e_key (heap s a)) (e_key_len (heap s a)))
                    (e_key (heap s a)) (e_key_len (heap s a)) = Some b \<and>
                  key_match (heap s) (e_key (heap s a)) (e_key_len (heap s a)) b))"
proof -
  let ?s' = "mc_table_stride_routine s"
  have k: "k \<le> 29" using wf unfolding table_wf_def by blast
  have r: "t_used s = t_size s \<longrightarrow> k < 29"
    using room max_size_exponent[OF wf] k by auto
  note R = routine_wf_placed[OF wf pl r]
  have find: "a \<in> set (t_table ?s' (mc_table_key_index ?s' (e_key (heap s a)) (e_key_len (heap s a)))) \<and>
            (\<exists>b. mc_table_lookup ?s' (mc_table_key_index ?s' (e_key (heap s a)) (e_key_len (heap s a)))
                    (e_key (heap s a)) (e_key_len (heap s a)) = Some b \<and>
                  key_match (heap s) (e_key (heap s a)) (e_key_len (heap s a)) b)"
    if "a \<in> stored s" for a
  proof -
    have "a \<in> stored ?s'" using that R(3) by simp
    from placed_findable[OF R(2) this] show ?thesis unfolding R(4) by blast
  qed
  show ?thesis
    using index_formula[OF wf] R(1) R(2) R(3) R(4) R(5) R(6) find by blast
qed

theorem stride_step_keeps_entries_findable_witness:
  "table_wf 12 ex_state_a \<and> placed ex_state_a \<and>
   \<not> (t_size ex_state_a = MC_TABLE_SIZE_MAX \<and> t_used ex_state_a = t_size ex_state_a) \<and>
   placed (mc_table_stride_routine ex_state_a) \<and>
   stored (mc_table_stride_routine ex_state_a) = stored ex_state_a \<and>
   t_size (mc_table_stride_routine ex_state_a) = 8192 \<and>
   t_used (mc_table_stride_routine ex_state_a) = 4160"
proof -
  have a: "table_wf 12 ex_state_a" by (simp add: table_wf_def ex_state_a_def)
  have b: "placed ex_state_a"
    by (simp add: placed_def ex_state_a_def mc_table_index_def entry_hash_def ex_entry_a_def
        mc_hash_def FNV1_32_INIT_def FNV_32_PRIME_def)
  have c: "\<not> (t_size ex_state_a = MC_TABLE_SIZE_MAX \<and> t_used ex_state_a = t_size ex_state_a)"
    by (simp add: ex_state_a_def MC_TABLE_SIZE_MAX_def)
  show ?thesis
    using a b c stride_step_keeps_entries_findable[OF a b c, of 0]
    by (simp add: ex_state_a_def)
qed


section \<open>Starting to stride\<close>


text \<open>
  An insertion into a table of 4096 buckets that raises the number of entries to 8193, more
  than twice the number of buckets and with the size below its maximum, leaves the table
  not striding and posts no stride routine.
\<close>

theorem insert_above_twice_buckets_does_not_stride:
  "unat (t_nentries (mc_table_insert 0 7 ex_state_8192)) > 2 * unat (t_used (mc_table_insert 0 7 ex_state_8192)) \<and>
   t_size (mc_table_insert 0 7 ex_state_8192) < MC_TABLE_SIZE_MAX \<and>
   \<not> t_striding ex_state_8192 \<and>
   \<not> t_striding (mc_table_insert 0 7 ex_state_8192) \<and>
   posted (mc_table_insert 0 7 ex_state_8192) = posted ex_state_8192"
  by (simp add: mc_table_insert_def ex_state_8192_def Let_def mc_table_is_full_def
      MC_TABLE_SIZE_MAX_def mc_table_start_striding_def)

lemma is_full_nat:
  assumes "t_size s \<le> MC_TABLE_SIZE_MAX"
  shows "mc_table_is_full s \<longleftrightarrow>
    (\<not> (t_size s = MC_TABLE_SIZE_MAX \<and> t_used s = t_size s) \<and> unat (t_nentries s) > 4 * unat (t_size s))"
proof -
  have le: "unat (t_size s) \<le> 2 ^ 29"
    using assms by (simp add: word_le_nat_alt MC_TABLE_SIZE_MAX_def)
  then have "unat (t_size s * 4) = unat (t_size s) * 4"
    by (simp add: unat_word_ariths)
  moreover have "unat (ucast (t_size s * 4) :: 64 word) = unat (t_size s * 4)"
  proof -
    have "unat (t_size s * 4) < 2 ^ 32" using unsigned_less[of "t_size s * 4"] by simp
    then have "unat (t_size s * 4) < 2 ^ 64" by simp
    then show ?thesis by (simp add: unsigned_ucast_eq take_bit_nat_eq_self)
  qed
  ultimately have "unat (ucast (t_size s * 4) :: 64 word) = 4 * unat (t_size s)" by simp
  then show ?thesis
    by (simp add: mc_table_is_full_def word_less_nat_alt)
qed


lemma check_size_nat:
  assumes mx: "unat nbuckets_max \<le> 2 ^ 31"
    and fv: "unat (p_nentries_free part) + unat (p_nentries_void part) \<le> unat (p_nentries part)"
  shows "mc_table_check_size nbuckets_max part \<longleftrightarrow>
     (unat (p_nentries part) - unat (p_nentries_free part) - unat (p_nentries_void part)
        > 2 * unat (p_nbuckets part) \<and> p_nbuckets part < nbuckets_max)"
proof -
  have f: "unat (p_nentries_free part) \<le> unat (p_nentries part)" using fv by simp
  then have s1: "unat (p_nentries part - p_nentries_free part) = unat (p_nentries part) - unat (p_nentries_free part)"
    by (simp add: unat_sub word_le_nat_alt)
  have "unat (p_nentries_void part) \<le> unat (p_nentries part - p_nentries_free part)"
    unfolding s1 using fv by simp
  then have s2: "unat (p_nentries part - p_nentries_free part - p_nentries_void part)
      = unat (p_nentries part) - unat (p_nentries_free part) - unat (p_nentries_void part)"
    by (simp add: unat_sub word_le_nat_alt s1)
  show ?thesis
  proof (cases "p_nbuckets part < nbuckets_max")
    case True
    then have "unat (p_nbuckets part) < 2 ^ 31" using mx by (simp add: word_less_nat_alt)
    then have "unat (p_nbuckets part * 2) = 2 * unat (p_nbuckets part)"
      by (simp add: unat_word_ariths)
    then show ?thesis using True
      by (simp add: mc_table_check_size_def Let_def word_less_nat_alt s2)
  next
    case False
    then show ?thesis by (simp add: mc_table_check_size_def Let_def)
  qed
qed

text \<open>
  Claim C5, amended.  \<open>mc_table_insert\<close> of \<open>memcache.c\<close> starts striding (sets the flag and
  posts the stride routine) exactly when the table is not striding yet, the number of
  entries after the insertion exceeds four times the allocated size, and the table is not
  fully used at its maximal size.  \<open>mc_table_reserve_entries\<close> of \<open>memcache/table.c\<close> starts
  striding exactly when the partition is not striding yet, its number of stored entries
  (\<open>nentries\<close> less the free and the void ones) exceeds twice the number of buckets, and
  the number of buckets is below its maximum.  Neither starts striding when the number of
  entries is at most twice the number of buckets.
\<close>

theorem striding_started_exactly_when:
  assumes sz: "t_size s \<le> MC_TABLE_SIZE_MAX" and used: "t_used s \<le> t_size s"
    and ne: "unat (t_nentries s) < 2 ^ 64 - 1"
    and mx: "unat nbuckets_max \<le> 2 ^ 31"
    and fv: "unat (p_nentries_free part) + unat (p_nentries_void part) \<le> unat (p_nentries part)"
  shows "((posted (mc_table_insert i a s) = posted s + 1 \<and> t_striding (mc_table_insert i a s)
            \<and> \<not> t_striding s)
          \<longleftrightarrow> (\<not> t_striding s \<and> unat (t_nentries s) + 1 > 4 * unat (t_size s) \<and>
               \<not> (t_size s = MC_TABLE_SIZE_MAX \<and> t_used s = t_size s))) \<and>
         (unat (t_nentries s) + 1 \<le> 2 * unat (t_used s) \<longrightarrow>
            posted (mc_table_insert i a s) = posted s \<and>
            t_striding (mc_table_insert i a s) = t_striding s) \<and>
         ((p_posted (mc_table_reserve_entries nbuckets_max part) = p_posted part + 1 \<and>
            p_striding (mc_table_reserve_entries nbuckets_max part) \<and> \<not> p_striding part)
          \<longleftrightarrow> (\<not> p_striding part \<and>
               unat (p_nentries part) - unat (p_nentries_free part) - unat (p_nentries_void part)
                 > 2 * unat (p_nbuckets part) \<and>
               p_nbuckets part < nbuckets_max)) \<and>
         (unat (p_nentries part) - unat (p_nentries_free part) - unat (p_nentries_void part)
             \<le> 2 * unat (p_nbuckets part) \<longrightarrow>
            mc_table_reserve_entries nbuckets_max part = part)"
proof -
  let ?s1 = "s\<lparr>mc_entry_list := mc_entry_list s @ [a],
              t_table := (t_table s)(i := a # t_table s i),
              t_nentries := t_nentries s + 1\<rparr>"
  have n1: "unat (t_nentries s + 1) = unat (t_nentries s) + 1"
    using ne by (simp add: unat_word_ariths)
  have full: "mc_table_is_full ?s1 \<longleftrightarrow>
      (\<not> (t_size s = MC_TABLE_SIZE_MAX \<and> t_used s = t_size s) \<and>
       unat (t_nentries s) + 1 > 4 * unat (t_size s))"
    using is_full_nat[of ?s1] sz n1 by simp
  have ins: "mc_table_insert i a s =
      (if \<not> t_striding s \<and> mc_table_is_full ?s1
       then ?s1\<lparr>t_striding := True, posted := posted s + 1\<rparr> else ?s1)"
    by (simp add: mc_table_insert_def Let_def mc_table_start_striding_def)
  have A: "(posted (mc_table_insert i a s) = posted s + 1 \<and> t_striding (mc_table_insert i a s)
            \<and> \<not> t_striding s)
          \<longleftrightarrow> (\<not> t_striding s \<and> unat (t_nentries s) + 1 > 4 * unat (t_size s) \<and>
               \<not> (t_size s = MC_TABLE_SIZE_MAX \<and> t_used s = t_size s))"
    unfolding ins full by auto
  have us: "unat (t_used s) \<le> unat (t_size s)" using used by (simp add: word_le_nat_alt)
  have B: "unat (t_nentries s) + 1 \<le> 2 * unat (t_used s) \<longrightarrow>
            posted (mc_table_insert i a s) = posted s \<and>
            t_striding (mc_table_insert i a s) = t_striding s"
    unfolding ins full using us by auto
  note cs = check_size_nat[OF mx fv]
  have C: "(p_posted (mc_table_reserve_entries nbuckets_max part) = p_posted part + 1 \<and>
            p_striding (mc_table_reserve_entries nbuckets_max part) \<and> \<not> p_striding part)
          \<longleftrightarrow> (\<not> p_striding part \<and>
               unat (p_nentries part) - unat (p_nentries_free part) - unat (p_nentries_void part)
                 > 2 * unat (p_nbuckets part) \<and>
               p_nbuckets part < nbuckets_max)"
    unfolding mc_table_reserve_entries_def cs mc_table_start_striding_part_def by auto
  have D: "unat (p_nentries part) - unat (p_nentries_free part) - unat (p_nentries_void part)
             \<le> 2 * unat (p_nbuckets part) \<longrightarrow>
            mc_table_reserve_entries nbuckets_max part = part"
    unfolding mc_table_reserve_entries_def cs by auto
  show ?thesis using A B C D by blast
qed

theorem striding_started_exactly_when_witness:
  "posted (mc_table_insert 0 7 (ex_state_8192\<lparr>t_nentries := 16384\<rparr>)) = 1 \<and>
   t_striding (mc_table_insert 0 7 (ex_state_8192\<lparr>t_nentries := 16384\<rparr>)) \<and>
   p_posted (mc_table_reserve_entries 1024 ex_part) = 1 \<and>
   p_striding (mc_table_reserve_entries 1024 ex_part)"
proof -
  have 1: "t_size (ex_state_8192\<lparr>t_nentries := 16384\<rparr>) \<le> MC_TABLE_SIZE_MAX"
    by (simp add: ex_state_8192_def MC_TABLE_SIZE_MAX_def)
  have 2: "t_used (ex_state_8192\<lparr>t_nentries := 16384\<rparr>) \<le> t_size (ex_state_8192\<lparr>t_nentries := 16384\<rparr>)"
    by (simp add: ex_state_8192_def)
  have 3: "unat (t_nentries (ex_state_8192\<lparr>t_nentries := 16384\<rparr>)) < 2 ^ 64 - 1"
    by (simp add: ex_state_8192_def)
  have 4: "unat (1024 :: 32 word) \<le> 2 ^ 31" by simp
  have 5: "unat (p_nentries_free ex_part) + unat (p_nentries_void ex_part) \<le> unat (p_nentries ex_part)"
    by (simp add: ex_part_def)
  show ?thesis
    using striding_started_exactly_when[OF 1 2 3 4 5, of 0 7]
    by (simp add: ex_state_8192_def ex_part_def MC_TABLE_SIZE_MAX_def)
qed


section \<open>Decimal numbers: parsing and printing\<close>


declare dec.simps [simp del]
declare u64_digits.simps [simp del]
declare fill_digits.simps [simp del]

lemma dec_nonempty: "dec n \<noteq> []"
  by (subst dec.simps) simp

lemma length_dec_bound: "n < 10 ^ m \<Longrightarrow> 0 < m \<Longrightarrow> length (dec n) \<le> m"
proof (induction n arbitrary: m rule: dec.induct)
  case (1 n)
  show ?case
  proof (cases "n < 10")
    case True
    then show ?thesis using "1.prems" by (subst dec.simps) simp
  next
    case False
    obtain j where m: "m = Suc j" using "1.prems"(2) by (cases m) auto
    have j0: "0 < j" using False "1.prems"(1) m by (cases j) auto
    have "n div 10 < 10 ^ j" using "1.prems"(1) m by (simp add: less_mult_imp_div_less mult.commute)
    from "1.IH"[OF False this j0] show ?thesis using False m by (subst dec.simps) simp
  qed
qed

lemma of_char_digit: "(d::nat) < 10 \<Longrightarrow> of_char (char_of (48 + d) :: char) = (48 + d :: nat)"
  by simp

lemma isdigit_digit: "(d::nat) < 10 \<Longrightarrow> isdigit (char_of (48 + d))"
  by (simp add: isdigit_def)

lemma value_u64_loop_append:
  "value_u64_loop v (xs @ ys) =
     (case value_u64_loop v xs of None \<Rightarrow> None | Some v' \<Rightarrow> value_u64_loop v' ys)"
  by (induction xs arbitrary: v) (auto simp: Let_def)

lemma value_u64_loop_single:
  "isdigit c \<Longrightarrow> \<not> (v * 10 + of_nat (of_char c) - 48 < v) \<Longrightarrow>
     value_u64_loop v [c] = Some (v * 10 + of_nat (of_char c) - 48)"
  by (simp add: Let_def)

lemma unat_of_nat64: "n < 2 ^ 64 \<Longrightarrow> unat (of_nat n :: 64 word) = n"
  by (simp add: unat_of_nat)

lemma value_u64_dec:
  "n < 2 ^ 64 \<Longrightarrow> value_u64_loop 0 (dec n) = Some (of_nat n)"
proof (induction n rule: dec.induct)
  case (1 n)
  show ?case
  proof (cases "n < 10")
    case True
    then show ?thesis by (subst dec.simps) (simp add: isdigit_digit Let_def)
  next
    case False
    let ?q = "n div 10" and ?d = "n mod 10"
    have q: "?q < 2 ^ 64" using "1.prems" by simp
    have IH: "value_u64_loop 0 (dec ?q) = Some (of_nat ?q)" using "1.IH"[OF False q] .
    have vv: "(of_nat ?q :: 64 word) * 10 + of_nat (of_char (char_of (48 + ?d) :: char)) - 48 = of_nat n"
    proof -
      have "of_nat (?q * 10 + ?d) = (of_nat n :: 64 word)" by simp
      moreover have "of_nat (?q * 10 + ?d) = (of_nat ?q :: 64 word) * 10 + of_nat ?d"
        by (simp only: of_nat_add of_nat_mult of_nat_numeral)
      ultimately have "(of_nat ?q :: 64 word) * 10 + of_nat ?d = of_nat n" by simp
      then show ?thesis by (simp add: of_char_digit)
    qed
    have ge: "\<not> (of_nat n :: 64 word) < of_nat ?q"
      using "1.prems" q by (simp add: word_less_nat_alt unat_of_nat64)
    have d: "dec n = dec ?q @ [char_of (48 + ?d)]" using False by (subst dec.simps) simp
    have "value_u64_loop (of_nat ?q) [char_of (48 + ?d)] =
          Some ((of_nat ?q :: 64 word) * 10 + of_nat (of_char (char_of (48 + ?d) :: char)) - 48)"
      by (rule value_u64_loop_single) (simp add: isdigit_digit, unfold vv, rule ge)
    then have "value_u64_loop (of_nat ?q) [char_of (48 + ?d)] = Some (of_nat n)"
      unfolding vv .
    then show ?thesis unfolding d value_u64_loop_append IH by simp
  qed
qed

lemma rev_u64_digits: "rev (u64_digits v) = dec (unat v)"
proof (induction v rule: u64_digits.induct)
  case (1 v)
  have m: "unat (v mod 10) = unat v mod 10" by (simp add: unat_mod)
  have d: "unat (v div 10) = unat v div 10" by (simp add: unat_div)
  show ?case
  proof (cases "v div 10 = 0")
    case True
    then have "unat v div 10 = 0" using d by simp
    then have lt: "unat v < 10" by simp
    then show ?thesis using True by (subst u64_digits.simps, subst dec.simps) (simp add: m)
  next
    case False
    then have "unat (v div 10) \<noteq> 0" by (metis unat_eq_zero)
    then have "unat v div 10 \<noteq> 0" unfolding d .
    then have ge: "\<not> unat v < 10" by simp
    show ?thesis using False ge "1.IH"[OF False]
      by (subst u64_digits.simps, subst dec.simps) (simp add: m d)
  qed
qed

lemma fill_digits_rev:
  "1 \<le> n \<Longrightarrow> n \<le> length b \<Longrightarrow> length v = length b \<Longrightarrow>
     fill_digits n b (length b) v = take (length b - n) v @ rev (take n b)"
proof (induction n b "length b" v rule: fill_digits.induct)
  case (1 n b v)
  let ?L = "length b"
  let ?i = "?L - n" and ?n' = "n - 1"
  let ?v' = "v[?i := b ! ?n']"
  have i: "?i < length v" using "1.prems" by simp
  have tk: "take (Suc ?i) ?v' = take ?i v @ [b ! ?n']"
    using i by (simp add: take_Suc_conv_app_nth)
  show ?case
  proof (cases "?n' = 0")
    case True
    then have n1: "n = 1" using "1.prems"(1) by simp
    have "?v' = take (Suc ?i) ?v'" using "1.prems" n1 by simp
    then have "?v' = take ?i v @ [b ! 0]" using tk True by simp
    moreover have "rev (take n b) = [b ! 0]" using n1 "1.prems"(2) by (cases b) auto
    ultimately show ?thesis using True by (subst fill_digits.simps) (simp add: Let_def)
  next
    case False
    have p: "1 \<le> ?n'" "?n' \<le> ?L" "length ?v' = ?L" using False "1.prems" by simp_all
    have IH: "fill_digits ?n' b ?L ?v' = take (?L - ?n') ?v' @ rev (take ?n' b)"
      using "1.hyps"[OF refl refl refl False p] .
    have s: "?L - ?n' = Suc ?i" using "1.prems" False by simp
    have "take n b = take ?n' b @ [b ! ?n']"
      using "1.prems" False by (metis Suc_pred' le_eq_less_or_eq less_le_trans not_gr_zero 
          take_Suc_conv_app_nth One_nat_def Suc_le_lessD diff_less zero_less_one)
    then have r: "rev (take n b) = b ! ?n' # rev (take ?n' b)" by simp
    have "fill_digits n b ?L v = fill_digits ?n' b ?L ?v'"
      using False by (subst fill_digits.simps) (simp add: Let_def)
    also have "\<dots> = take (?L - ?n') ?v' @ rev (take ?n' b)" by (rule IH)
    also have "\<dots> = take (Suc ?i) ?v' @ rev (take ?n' b)" by (simp only: s)
    also have "\<dots> = (take ?i v @ [b ! ?n']) @ rev (take ?n' b)" by (simp only: tk)
    also have "\<dots> = take ?i v @ rev (take n b)" unfolding r by simp
    finally show ?thesis .
  qed
qed


section \<open>Fields of the state after the primitive operations\<close>


lemma length_region [simp]: "length (region n old) = n"
  by (simp add: region_def)

lemma write_bytes_full: "length bytes = length reg \<Longrightarrow> write_bytes 0 bytes reg = bytes"
  by (simp add: write_bytes_def)

lemma unat_len8_le: "unat (of_nat (length k) :: 8 word) \<le> length k"
  by (simp add: unat_of_nat)

lemma length_take_len8 [simp]: "length (take (unat (of_nat (length k) :: 8 word)) k) = unat (of_nat (length k) :: 8 word)"
  using unat_len8_le[of k] by simp

lemma lookup_chain_cong:
  "(\<And>b. b \<in> set chain \<Longrightarrow> hp b = hp' b) \<Longrightarrow> lookup_chain hp k kl chain = lookup_chain hp' k kl chain"
  by (induction chain) (auto simp: key_match_def)

lemma remove_chain_cong:
  "(\<And>b. b \<in> set chain \<Longrightarrow> hp b = hp' b) \<Longrightarrow> remove_chain hp k kl chain = remove_chain hp' k kl chain"
  by (induction chain) (auto simp: key_match_def)

lemma lookup_chain_Some: "lookup_chain hp k kl chain = Some b \<Longrightarrow> b \<in> set chain \<and> key_match hp k kl b"
  by (induction chain) (auto split: if_splits)

lemma remove_chain_None: "lookup_chain hp k kl chain = None \<Longrightarrow> remove_chain hp k kl chain = chain"
  by (induction chain) (auto split: if_splits)

text \<open>Fields after the primitive operations.\<close>

lemma create_simps [simp]:
  "t_table (mc_entry_create a kl vl s) = t_table s"
  "t_mask (mc_entry_create a kl vl s) = t_mask s"
  "t_used (mc_entry_create a kl vl s) = t_used s"
  "t_size (mc_entry_create a kl vl s) = t_size s"
  "t_striding (mc_entry_create a kl vl s) = t_striding s"
  "t_nentries (mc_entry_create a kl vl s) = t_nentries s"
  "posted (mc_entry_create a kl vl s) = posted s"
  "cas_counter (mc_entry_create a kl vl s) = cas_counter s + 1"
  "live (mc_entry_create a kl vl s) = (live s)(a := True)"
  "b \<noteq> a \<Longrightarrow> heap (mc_entry_create a kl vl s) b = heap s b"
  "e_key_len (heap (mc_entry_create a kl vl s) a) = kl"
  "e_value_len (heap (mc_entry_create a kl vl s) a) = ucast vl"
  "e_ref_count (heap (mc_entry_create a kl vl s) a) = 1"
  "e_cas (heap (mc_entry_create a kl vl s) a) = cas_counter s + 1"
  "e_flags (heap (mc_entry_create a kl vl s) a) = e_flags (heap s a)"
  "e_key (heap (mc_entry_create a kl vl s) a) = region (unat kl) (e_key (heap s a))"
  "e_value (heap (mc_entry_create a kl vl s) a) = region (unat vl) (e_value (heap s a))"
  by (simp_all add: mc_entry_create_def)

lemma set_key_simps [simp]:
  "t_table (mc_entry_set_key a k s) = t_table s"
  "t_mask (mc_entry_set_key a k s) = t_mask s"
  "t_used (mc_entry_set_key a k s) = t_used s"
  "t_size (mc_entry_set_key a k s) = t_size s"
  "t_striding (mc_entry_set_key a k s) = t_striding s"
  "t_nentries (mc_entry_set_key a k s) = t_nentries s"
  "posted (mc_entry_set_key a k s) = posted s"
  "cas_counter (mc_entry_set_key a k s) = cas_counter s"
  "live (mc_entry_set_key a k s) = live s"
  "b \<noteq> a \<Longrightarrow> heap (mc_entry_set_key a k s) b = heap s b"
  "e_key_len (heap (mc_entry_set_key a k s) b) = e_key_len (heap s b)"
  "e_value_len (heap (mc_entry_set_key a k s) b) = e_value_len (heap s b)"
  "e_ref_count (heap (mc_entry_set_key a k s) b) = e_ref_count (heap s b)"
  "e_cas (heap (mc_entry_set_key a k s) b) = e_cas (heap s b)"
  "e_flags (heap (mc_entry_set_key a k s) b) = e_flags (heap s b)"
  "e_value (heap (mc_entry_set_key a k s) b) = e_value (heap s b)"
  "e_key (heap (mc_entry_set_key a k s) a) =
     write_bytes 0 (take (unat (e_key_len (heap s a))) k) (e_key (heap s a))"
  by (simp_all add: mc_entry_set_key_def)

lemma process_value_simps [simp]:
  "t_table (mc_process_value a val off s) = t_table s"
  "t_mask (mc_process_value a val off s) = t_mask s"
  "t_used (mc_process_value a val off s) = t_used s"
  "t_size (mc_process_value a val off s) = t_size s"
  "t_striding (mc_process_value a val off s) = t_striding s"
  "t_nentries (mc_process_value a val off s) = t_nentries s"
  "posted (mc_process_value a val off s) = posted s"
  "cas_counter (mc_process_value a val off s) = cas_counter s"
  "live (mc_process_value a val off s) = live s"
  "b \<noteq> a \<Longrightarrow> heap (mc_process_value a val off s) b = heap s b"
  "e_key_len (heap (mc_process_value a val off s) b) = e_key_len (heap s b)"
  "e_value_len (heap (mc_process_value a val off s) b) = e_value_len (heap s b)"
  "e_ref_count (heap (mc_process_value a val off s) b) = e_ref_count (heap s b)"
  "e_cas (heap (mc_process_value a val off s) b) = e_cas (heap s b)"
  "e_flags (heap (mc_process_value a val off s) b) = e_flags (heap s b)"
  "e_key (heap (mc_process_value a val off s) b) = e_key (heap s b)"
  "e_value (heap (mc_process_value a val off s) a) =
     write_bytes (unat off) (take (unat (v_bytes val)) (v_data val)) (e_value (heap s a))"
  by (simp_all add: mc_process_value_def)

lemma set_flags_simps [simp]:
  "t_table (set_flags a f s) = t_table s"
  "t_mask (set_flags a f s) = t_mask s"
  "t_used (set_flags a f s) = t_used s"
  "t_size (set_flags a f s) = t_size s"
  "t_striding (set_flags a f s) = t_striding s"
  "t_nentries (set_flags a f s) = t_nentries s"
  "posted (set_flags a f s) = posted s"
  "cas_counter (set_flags a f s) = cas_counter s"
  "live (set_flags a f s) = live s"
  "b \<noteq> a \<Longrightarrow> heap (set_flags a f s) b = heap s b"
  "e_key_len (heap (set_flags a f s) b) = e_key_len (heap s b)"
  "e_value_len (heap (set_flags a f s) b) = e_value_len (heap s b)"
  "e_ref_count (heap (set_flags a f s) b) = e_ref_count (heap s b)"
  "e_cas (heap (set_flags a f s) b) = e_cas (heap s b)"
  "e_key (heap (set_flags a f s) b) = e_key (heap s b)"
  "e_value (heap (set_flags a f s) b) = e_value (heap s b)"
  "e_flags (heap (set_flags a f s) a) = f"
  by (simp_all add: set_flags_def)

lemma unref_simps [simp]:
  "t_table (mc_entry_unref a s) = t_table s"
  "t_mask (mc_entry_unref a s) = t_mask s"
  "t_used (mc_entry_unref a s) = t_used s"
  "t_size (mc_entry_unref a s) = t_size s"
  "t_striding (mc_entry_unref a s) = t_striding s"
  "t_nentries (mc_entry_unref a s) = t_nentries s"
  "posted (mc_entry_unref a s) = posted s"
  "cas_counter (mc_entry_unref a s) = cas_counter s"
  "b \<noteq> a \<Longrightarrow> heap (mc_entry_unref a s) b = heap s b"
  "b \<noteq> a \<Longrightarrow> live (mc_entry_unref a s) b = live s b"
  "e_key_len (heap (mc_entry_unref a s) b) = e_key_len (heap s b)"
  "e_value_len (heap (mc_entry_unref a s) b) = e_value_len (heap s b)"
  "e_cas (heap (mc_entry_unref a s) b) = e_cas (heap s b)"
  "e_flags (heap (mc_entry_unref a s) b) = e_flags (heap s b)"
  "e_key (heap (mc_entry_unref a s) b) = e_key (heap s b)"
  "e_value (heap (mc_entry_unref a s) b) = e_value (heap s b)"
  "e_ref_count (heap (mc_entry_unref a s) a) = e_ref_count (heap s a) - 1"
  "live (mc_entry_unref a s) a = (live s a \<and> e_ref_count (heap s a) \<noteq> 1)"
  by (auto simp: mc_entry_unref_def mc_entry_destroy_def Let_def)

lemma insert_simps [simp]:
  "t_table (mc_table_insert i a s) = (t_table s)(i := a # t_table s i)"
  "t_mask (mc_table_insert i a s) = t_mask s"
  "t_used (mc_table_insert i a s) = t_used s"
  "t_size (mc_table_insert i a s) = t_size s"
  "t_nentries (mc_table_insert i a s) = t_nentries s + 1"
  "cas_counter (mc_table_insert i a s) = cas_counter s"
  "live (mc_table_insert i a s) = live s"
  "heap (mc_table_insert i a s) = heap s"
  by (simp_all add: mc_table_insert_def Let_def mc_table_start_striding_def)

lemma remove_simps [simp]:
  "fst (mc_table_remove i k kl s) = lookup_chain (heap s) k kl (t_table s i)"
  "t_table (snd (mc_table_remove i k kl s)) = (t_table s)(i := remove_chain (heap s) k kl (t_table s i))"
  "t_mask (snd (mc_table_remove i k kl s)) = t_mask s"
  "t_used (snd (mc_table_remove i k kl s)) = t_used s"
  "t_size (snd (mc_table_remove i k kl s)) = t_size s"
  "t_striding (snd (mc_table_remove i k kl s)) = t_striding s"
  "posted (snd (mc_table_remove i k kl s)) = posted s"
  "cas_counter (snd (mc_table_remove i k kl s)) = cas_counter s"
  "live (snd (mc_table_remove i k kl s)) = live s"
  "heap (snd (mc_table_remove i k kl s)) = heap s"
  by (auto simp: mc_table_remove_def remove_chain_None split: option.splits)

lemma ref_simps:
  "mc_entry_ref a s = Some s' \<Longrightarrow>
     t_table s' = t_table s \<and> t_mask s' = t_mask s \<and> t_used s' = t_used s \<and> t_size s' = t_size s \<and>
     t_striding s' = t_striding s \<and> t_nentries s' = t_nentries s \<and> posted s' = posted s \<and>
     cas_counter s' = cas_counter s \<and> live s' = live s \<and>
     heap s' = (heap s)(a := (heap s a)\<lparr>e_ref_count := e_ref_count (heap s a) + 1\<rparr>)"
  by (auto simp: mc_entry_ref_def Let_def split: if_splits)

lemma ref_Some:
  "e_ref_count (heap s a) + 1 \<noteq> 0 \<Longrightarrow>
     mc_entry_ref a s = Some (s\<lparr>heap := (heap s)(a := (heap s a)\<lparr>e_ref_count := e_ref_count (heap s a) + 1\<rparr>)\<rparr>)"
  by (simp add: mc_entry_ref_def Let_def)

lemma key_index_eq:
  "t_mask s' = t_mask s \<Longrightarrow> t_used s' = t_used s \<Longrightarrow> mc_table_key_index s' k kl = mc_table_key_index s k kl"
  by (simp add: mc_table_key_index_def mc_table_index_def)


section \<open>Numeric entries\<close>


lemma length_u64_digits: "length (u64_digits w) \<le> 20" and u64_digits_nonempty: "1 \<le> length (u64_digits w)"
proof -
  have "length (rev (u64_digits w)) = length (dec (unat w))" by (simp only: rev_u64_digits)
  then have l: "length (u64_digits w) = length (dec (unat w))" by simp
  have "unat w < 2 ^ 64" using unsigned_less[of w] by simp
  also have "(2::nat) ^ 64 < 10 ^ 20" by simp
  finally have "unat w < 10 ^ 20" .
  then have "length (dec (unat w)) \<le> 20" by (rule length_dec_bound) simp
  then show "length (u64_digits w) \<le> 20" using l by simp
  have "dec (unat w) \<noteq> []" by (rule dec_nonempty)
  then show "1 \<le> length (u64_digits w)" using l by (cases "dec (unat w)") auto
qed

lemma create_u64_simps [simp]:
  "t_table (mc_entry_create_u64 a kl w s) = t_table s"
  "t_mask (mc_entry_create_u64 a kl w s) = t_mask s"
  "t_used (mc_entry_create_u64 a kl w s) = t_used s"
  "t_size (mc_entry_create_u64 a kl w s) = t_size s"
  "t_striding (mc_entry_create_u64 a kl w s) = t_striding s"
  "t_nentries (mc_entry_create_u64 a kl w s) = t_nentries s"
  "posted (mc_entry_create_u64 a kl w s) = posted s"
  "cas_counter (mc_entry_create_u64 a kl w s) = cas_counter s + 1"
  "live (mc_entry_create_u64 a kl w s) = (live s)(a := True)"
  "b \<noteq> a \<Longrightarrow> heap (mc_entry_create_u64 a kl w s) b = heap s b"
  "e_key_len (heap (mc_entry_create_u64 a kl w s) a) = kl"
  "e_ref_count (heap (mc_entry_create_u64 a kl w s) a) = 1"
  "e_cas (heap (mc_entry_create_u64 a kl w s) a) = cas_counter s + 1"
  "e_flags (heap (mc_entry_create_u64 a kl w s) a) = e_flags (heap s a)"
  "e_key (heap (mc_entry_create_u64 a kl w s) a) = region (unat kl) (e_key (heap s a))"
  by (simp_all add: mc_entry_create_u64_def Let_def)

lemma create_u64_value:
  "mc_entry_value (heap (mc_entry_create_u64 a kl w s) a) = dec (unat w)"
  "unat (e_value_len (heap (mc_entry_create_u64 a kl w s) a)) = length (dec (unat w))"
proof -
  let ?b = "u64_digits w"
  let ?L = "length ?b"
  have L20: "?L \<le> 20" by (rule length_u64_digits)
  have L1: "1 \<le> ?L" by (rule u64_digits_nonempty)
  have u64: "unat (of_nat ?L :: 64 word) = ?L" using L20 by (simp add: unat_of_nat)
  have u32: "unat (ucast (of_nat ?L :: 64 word) :: 32 word) = ?L"
    using L20 by (simp add: unat_of_nat unsigned_ucast_eq take_bit_nat_eq_self)
  have fd: "fill_digits ?L ?b ?L (region ?L x) = rev ?b" for x
    using fill_digits_rev[OF L1 order_refl, of "region ?L x"] by simp
  have len: "e_value_len (heap (mc_entry_create_u64 a kl w s) a) = ucast (of_nat ?L :: 64 word)"
    by (simp add: mc_entry_create_u64_def Let_def)
  have val: "e_value (heap (mc_entry_create_u64 a kl w s) a) = rev ?b"
    by (simp add: mc_entry_create_u64_def Let_def u32 u64 fd)
  have lr: "length (rev ?b) = ?L" by simp
  show "mc_entry_value (heap (mc_entry_create_u64 a kl w s) a) = dec (unat w)"
    unfolding mc_entry_value_def len u32 val using rev_u64_digits[of w] lr by (metis order_refl take_all)
  show "unat (e_value_len (heap (mc_entry_create_u64 a kl w s) a)) = length (dec (unat w))"
    unfolding len u32 using rev_u64_digits[of w] lr by metis
qed

lemma value_u64_of_dec:
  assumes "mc_entry_value e = dec v" and "v < 2 ^ 64"
  shows "mc_entry_value_u64 e = Some (of_nat v)"
proof -
  have "take (unat (e_value_len e)) (e_value e) \<noteq> []"
    using assms(1) dec_nonempty[of v] by (simp add: mc_entry_value_def)
  then have "unat (e_value_len e) \<noteq> 0" by auto
  then have "e_value_len e \<noteq> 0" by auto
  then show ?thesis
    using assms value_u64_dec[OF assms(2)] by (simp add: mc_entry_value_u64_def mc_entry_value_def)
qed

lemma key_match_new:
  assumes "e_key_len (hp a) = of_nat (length k)"
    and "e_key (hp a) = write_bytes 0 (take (unat (of_nat (length k) :: 8 word)) k) (region (unat (of_nat (length k) :: 8 word)) x)"
  shows "key_match hp k (of_nat (length k)) a"
proof -
  let ?n = "unat (of_nat (length k) :: 8 word)"
  have "length (take ?n k) = length (region ?n x)" using unat_len8_le[of k] by simp
  then have "write_bytes 0 (take ?n k) (region ?n x) = take ?n k" by (rule write_bytes_full)
  then show ?thesis using assms by (simp add: key_match_def)
qed


section \<open>Storing the result of incr and decr\<close>


lemma key_match_cong:
  "e_key_len (hp' a) = e_key_len (hp a) \<Longrightarrow> e_key (hp' a) = e_key (hp a) \<Longrightarrow>
     key_match hp' k kl a = key_match hp k kl a"
  by (simp add: key_match_def)

lemma inc_store_result:
  fixes k :: string
  defines "kl \<equiv> (of_nat (length k) :: 8 word)"
  assumes key: "par_key (c_params command) = k"
    and found: "lookup_chain (heap s) k kl (t_table s index) = Some old"
    and fresh: "a \<notin> set (t_table s index)"
  shows "\<exists>command' s'. inc_store a command index old w s = Some (command', s') \<and>
           t_mask s' = t_mask s \<and> t_used s' = t_used s \<and>
           lookup_chain (heap s') k kl (t_table s' index) = Some a \<and>
           mc_entry_value (heap s' a) = dec (unat w) \<and>
           e_ref_count (heap s' a) = (if par_noreply (c_params command) then 1 else 2) \<and>
           c_result command' =
             (if par_noreply (c_params command) then MC_RESULT_BLANK else MC_RESULT_VALUE a)"
proof -
  have old_in: "old \<in> set (t_table s index)" using lookup_chain_Some[OF found] by simp
  then have neq: "old \<noteq> a" using fresh by auto
  define s1 where "s1 = mc_entry_create_u64 a kl w s"
  define s2 where "s2 = mc_entry_set_key a k s1"
  define s3 where "s3 = set_flags a (e_flags (heap s2 old)) s2"
  have h3: "heap s3 b = heap s b" if "b \<noteq> a" for b
    using that by (simp add: s3_def s2_def s1_def)
  have t3: "t_table s3 = t_table s" by (simp add: s3_def s2_def s1_def)
  have same: "heap s3 b = heap s b" if "b \<in> set (t_table s index)" for b
  proof -
    have "b \<noteq> a" using that fresh by auto
    then show ?thesis by (rule h3)
  qed
  have l3: "lookup_chain (heap s3) k kl (t_table s3 index) = Some old"
    unfolding t3 using lookup_chain_cong[OF same] found by simp
  define s4 where "s4 = snd (mc_table_remove index k kl s3)"
  have rem: "mc_table_remove index k kl s3 = (Some old, s4)"
    using l3 remove_simps(1)[of index k kl s3] unfolding s4_def by (metis prod.collapse)
  define s5 where "s5 = mc_entry_unref old s4"
  define s6 where "s6 = mc_table_insert index a s5"
  have kl6: "e_key_len (heap s6 a) = kl"
    using neq by (simp add: s6_def s5_def s4_def s3_def s2_def s1_def)
  have key6: "e_key (heap s6 a) = write_bytes 0 (take (unat kl) k) (region (unat kl) (e_key (heap s a)))"
    using neq by (simp add: s6_def s5_def s4_def s3_def s2_def s1_def)
  have rc6: "e_ref_count (heap s6 a) = 1"
    using neq by (simp add: s6_def s5_def s4_def s3_def s2_def s1_def)
  have "e_value (heap s6 a) = e_value (heap s1 a)" "e_value_len (heap s6 a) = e_value_len (heap s1 a)"
    using neq by (simp_all add: s6_def s5_def s4_def s3_def s2_def)
  then have val6: "mc_entry_value (heap s6 a) = dec (unat w)"
    using create_u64_value(1)[of a kl w s] by (simp add: mc_entry_value_def s1_def)
  have t6: "t_table s6 index = a # remove_chain (heap s3) k kl (t_table s index)"
    by (simp add: s6_def s5_def s4_def t3)
  have m6: "t_mask s6 = t_mask s" "t_used s6 = t_used s"
    by (simp_all add: s6_def s5_def s4_def s3_def s2_def s1_def)
  have km: "key_match (heap s6) k kl a"
    unfolding kl_def by (rule key_match_new) (use kl6 key6 in \<open>simp_all add: kl_def\<close>)
  have look6: "lookup_chain (heap s6) k kl (t_table s6 index) = Some a"
    unfolding t6 using km by simp
  have unfold: "inc_store a command index old w s =
      (if par_noreply (c_params command) then Some (mc_blank command, s6)
       else (case mc_entry_ref a s6 of None \<Rightarrow> None
             | Some s7 \<Rightarrow> Some (command\<lparr>c_result := MC_RESULT_VALUE a\<rparr>, s7)))"
    unfolding inc_store_def Let_def key kl_def[symmetric] s1_def[symmetric] s2_def[symmetric]
      s3_def[symmetric] rem
    by (simp add: s5_def s6_def)
  show ?thesis
  proof (cases "par_noreply (c_params command)")
    case True
    then show ?thesis using unfold m6 look6 val6 rc6 by (simp add: mc_blank_def)
  next
    case False
    define s7 where "s7 = s6\<lparr>heap := (heap s6)(a := (heap s6 a)\<lparr>e_ref_count := e_ref_count (heap s6 a) + 1\<rparr>)\<rparr>"
    have r: "mc_entry_ref a s6 = Some s7" unfolding s7_def by (rule ref_Some) (simp add: rc6)
    have "key_match (heap s7) k kl a = key_match (heap s6) k kl a"
      by (rule key_match_cong) (simp_all add: s7_def)
    then have km7: "key_match (heap s7) k kl a" using km by simp
    have look7: "lookup_chain (heap s7) k kl (t_table s7 index) = Some a"
      using km7 t6 by (simp add: s7_def)
    have val7: "mc_entry_value (heap s7 a) = dec (unat w)"
      using val6 by (simp add: mc_entry_value_def s7_def)
    have m7: "t_mask s7 = t_mask s" "t_used s7 = t_used s" using m6 by (simp_all add: s7_def)
    have rc7: "e_ref_count (heap s7 a) = 2" using rc6 by (simp add: s7_def)
    show ?thesis using False unfold r look7 val7 m7 rc7 by simp
  qed
qed


section \<open>The result of set\<close>



lemma remove_chain_subset: "set (remove_chain hp k kl chain) \<subseteq> set chain"
  by (induction chain) auto

lemma ucast_32_64_32 [simp]: "(ucast (ucast (w :: 32 word) :: 64 word) :: 32 word) = w"
  by (simp add: ucast_up_ucast_id is_up)

lemma unat_ucast_32_64 [simp]: "unat (ucast (w :: 32 word) :: 64 word) = unat w"
proof -
  have "unat w < 2 ^ 32" using unsigned_less[of w] by simp
  then have "unat w < 2 ^ 64" by simp
  then show ?thesis by (simp add: unsigned_ucast_eq take_bit_nat_eq_self)
qed

lemma set_result:
  fixes k :: string and s :: mc_global
  defines "kl \<equiv> (of_nat (length k) :: 8 word)"
  assumes key: "par_key (c_params command) = k"
  defines "index \<equiv> mc_table_key_index s k kl"
  shows "\<exists>command' s'. mc_process_set a command s = Some (command', s') \<and>
           t_mask s' = t_mask s \<and> t_used s' = t_used s \<and>
           t_table s' index = a # remove_chain (heap s) k kl (t_table s index) \<and>
           key_match (heap s') k kl a \<and>
           e_key_len (heap s' a) = kl \<and>
           e_key (heap s' a) = take (unat kl) k \<and>
           e_value_len (heap s' a) = v_bytes (par_value (c_params command)) \<and>
           e_value (heap s' a) =
             write_bytes 0 (take (unat (v_bytes (par_value (c_params command))))
                                  (v_data (par_value (c_params command))))
               (region (unat (v_bytes (par_value (c_params command))))
                  (e_value (heap (case lookup_chain (heap s) k kl (t_table s index) of
                                    None \<Rightarrow> s | Some old \<Rightarrow> mc_entry_unref old s) a))) \<and>
           e_flags (heap s' a) = par_flags (c_params command) \<and>
           e_ref_count (heap s' a) = 2 \<and>
           e_cas (heap s' a) = cas_counter s + 1 \<and>
           cas_counter s' = cas_counter s + 1 \<and>
           live s' a \<and>
           c_result command' =
             (if par_noreply (c_params command) then MC_RESULT_BLANK
              else MC_RESULT_REPLY (''STORED'' @ crlf))"
proof -
  let ?val = "par_value (c_params command)"
  define s1 where "s1 = snd (mc_table_remove index k kl s)"
  define old_entry where "old_entry = lookup_chain (heap s) k kl (t_table s index)"
  have rem: "mc_table_remove index k kl s = (old_entry, s1)"
    unfolding s1_def old_entry_def using remove_simps(1)[of index k kl s] by (metis prod.collapse)
  define s2 where "s2 = (case old_entry of None \<Rightarrow> s1 | Some old \<Rightarrow> mc_entry_unref old s1)"
  define s3 where "s3 = mc_entry_create a kl (ucast (v_bytes ?val)) s2"
  define s4 where "s4 = mc_entry_set_key a k s3"
  define s5 where "s5 = mc_process_value a ?val 0 s4"
  define s6 where "s6 = set_flags a (par_flags (c_params command)) s5"
  define s7 where "s7 = mc_table_insert index a s6"
  define s8 where "s8 = s7\<lparr>heap := (heap s7)(a := (heap s7 a)\<lparr>e_ref_count := e_ref_count (heap s7 a) + 1\<rparr>)\<rparr>"
  have t2: "t_table s2 = (t_table s)(index := remove_chain (heap s) k kl (t_table s index))"
    "t_mask s2 = t_mask s" "t_used s2 = t_used s" "cas_counter s2 = cas_counter s"
    by (simp_all add: s2_def s1_def split: option.splits)
  have g2: "e_value (heap s2 a) = e_value (heap (case old_entry of None \<Rightarrow> s | Some old \<Rightarrow> mc_entry_unref old s) a)"
    by (simp add: s2_def s1_def split: option.splits)
  have rc7: "e_ref_count (heap s7 a) = 1"
    by (simp add: s7_def s6_def s5_def s4_def s3_def)
  have r: "mc_entry_ref a s7 = Some s8" unfolding s8_def by (rule ref_Some) (simp add: rc7)
  have unfold: "mc_process_set a command s =
      Some (if par_noreply (c_params command) then mc_blank command
            else mc_reply command (''STORED'' @ crlf), s8)"
    unfolding mc_process_set_def Let_def key kl_def[symmetric] index_def[symmetric] rem
    by (simp add: s2_def[symmetric] s3_def[symmetric] s4_def[symmetric] s5_def[symmetric]
        s6_def[symmetric] s7_def[symmetric] r)
  have kl8: "e_key_len (heap s8 a) = kl"
    by (simp add: s8_def s7_def s6_def s5_def s4_def s3_def)
  have "e_key (heap s8 a) = write_bytes 0 (take (unat kl) k) (region (unat kl) (e_key (heap s2 a)))"
    by (simp add: s8_def s7_def s6_def s5_def s4_def s3_def)
  moreover have "length (take (unat kl) k) = length (region (unat kl) (e_key (heap s2 a)))"
    using unat_len8_le[of k] by (simp add: kl_def)
  ultimately have key8: "e_key (heap s8 a) = take (unat kl) k" by (simp add: write_bytes_full)
  have km: "key_match (heap s8) k kl a" using kl8 key8 by (simp add: key_match_def)
  have vl8: "e_value_len (heap s8 a) = v_bytes ?val"
    by (simp add: s8_def s7_def s6_def s5_def s4_def s3_def)
  have v8: "e_value (heap s8 a) = write_bytes 0 (take (unat (v_bytes ?val)) (v_data ?val))
               (region (unat (v_bytes ?val)) (e_value (heap s2 a)))"
    by (simp add: s8_def s7_def s6_def s5_def s4_def s3_def)
  have rest: "e_flags (heap s8 a) = par_flags (c_params command)" "e_ref_count (heap s8 a) = 2"
    "e_cas (heap s8 a) = cas_counter s + 1" "cas_counter s8 = cas_counter s + 1" "live s8 a"
    "t_mask s8 = t_mask s" "t_used s8 = t_used s"
    "t_table s8 index = a # remove_chain (heap s) k kl (t_table s index)"
    by (simp_all add: s8_def s7_def s6_def s5_def s4_def s3_def t2)
  show ?thesis
    unfolding unfold using rest km kl8 key8 vl8 v8 g2
    by (simp add: mc_blank_def mc_reply_def old_entry_def)
qed



section \<open>Decrementing a numeric entry\<close>


lemma value_u64_loop_nondigit:
  "\<exists>c \<in> set xs. \<not> isdigit c \<Longrightarrow> value_u64_loop v xs = None"
  by (induction xs arbitrary: v) (auto simp: Let_def)

lemma value_u64_not_decimal:
  assumes "e_value_len e = 0 \<or> (\<exists>c \<in> set (mc_entry_value e). \<not> isdigit c)"
  shows "mc_entry_value_u64 e = None"
proof (cases "e_value_len e = 0")
  case True
  then show ?thesis by (simp add: mc_entry_value_u64_def)
next
  case False
  with assms have "\<exists>c \<in> set (take (unat (e_value_len e)) (e_value e)). \<not> isdigit c"
    by (simp add: mc_entry_value_def)
  then show ?thesis by (simp add: mc_entry_value_u64_def value_u64_loop_nondigit)
qed

text \<open>
  Claim C10.  When the key is found and the value of its entry is the decimal
  representation of \<open>v < 2 ^ 64\<close>, \<open>decr\<close> by \<open>d\<close> returns, and afterwards a lookup of the key
  finds the new entry, whose value is the decimal representation of \<open>v - d\<close> when \<open>v > d\<close>
  and of 0 otherwise.  The address \<open>a\<close> of the new entry is one that \<open>mm_alloc\<close> can return:
  it is not an entry of the key's bucket.
\<close>

theorem decr_clamps_at_zero:
  assumes found: "mc_table_lookup s (mc_table_key_index s k (of_nat (length k))) k (of_nat (length k)) = Some old"
    and val: "mc_entry_value (heap s old) = dec v" and v: "v < 2 ^ 64"
    and fresh: "a \<notin> set (t_table s (mc_table_key_index s k (of_nat (length k))))"
    and key: "par_key (c_params command) = k" and delta: "par_inc (c_params command) = d"
  shows "\<exists>command' s'. mc_process_decr a command s = Some (command', s') \<and>
           mc_table_lookup s' (mc_table_key_index s' k (of_nat (length k))) k (of_nat (length k)) = Some a \<and>
           mc_entry_value (heap s' a) = dec (if v > unat d then v - unat d else 0) \<and>
           c_result command' =
             (if par_noreply (c_params command) then MC_RESULT_BLANK else MC_RESULT_VALUE a)"
proof -
  let ?kl = "of_nat (length k) :: 8 word"
  let ?index = "mc_table_key_index s k ?kl"
  let ?w = "if (of_nat v :: 64 word) > d then of_nat v - d else 0"
  have u: "mc_entry_value_u64 (heap s old) = Some (of_nat v)" by (rule value_u64_of_dec[OF val v])
  have uv: "unat (of_nat v :: 64 word) = v" using v by (simp add: unat_of_nat)
  have w: "unat ?w = (if v > unat d then v - unat d else 0)"
    by (simp add: word_less_nat_alt uv unat_sub word_le_nat_alt)
  have fnd: "lookup_chain (heap s) k ?kl (t_table s ?index) = Some old"
    using found by (simp add: mc_table_lookup_def)
  have unfold: "mc_process_decr a command s = inc_store a command ?index old ?w s"
    using found u by (simp add: mc_process_decr_def Let_def key delta)
  obtain command' s' where r: "inc_store a command ?index old ?w s = Some (command', s')"
    "t_mask s' = t_mask s" "t_used s' = t_used s"
    "lookup_chain (heap s') k ?kl (t_table s' ?index) = Some a"
    "mc_entry_value (heap s' a) = dec (unat ?w)"
    "e_ref_count (heap s' a) = (if par_noreply (c_params command) then 1 else 2)"
    "c_result command' = (if par_noreply (c_params command) then MC_RESULT_BLANK else MC_RESULT_VALUE a)"
    using inc_store_result[OF key fnd fresh, of ?w] by blast
  have idx: "mc_table_key_index s' k ?kl = ?index" using r(2,3) by (rule key_index_eq)
  show ?thesis
    unfolding unfold using r(1) r(4) r(5) r(7) unfolding w by (simp add: mc_table_lookup_def idx)
qed


theorem decr_clamps_at_zero_witness:
  "\<exists>command' s'. mc_process_decr 1 (key_command mc_desc_decr ''a'' 7) ex_state_5 = Some (command', s') \<and>
      mc_table_lookup s' (mc_table_key_index s' ''a'' 1) ''a'' 1 = Some 1 \<and>
      mc_entry_value (heap s' 1) = ''0'' \<and>
      c_result command' = MC_RESULT_VALUE 1"
proof -
  have h: "mc_hash ''a'' = 0xE40C292C"
    by (simp add: mc_hash_def FNV1_32_INIT_def FNV_32_PRIME_def)
  have i: "mc_table_key_index ex_state_5 ''a'' (of_nat (length ''a'')) = 0x92C"
    by (simp add: mc_table_key_index_def mc_table_index_def ex_state_5_def ex_state_a_def h)
  have 1: "mc_table_lookup ex_state_5 (mc_table_key_index ex_state_5 ''a'' (of_nat (length ''a'')))
             ''a'' (of_nat (length ''a'')) = Some 0"
    unfolding i
    by (simp add: mc_table_lookup_def ex_state_5_def ex_state_a_def ex_entry_5_def ex_entry_a_def
        key_match_def)
  have 2: "mc_entry_value (heap ex_state_5 0) = dec 5"
    by (simp add: mc_entry_value_def ex_state_5_def ex_entry_5_def ex_entry_a_def dec.simps
        char_of_def bit_iff_odd)
  have 3: "(5::nat) < 2 ^ 64" by simp
  have 4: "1 \<notin> set (t_table ex_state_5 (mc_table_key_index ex_state_5 ''a'' (of_nat (length ''a''))))"
    unfolding i by (simp add: ex_state_5_def ex_state_a_def)
  have 5: "par_key (c_params (key_command mc_desc_decr ''a'' 7)) = ''a''"
    "par_inc (c_params (key_command mc_desc_decr ''a'' 7)) = 7"
    by (simp_all add: key_command_def no_params_def)
  show ?thesis
    using decr_clamps_at_zero[OF 1 2 3 4 5]
    by (simp add: key_command_def no_params_def dec.simps char_of_def bit_iff_odd)
qed


section \<open>Replies of incr and decr\<close>


lemma encoding_value:
  assumes "c_result c = MC_RESULT_VALUE e" and "e_ref_count (heap s e) + 1 \<noteq> 0"
  shows "encoding s c = mc_entry_value (heap s e) @ ''END'' @ crlf"
  using assms
  by (simp add: encoding_def mc_transmit_buffer_def ref_Some buffer_append_def buffer_splice_def
      mc_create_def mc_entry_value_def)

lemma incr_fail:
  assumes "\<not> par_noreply (c_params command)"
  shows "mc_table_lookup s (mc_table_key_index s (par_key (c_params command)) (of_nat (length (par_key (c_params command)))))
           (par_key (c_params command)) (of_nat (length (par_key (c_params command)))) = None \<Longrightarrow>
         mc_process_incr a command s = Some (mc_reply command (''NOT_FOUND'' @ crlf), s) \<and>
         mc_process_decr a command s = Some (mc_reply command (''NOT_FOUND'' @ crlf), s)"
    and "mc_table_lookup s (mc_table_key_index s (par_key (c_params command)) (of_nat (length (par_key (c_params command)))))
           (par_key (c_params command)) (of_nat (length (par_key (c_params command)))) = Some old \<Longrightarrow>
         e_value_len (heap s old) = 0 \<or> (\<exists>c \<in> set (mc_entry_value (heap s old)). \<not> isdigit c) \<Longrightarrow>
         mc_process_incr a command s = Some (mc_reply command non_numeric, s) \<and>
         mc_process_decr a command s = Some (mc_reply command non_numeric, s)"
  using assms
  by (simp_all add: mc_process_incr_def mc_process_decr_def Let_def inc_fail_def value_u64_not_decimal)

lemma incr_result:
  assumes found: "mc_table_lookup s (mc_table_key_index s k (of_nat (length k))) k (of_nat (length k)) = Some old"
    and val: "mc_entry_value (heap s old) = dec v" and v: "v < 2 ^ 64"
    and fresh: "a \<notin> set (t_table s (mc_table_key_index s k (of_nat (length k))))"
    and key: "par_key (c_params command) = k" and delta: "par_inc (c_params command) = d"
  shows "\<exists>command' s'. mc_process_incr a command s = Some (command', s') \<and>
           mc_table_lookup s' (mc_table_key_index s' k (of_nat (length k))) k (of_nat (length k)) = Some a \<and>
           mc_entry_value (heap s' a) = dec (unat (of_nat v + d)) \<and>
           e_ref_count (heap s' a) = (if par_noreply (c_params command) then 1 else 2) \<and>
           c_result command' =
             (if par_noreply (c_params command) then MC_RESULT_BLANK else MC_RESULT_VALUE a)"
proof -
  let ?kl = "of_nat (length k) :: 8 word"
  let ?index = "mc_table_key_index s k ?kl"
  let ?w = "of_nat v + d :: 64 word"
  have u: "mc_entry_value_u64 (heap s old) = Some (of_nat v)" by (rule value_u64_of_dec[OF val v])
  have fnd: "lookup_chain (heap s) k ?kl (t_table s ?index) = Some old"
    using found by (simp add: mc_table_lookup_def)
  have unfold: "mc_process_incr a command s = inc_store a command ?index old ?w s"
    using found u by (simp add: mc_process_incr_def Let_def key delta)
  obtain command' s' where r: "inc_store a command ?index old ?w s = Some (command', s')"
    "t_mask s' = t_mask s" "t_used s' = t_used s"
    "lookup_chain (heap s') k ?kl (t_table s' ?index) = Some a"
    "mc_entry_value (heap s' a) = dec (unat ?w)"
    "e_ref_count (heap s' a) = (if par_noreply (c_params command) then 1 else 2)"
    "c_result command' = (if par_noreply (c_params command) then MC_RESULT_BLANK else MC_RESULT_VALUE a)"
    using inc_store_result[OF key fnd fresh, of ?w] by blast
  have idx: "mc_table_key_index s' k ?kl = ?index" using r(2,3) by (rule key_index_eq)
  show ?thesis
    unfolding unfold using r(1) r(4) r(5) r(6) r(7) by (simp add: mc_table_lookup_def idx)
qed

lemma set_then_lookup:
  assumes key: "par_key (c_params command) = k"
    and len: "unat (v_bytes (par_value (c_params command))) \<le> length (v_data (par_value (c_params command)))"
  shows "\<exists>command' s'. mc_process_set a command s = Some (command', s') \<and>
           mc_table_lookup s' (mc_table_key_index s' k (of_nat (length k))) k (of_nat (length k)) = Some a \<and>
           set (t_table s' (mc_table_key_index s' k (of_nat (length k))))
             \<subseteq> insert a (set (t_table s (mc_table_key_index s k (of_nat (length k))))) \<and>
           mc_entry_value (heap s' a) =
             take (unat (v_bytes (par_value (c_params command)))) (v_data (par_value (c_params command))) \<and>
           e_key_len (heap s' a) = of_nat (length k) \<and>
           e_key (heap s' a) = take (unat (of_nat (length k) :: 8 word)) k \<and>
           e_value_len (heap s' a) = v_bytes (par_value (c_params command)) \<and>
           e_flags (heap s' a) = par_flags (c_params command) \<and>
           e_ref_count (heap s' a) = 2 \<and>
           e_cas (heap s' a) = cas_counter s + 1 \<and>
           c_result command' =
             (if par_noreply (c_params command) then MC_RESULT_BLANK
              else MC_RESULT_REPLY (''STORED'' @ crlf))"
proof -
  let ?kl = "of_nat (length k) :: 8 word"
  let ?index = "mc_table_key_index s k ?kl"
  let ?val = "par_value (c_params command)"
  obtain command' s' where r: "mc_process_set a command s = Some (command', s')"
    "t_mask s' = t_mask s" "t_used s' = t_used s"
    "t_table s' ?index = a # remove_chain (heap s) k ?kl (t_table s ?index)"
    "key_match (heap s') k ?kl a"
    "e_key_len (heap s' a) = ?kl"
    "e_key (heap s' a) = take (unat ?kl) k"
    "e_value_len (heap s' a) = v_bytes ?val"
    "\<exists>g. e_value (heap s' a) = write_bytes 0 (take (unat (v_bytes ?val)) (v_data ?val))
               (region (unat (v_bytes ?val)) g)"
    "e_flags (heap s' a) = par_flags (c_params command)"
    "e_ref_count (heap s' a) = 2"
    "e_cas (heap s' a) = cas_counter s + 1"
    "c_result command' = (if par_noreply (c_params command) then MC_RESULT_BLANK
              else MC_RESULT_REPLY (''STORED'' @ crlf))"
    using set_result[OF key, of a s] by blast
  have idx: "mc_table_key_index s' k ?kl = ?index" using r(2,3) by (rule key_index_eq)
  have look: "mc_table_lookup s' ?index k ?kl = Some a"
    using r(4) r(5) by (simp add: mc_table_lookup_def)
  have sub: "set (t_table s' ?index) \<subseteq> insert a (set (t_table s ?index))"
    using r(4) remove_chain_subset[of "heap s" k ?kl "t_table s ?index"] by auto
  obtain g where g: "e_value (heap s' a) = write_bytes 0 (take (unat (v_bytes ?val)) (v_data ?val))
               (region (unat (v_bytes ?val)) g)" using r(9) by blast
  have "length (take (unat (v_bytes ?val)) (v_data ?val)) = length (region (unat (v_bytes ?val)) g)"
    using len by simp
  then have "e_value (heap s' a) = take (unat (v_bytes ?val)) (v_data ?val)"
    unfolding g by (rule write_bytes_full)
  then have val: "mc_entry_value (heap s' a) = take (unat (v_bytes ?val)) (v_data ?val)"
    by (simp add: mc_entry_value_def r(8))
  show ?thesis
    by (rule exI[of _ command'], rule exI[of _ s'])
      (simp add: idx r(1) look sub val r(6) r(7) r(8) r(10) r(11) r(12) r(13))
qed


text \<open>
  The results of \<open>incr\<close> and \<open>decr\<close>.  For a command without \<open>noreply\<close>: after \<open>set k 0 0 1\<close> with the
  payload \<open>0\<close>, \<open>incr k 1\<close> returns a \<open>VALUE\<close> result whose entry holds the value \<open>1\<close>, which the
  writer encodes as the byte \<open>1\<close> followed by \<open>END\<close> and a line end; applied to an existing
  entry whose value is empty or has a byte that is no digit, both commands reply
  \<open>CLIENT_ERROR cannot increment or decrement non-numeric value\<close> and leave the state as it
  is; applied to an absent key they reply \<open>NOT_FOUND\<close>.
\<close>

theorem incr_replies:
  assumes nr: "\<not> par_noreply (c_params command)" and key: "par_key (c_params command) = k"
  shows "(par_inc (c_params command) = 1 \<and> par_key (c_params set_command) = k \<and>
          par_value (c_params set_command) = \<lparr>v_data = ''0'', v_bytes = 1\<rparr> \<and>
          a2 \<noteq> a1 \<and> a2 \<notin> set (t_table s (mc_table_key_index s k (of_nat (length k)))) \<longrightarrow>
          (\<exists>c1 s1 c2 s2. mc_process_set a1 set_command s = Some (c1, s1) \<and>
             mc_process_incr a2 command s1 = Some (c2, s2) \<and>
             c_result c2 = MC_RESULT_VALUE a2 \<and>
             mc_entry_value (heap s2 a2) = ''1'' \<and>
             encoding s2 c2 = ''1END'' @ crlf)) \<and>
         (\<forall>old. mc_table_lookup s (mc_table_key_index s k (of_nat (length k))) k (of_nat (length k)) = Some old \<and>
            (e_value_len (heap s old) = 0 \<or> (\<exists>c \<in> set (mc_entry_value (heap s old)). \<not> isdigit c)) \<longrightarrow>
            mc_process_incr a2 command s = Some (mc_reply command non_numeric, s) \<and>
            mc_process_decr a2 command s = Some (mc_reply command non_numeric, s)) \<and>
         (mc_table_lookup s (mc_table_key_index s k (of_nat (length k))) k (of_nat (length k)) = None \<longrightarrow>
            mc_process_incr a2 command s = Some (mc_reply command (''NOT_FOUND'' @ crlf), s) \<and>
            mc_process_decr a2 command s = Some (mc_reply command (''NOT_FOUND'' @ crlf), s))"
proof (intro conjI impI allI)
  let ?kl = "of_nat (length k) :: 8 word"
  assume h: "par_inc (c_params command) = 1 \<and> par_key (c_params set_command) = k \<and>
          par_value (c_params set_command) = \<lparr>v_data = ''0'', v_bytes = 1\<rparr> \<and>
          a2 \<noteq> a1 \<and> a2 \<notin> set (t_table s (mc_table_key_index s k ?kl))"
  then have d: "par_inc (c_params command) = 1" and k1: "par_key (c_params set_command) = k"
    and v1: "par_value (c_params set_command) = \<lparr>v_data = ''0'', v_bytes = 1\<rparr>"
    and ne: "a2 \<noteq> a1" and fr: "a2 \<notin> set (t_table s (mc_table_key_index s k ?kl))"
    by blast+
  have len: "unat (v_bytes (par_value (c_params set_command))) \<le> length (v_data (par_value (c_params set_command)))"
    by (simp add: v1)
  obtain c1 s1 where r1: "mc_process_set a1 set_command s = Some (c1, s1)"
    "mc_table_lookup s1 (mc_table_key_index s1 k ?kl) k ?kl = Some a1"
    "set (t_table s1 (mc_table_key_index s1 k ?kl)) \<subseteq> insert a1 (set (t_table s (mc_table_key_index s k ?kl)))"
    "mc_entry_value (heap s1 a1) =
       take (unat (v_bytes (par_value (c_params set_command)))) (v_data (par_value (c_params set_command)))"
    using set_then_lookup[OF k1 len, of a1 s] by blast
  have val: "mc_entry_value (heap s1 a1) = dec 0"
    using r1(4) by (simp add: v1 dec.simps char_of_def bit_iff_odd)
  have fresh: "a2 \<notin> set (t_table s1 (mc_table_key_index s1 k ?kl))" using r1(3) ne fr by auto
  obtain c2 s2 where r2: "mc_process_incr a2 command s1 = Some (c2, s2)"
    "mc_entry_value (heap s2 a2) = dec (unat (of_nat 0 + 1 :: 64 word))"
    "e_ref_count (heap s2 a2) = (if par_noreply (c_params command) then 1 else 2)"
    "c_result c2 = (if par_noreply (c_params command) then MC_RESULT_BLANK else MC_RESULT_VALUE a2)"
    using incr_result[OF r1(2) val _ fresh key d] by auto
  have v2: "mc_entry_value (heap s2 a2) = ''1''"
    using r2(2) by (simp add: dec.simps char_of_def bit_iff_odd)
  have res: "c_result c2 = MC_RESULT_VALUE a2" using r2(4) nr by simp
  have "e_ref_count (heap s2 a2) + 1 \<noteq> 0" using r2(3) nr by simp
  from encoding_value[OF res this] have "encoding s2 c2 = ''1END'' @ crlf" by (simp add: v2)
  then show "\<exists>c1 s1 c2 s2. mc_process_set a1 set_command s = Some (c1, s1) \<and>
             mc_process_incr a2 command s1 = Some (c2, s2) \<and>
             c_result c2 = MC_RESULT_VALUE a2 \<and>
             mc_entry_value (heap s2 a2) = ''1'' \<and>
             encoding s2 c2 = ''1END'' @ crlf"
    using r1(1) r2(1) res v2 by blast
next
  fix old
  assume "mc_table_lookup s (mc_table_key_index s k (of_nat (length k))) k (of_nat (length k)) = Some old \<and>
            (e_value_len (heap s old) = 0 \<or> (\<exists>c \<in> set (mc_entry_value (heap s old)). \<not> isdigit c))"
  then show "mc_process_incr a2 command s = Some (mc_reply command non_numeric, s)"
    "mc_process_decr a2 command s = Some (mc_reply command non_numeric, s)"
    using incr_fail(2)[OF nr, of s old a2] key by auto
next
  assume "mc_table_lookup s (mc_table_key_index s k (of_nat (length k))) k (of_nat (length k)) = None"
  then show "mc_process_incr a2 command s = Some (mc_reply command (''NOT_FOUND'' @ crlf), s)"
    "mc_process_decr a2 command s = Some (mc_reply command (''NOT_FOUND'' @ crlf), s)"
    using incr_fail(1)[OF nr, of s a2] key by auto
qed

theorem incr_replies_witness:
  "(\<exists>c1 s1 c2 s2. mc_process_set 1 (storage_command mc_desc_set ''k'' 0 ''0'') ex_empty = Some (c1, s1) \<and>
      mc_process_incr 2 (key_command mc_desc_incr ''k'' 1) s1 = Some (c2, s2) \<and>
      c_result c2 = MC_RESULT_VALUE 2 \<and> mc_entry_value (heap s2 2) = ''1'' \<and>
      encoding s2 c2 = ''1END'' @ crlf) \<and>
   mc_process_incr 2 (key_command mc_desc_incr ''a'' 1) ex_state_a =
     Some (mc_reply (key_command mc_desc_incr ''a'' 1) non_numeric, ex_state_a) \<and>
   mc_process_incr 2 (key_command mc_desc_incr ''k'' 1) ex_empty =
     Some (mc_reply (key_command mc_desc_incr ''k'' 1) (''NOT_FOUND'' @ crlf), ex_empty)"
proof -
  have nr: "\<not> par_noreply (c_params (key_command mc_desc_incr k 1))" for k
    by (simp add: key_command_def no_params_def)
  have key: "par_key (c_params (key_command mc_desc_incr k 1)) = k" for k
    by (simp add: key_command_def no_params_def)
  have h: "mc_hash ''a'' = 0xE40C292C"
    by (simp add: mc_hash_def FNV1_32_INIT_def FNV_32_PRIME_def)
  have i: "mc_table_key_index ex_state_a ''a'' (of_nat (length ''a'')) = 0x92C"
    by (simp add: mc_table_key_index_def mc_table_index_def ex_state_a_def h)
  have look: "mc_table_lookup ex_state_a (mc_table_key_index ex_state_a ''a'' (of_nat (length ''a'')))
             ''a'' (of_nat (length ''a'')) = Some 0"
    unfolding i by (simp add: mc_table_lookup_def ex_state_a_def ex_entry_a_def key_match_def)
  have bad: "\<exists>c \<in> set (mc_entry_value (heap ex_state_a 0)). \<not> isdigit c"
    by (simp add: mc_entry_value_def ex_state_a_def ex_entry_a_def isdigit_def)
  have none: "mc_table_lookup ex_empty (mc_table_key_index ex_empty ''k'' (of_nat (length ''k'')))
             ''k'' (of_nat (length ''k'')) = None"
    by (simp add: mc_table_lookup_def ex_empty_def)
  have A: "\<exists>c1 s1 c2 s2. mc_process_set 1 (storage_command mc_desc_set ''k'' 0 ''0'') ex_empty = Some (c1, s1) \<and>
      mc_process_incr 2 (key_command mc_desc_incr ''k'' 1) s1 = Some (c2, s2) \<and>
      c_result c2 = MC_RESULT_VALUE 2 \<and> mc_entry_value (heap s2 2) = ''1'' \<and>
      encoding s2 c2 = ''1END'' @ crlf"
    using incr_replies[OF nr key, of "''k''" "storage_command mc_desc_set ''k'' 0 ''0''" 2 1 ex_empty]
    by (simp add: key_command_def storage_command_def no_params_def ex_empty_def)
  have B: "mc_process_incr 2 (key_command mc_desc_incr ''a'' 1) ex_state_a =
     Some (mc_reply (key_command mc_desc_incr ''a'' 1) non_numeric, ex_state_a)"
    using incr_replies[OF nr key, of "''a''" mc_command_create 2 1 ex_state_a] look bad by blast
  have C: "mc_process_incr 2 (key_command mc_desc_incr ''k'' 1) ex_empty =
     Some (mc_reply (key_command mc_desc_incr ''k'' 1) (''NOT_FOUND'' @ crlf), ex_empty)"
    using incr_replies[OF nr key, of "''k''" mc_command_create 2 1 ex_empty] none by blast
  show ?thesis using A B C by blast
qed


section \<open>Round trip of set and get\<close>


lemma ref_content:
  assumes "mc_entry_ref a s = Some s'"
  shows "e_key_len (heap s' b) = e_key_len (heap s b)" "e_key (heap s' b) = e_key (heap s b)"
    "e_value_len (heap s' b) = e_value_len (heap s b)" "e_value (heap s' b) = e_value (heap s b)"
    "e_flags (heap s' b) = e_flags (heap s b)" "e_cas (heap s' b) = e_cas (heap s b)"
    "e_ref_count (heap s' a) = e_ref_count (heap s a) + 1"
    "t_table s' = t_table s" "t_mask s' = t_mask s" "t_used s' = t_used s"
  using ref_simps[OF assms] by auto

lemma get_single:
  assumes look: "mc_table_lookup s (mc_table_key_index s k (of_nat (length k))) k (of_nat (length k)) = Some a"
    and rc: "e_ref_count (heap s a) + 1 \<noteq> 0"
    and keys: "par_keys (c_params command) = [k]"
  shows "\<exists>s'. mc_process_get command s = Some (command\<lparr>c_result := MC_RESULT_ENTRY [a]\<rparr>, s') \<and>
              mc_entry_ref a s = Some s'"
  using look keys ref_Some[OF rc] by (simp add: mc_process_get_def Let_def)

lemma transmit_single_entry:
  assumes res: "c_result command = MC_RESULT_ENTRY [a]"
    and rc: "e_ref_count (heap s a) + 1 \<noteq> 0"
  shows "\<exists>s'. mc_transmit_buffer state command s =
            Some (state\<lparr>st_tbuf := st_tbuf state @
                     [Data (value_line False (heap s a)), Splice a (e_value_len (heap s a)),
                      Data crlf, Data (''END'' @ crlf)]\<rparr>, s') \<and>
              mc_entry_ref a s = Some s'"
  using res ref_Some[OF rc]
  by (simp add: mc_transmit_buffer_def Let_def buffer_append_def buffer_splice_def)

lemma printf_s_plain:
  assumes "\<forall>c \<in> set k. c \<noteq> CHR 0x00"
  shows "printf_s (length k) k = k"
  using assms by (simp add: printf_s_def takeWhile_eq_all_conv)

lemma unat_len8: "length k < 256 \<Longrightarrow> unat (of_nat (length k) :: 8 word) = length k"
  by (simp add: unat_of_nat)

lemma unat_len32: "length v < 2 ^ 32 \<Longrightarrow> unat (of_nat (length v) :: 32 word) = length v"
  by (simp add: unat_of_nat)


text \<open>
  Claim C1.  On a connection with nothing queued, for a key of at most 250 bytes without
  whitespace and control characters and a payload \<open>v\<close> whose length fits the 32-bit byte
  count of the command: processing \<open>set k f 0 n\<close> with the payload \<open>v\<close> and then \<open>get k\<close>, and
  running the writer, puts on the connection \<open>STORED\<close>, the line \<open>VALUE k f n\<close>, the bytes of
  \<open>v\<close>, a line end and \<open>END\<close>, each line ended by CR LF.  The claim is the case \<open>f = 0\<close>.
\<close>

theorem set_get_round_trip:
  assumes klen: "length k \<le> 250"
    and kchars: "\<forall>c \<in> set k. 32 < (of_char c :: nat) \<and> (of_char c :: nat) \<noteq> 127"
    and vlen: "length v < 2 ^ 32"
    and conn: "st_queue state = []" "st_tbuf state = []" "\<not> st_quit state" "\<not> st_closed state"
  shows "\<exists>state1 s1 state2 s2 state3 s3.
           mc_process_command a1 state (storage_command mc_desc_set k f v) s = Some (state1, s1) \<and>
           mc_process_command a2 state1 (key_command mc_desc_get k 0) s1 = Some (state2, s2) \<and>
           mc_writer_routine state2 s2 = Some (state3, s3) \<and>
           st_output state3 = st_output state @
             ''STORED'' @ crlf @
             ''VALUE '' @ k @ '' '' @ dec (unat f) @ '' '' @ dec (length v) @ crlf @
             v @ crlf @
             ''END'' @ crlf \<and>
           st_queue state3 = []"
proof -
  let ?kl = "of_nat (length k) :: 8 word"
  let ?set = "storage_command mc_desc_set k f v"
  let ?get = "key_command mc_desc_get k 0"
  have k8: "unat ?kl = length k" using klen by (simp add: unat_len8)
  have v32: "unat (of_nat (length v) :: 32 word) = length v" using vlen by (rule unat_len32)
  have nonul: "\<forall>c \<in> set k. c \<noteq> CHR 0x00" using kchars by auto
  have key: "par_key (c_params ?set) = k" by (simp add: storage_command_def no_params_def)
  have len: "unat (v_bytes (par_value (c_params ?set))) \<le> length (v_data (par_value (c_params ?set)))"
    by (simp add: storage_command_def no_params_def v32)
  obtain c1 s1 where r1: "mc_process_set a1 ?set s = Some (c1, s1)"
    "mc_table_lookup s1 (mc_table_key_index s1 k ?kl) k ?kl = Some a1"
    "mc_entry_value (heap s1 a1) =
       take (unat (v_bytes (par_value (c_params ?set)))) (v_data (par_value (c_params ?set)))"
    "e_key_len (heap s1 a1) = ?kl"
    "e_key (heap s1 a1) = take (unat ?kl) k"
    "e_value_len (heap s1 a1) = v_bytes (par_value (c_params ?set))"
    "e_flags (heap s1 a1) = par_flags (c_params ?set)"
    "e_ref_count (heap s1 a1) = 2"
    "c_result c1 = (if par_noreply (c_params ?set) then MC_RESULT_BLANK
                    else MC_RESULT_REPLY (''STORED'' @ crlf))"
    using set_then_lookup[OF key len, of a1 s] by blast
  have res1: "c_result c1 = MC_RESULT_REPLY (''STORED'' @ crlf)"
    using r1(9) by (simp add: storage_command_def no_params_def)
  define state1 where "state1 = (mc_queue_command state c1)\<lparr>st_writers := st_writers state + 1\<rparr>"
  have p1: "mc_process_command a1 state ?set s = Some (state1, s1)"
    using r1(1) by (simp add: mc_process_command_def storage_command_def state1_def)
  have keys: "par_keys (c_params ?get) = [k]" by (simp add: key_command_def no_params_def)
  have rc1: "e_ref_count (heap s1 a1) + 1 \<noteq> 0" by (simp add: r1(8))
  obtain s2 where r2: "mc_process_get ?get s1 = Some (?get\<lparr>c_result := MC_RESULT_ENTRY [a1]\<rparr>, s2)"
    "mc_entry_ref a1 s1 = Some s2"
    using get_single[OF r1(2) rc1 keys] by blast
  define c2 where "c2 = ?get\<lparr>c_result := MC_RESULT_ENTRY [a1]\<rparr>"
  define state2 where "state2 = (mc_queue_command state1 c2)\<lparr>st_writers := st_writers state1 + 1\<rparr>"
  have p2: "mc_process_command a2 state1 ?get s1 = Some (state2, s2)"
    using r2(1) by (simp add: mc_process_command_def key_command_def state2_def c2_def)
  note h2 = ref_content[OF r2(2)]
  have q2: "st_queue state2 = [c1, c2]" "st_tbuf state2 = []" "\<not> st_quit state2" "\<not> st_closed state2"
    "st_output state2 = st_output state"
    using conn by (simp_all add: state2_def state1_def mc_queue_command_def)
  have res2: "c_result c2 = MC_RESULT_ENTRY [a1]" by (simp add: c2_def)
  have rc2: "e_ref_count (heap s2 a1) + 1 \<noteq> 0" using h2(7) r1(8) by simp
  define tb where "tb = [Data (''STORED'' @ crlf), Data (value_line False (heap s2 a1)),
      Splice a1 (e_value_len (heap s2 a1)), Data crlf, Data (''END'' @ crlf)]"
  have t1: "mc_transmit_buffer state2 c1 s2 = Some (state2\<lparr>st_tbuf := [Data (''STORED'' @ crlf)]\<rparr>, s2)"
    using res1 q2 by (simp add: mc_transmit_buffer_def buffer_append_def)
  obtain s3 where t2: "mc_transmit_buffer (state2\<lparr>st_tbuf := [Data (''STORED'' @ crlf)]\<rparr>) c2 s2 =
      Some (state2\<lparr>st_tbuf := tb\<rparr>, s3)" "mc_entry_ref a1 s2 = Some s3"
    using transmit_single_entry[OF res2 rc2, of "state2\<lparr>st_tbuf := [Data (''STORED'' @ crlf)]\<rparr>"]
    by (auto simp: tb_def)
  note h3 = ref_content[OF t2(2)]
  have wl: "writer_loop c1 [c2] 0 state2 s2 = Some (2, 2, state2\<lparr>st_tbuf := tb\<rparr>, s3)"
    using q2 t1 t2(1) res2 by simp
  have line: "value_line False (heap s2 a1) =
      ''VALUE '' @ k @ '' '' @ dec (unat f) @ '' '' @ dec (length v) @ crlf"
    unfolding value_line_def h2 r1(4) r1(5) r1(6) r1(7) k8
    by (simp add: printf_s_plain[OF nonul] storage_command_def no_params_def v32)
  have valeq: "take (unat (e_value_len (heap s2 a1))) (e_value (heap s3 a1)) = v"
  proof -
    have "take (unat (e_value_len (heap s2 a1))) (e_value (heap s3 a1)) = mc_entry_value (heap s1 a1)"
      unfolding h3 h2 by (simp add: mc_entry_value_def)
    then show ?thesis unfolding r1(3) by (simp add: storage_command_def no_params_def v32)
  qed
  have w: "wire (heap s3) tb =
      ''STORED'' @ crlf @ ''VALUE '' @ k @ '' '' @ dec (unat f) @ '' '' @ dec (length v) @ crlf @
      v @ crlf @ ''END'' @ crlf"
    by (simp add: tb_def line valeq)
  define state3 where "state3 = fst (mc_transmit (state2\<lparr>st_tbuf := tb\<rparr>) s3)\<lparr>st_queue := []\<rparr>"
  have out: "st_output state3 = st_output state @ wire (heap s3) tb" "st_queue state3 = []"
    using q2 by (simp_all add: state3_def mc_transmit_def)
  have "\<exists>s4. mc_writer_routine state2 s2 = Some (state3, s4)"
    using q2 res1 wl by (simp add: mc_writer_routine_def Let_def state3_def split: prod.splits)
  then obtain s4 where wr: "mc_writer_routine state2 s2 = Some (state3, s4)" by blast
  show ?thesis using p1 p2 wr out w by (metis append.assoc)
qed


theorem set_get_round_trip_witness:
  "\<exists>state1 s1 state2 s2 state3 s3.
     mc_process_command 1 mc_create (storage_command mc_desc_set ''foo'' 7 ''bar'') ex_empty = Some (state1, s1) \<and>
     mc_process_command 2 state1 (key_command mc_desc_get ''foo'' 0) s1 = Some (state2, s2) \<and>
     mc_writer_routine state2 s2 = Some (state3, s3) \<and>
     st_output state3 = ''STORED'' @ crlf @ ''VALUE foo 7 3'' @ crlf @ ''bar'' @ crlf @ ''END'' @ crlf \<and>
     st_queue state3 = []"
proof -
  have 1: "length ''foo'' \<le> 250" by simp
  have 2: "\<forall>c \<in> set ''foo''. 32 < (of_char c :: nat) \<and> (of_char c :: nat) \<noteq> 127" by simp
  have 3: "length ''bar'' < 2 ^ 32" by simp
  have 4: "st_queue mc_create = []" "st_tbuf mc_create = []" "\<not> st_quit mc_create"
    "\<not> st_closed mc_create"
    by (simp_all add: mc_create_def)
  show ?thesis
    using set_get_round_trip[OF 1 2 3 4, of 1 7 ex_empty 2]
    by (simp add: mc_create_def dec.simps char_of_def bit_iff_odd)
qed


section \<open>Compare and swap\<close>


lemma cas_store:
  fixes k :: string and s :: mc_global
  defines "kl \<equiv> (of_nat (length k) :: 8 word)"
  defines "index \<equiv> mc_table_key_index s k kl"
  assumes key: "par_key (c_params command) = k"
    and found: "mc_table_lookup s index k kl = Some old"
    and stamp: "e_cas (heap s old) = par_cas (c_params command)"
    and len: "unat (v_bytes (par_value (c_params command))) \<le> length (v_data (par_value (c_params command)))"
    and fresh: "a \<notin> stored s"
  shows "\<exists>command' s'. mc_process_cas a command s = Some (command', s') \<and>
           c_result command' = (if par_noreply (c_params command) then MC_RESULT_BLANK
                                else MC_RESULT_REPLY (''STORED'' @ crlf)) \<and>
           t_mask s' = t_mask s \<and> t_used s' = t_used s \<and>
           t_table s' = (t_table s)(index := a # remove_chain (heap s) k kl (t_table s index)) \<and>
           key_match (heap s') k kl a \<and>
           mc_entry_value (heap s' a) =
             take (unat (v_bytes (par_value (c_params command)))) (v_data (par_value (c_params command))) \<and>
           e_flags (heap s' a) = par_flags (c_params command) \<and>
           e_cas (heap s' a) = cas_counter s + 1 \<and>
           cas_counter s' = cas_counter s + 1 \<and>
           (\<forall>b. b \<noteq> a \<longrightarrow> e_cas (heap s' b) = e_cas (heap s b))"
proof -
  let ?val = "par_value (c_params command)"
  have fnd: "lookup_chain (heap s) k kl (t_table s index) = Some old"
    using found by (simp add: mc_table_lookup_def)
  define s1 where "s1 = snd (mc_table_remove index k kl s)"
  have rem: "mc_table_remove index k kl s = (Some old, s1)"
    unfolding s1_def using fnd remove_simps(1)[of index k kl s] by (metis prod.collapse)
  define s2 where "s2 = mc_entry_unref old s1"
  define s3 where "s3 = mc_entry_create a kl (ucast (v_bytes ?val)) s2"
  define s4 where "s4 = mc_entry_set_key a k s3"
  define s5 where "s5 = mc_process_value a ?val 0 s4"
  define s6 where "s6 = set_flags a (par_flags (c_params command)) s5"
  define s7 where "s7 = mc_table_insert index a s6"
  have unfold: "mc_process_cas a command s =
      Some (if par_noreply (c_params command) then mc_blank command
            else mc_reply command (''STORED'' @ crlf), s7)"
    unfolding mc_process_cas_def Let_def key kl_def[symmetric] index_def[symmetric] found
    using stamp rem
    by (simp add: s2_def[symmetric] s3_def[symmetric] s4_def[symmetric] s5_def[symmetric]
        s6_def[symmetric] s7_def[symmetric])
  have kl7: "e_key_len (heap s7 a) = kl"
    by (simp add: s7_def s6_def s5_def s4_def s3_def)
  have "e_key (heap s7 a) = write_bytes 0 (take (unat kl) k) (region (unat kl) (e_key (heap s2 a)))"
    by (simp add: s7_def s6_def s5_def s4_def s3_def)
  moreover have "length (take (unat kl) k) = length (region (unat kl) (e_key (heap s2 a)))"
    using unat_len8_le[of k] by (simp add: kl_def)
  ultimately have key7: "e_key (heap s7 a) = take (unat kl) k" by (simp add: write_bytes_full)
  have km: "key_match (heap s7) k kl a" using kl7 key7 by (simp add: key_match_def)
  have vl7: "e_value_len (heap s7 a) = v_bytes ?val"
    by (simp add: s7_def s6_def s5_def s4_def s3_def)
  have "e_value (heap s7 a) = write_bytes 0 (take (unat (v_bytes ?val)) (v_data ?val))
               (region (unat (v_bytes ?val)) (e_value (heap s2 a)))"
    by (simp add: s7_def s6_def s5_def s4_def s3_def)
  moreover have "length (take (unat (v_bytes ?val)) (v_data ?val))
      = length (region (unat (v_bytes ?val)) (e_value (heap s2 a)))"
    using len by simp
  ultimately have "e_value (heap s7 a) = take (unat (v_bytes ?val)) (v_data ?val)"
    by (simp add: write_bytes_full)
  then have val7: "mc_entry_value (heap s7 a) = take (unat (v_bytes ?val)) (v_data ?val)"
    by (simp add: mc_entry_value_def vl7)
  have rest: "e_flags (heap s7 a) = par_flags (c_params command)"
    "e_cas (heap s7 a) = cas_counter s + 1" "cas_counter s7 = cas_counter s + 1"
    "t_mask s7 = t_mask s" "t_used s7 = t_used s"
    "t_table s7 = (t_table s)(index := a # remove_chain (heap s) k kl (t_table s index))"
    by (simp_all add: s7_def s6_def s5_def s4_def s3_def s2_def s1_def)
  have other: "e_cas (heap s7 b) = e_cas (heap s b)" if "b \<noteq> a" for b
    using that by (simp add: s7_def s6_def s5_def s4_def s3_def s2_def s1_def)
  show ?thesis
    unfolding unfold using rest km val7 other by (simp add: mc_blank_def mc_reply_def)
qed


lemma word64_less_succ:
  assumes "(c :: 64 word) + 1 \<noteq> 0"
  shows "c < c + 1"
proof -
  have "1 + c \<noteq> 0" using assms by (simp add: add.commute)
  then have "unat (1 + c) = Suc (unat c)" by (rule unatSuc)
  then show ?thesis by (simp add: word_less_nat_alt add.commute)
qed

text \<open>
  Claim C6.  In a state whose stored stamps do not exceed the counter and whose counter is
  not at its last value, a \<open>cas\<close> command without \<open>noreply\<close> replies \<open>NOT_FOUND\<close> and changes
  nothing when the key has no entry, replies \<open>EXISTS\<close> and changes nothing when the entry's
  stamp differs from \<open>S\<close>, and when the stamp equals \<open>S\<close> replies \<open>STORED\<close> and stores a new
  entry with the payload, whose stamp is the counter plus one and strictly greater than
  \<open>S\<close>; the stored stamps stay bounded by the counter.  Every \<open>mc_entry_create\<close> hands out a
  stamp above the counter and advances the counter to it, so stamps increase from one
  creation to the next.
\<close>

theorem cas_stores_iff_stamp_matches:
  assumes key: "par_key (c_params command) = k" and stamp: "par_cas (c_params command) = S"
    and nr: "\<not> par_noreply (c_params command)"
    and len: "unat (v_bytes (par_value (c_params command))) \<le> length (v_data (par_value (c_params command)))"
    and fresh: "a \<notin> stored s"
    and inv: "stamps_bounded s" and nowrap: "cas_counter s + 1 \<noteq> 0"
  shows "(\<exists>command' s'. mc_process_cas a command s = Some (command', s') \<and>
           (case mc_table_lookup s (mc_table_key_index s k (of_nat (length k))) k (of_nat (length k)) of
              None \<Rightarrow> c_result command' = MC_RESULT_REPLY (''NOT_FOUND'' @ crlf) \<and> s' = s
            | Some old \<Rightarrow>
                if e_cas (heap s old) = S
                then c_result command' = MC_RESULT_REPLY (''STORED'' @ crlf) \<and>
                     mc_table_lookup s' (mc_table_key_index s' k (of_nat (length k))) k (of_nat (length k)) = Some a \<and>
                     mc_entry_value (heap s' a) =
                       take (unat (v_bytes (par_value (c_params command))))
                            (v_data (par_value (c_params command))) \<and>
                     e_flags (heap s' a) = par_flags (c_params command) \<and>
                     e_cas (heap s' a) = cas_counter s + 1 \<and>
                     S < e_cas (heap s' a) \<and>
                     stamps_bounded s'
                else c_result command' = MC_RESULT_REPLY (''EXISTS'' @ crlf) \<and> s' = s)) \<and>
         cas_counter s < e_cas (heap (mc_entry_create b key_len value_len s) b) \<and>
         cas_counter (mc_entry_create b key_len value_len s) =
           e_cas (heap (mc_entry_create b key_len value_len s) b)"
proof -
  let ?kl = "of_nat (length k) :: 8 word"
  let ?index = "mc_table_key_index s k ?kl"
  have lt: "cas_counter s < cas_counter s + 1" using nowrap by (rule word64_less_succ)
  have A: "\<exists>command' s'. mc_process_cas a command s = Some (command', s') \<and>
           (case mc_table_lookup s ?index k ?kl of
              None \<Rightarrow> c_result command' = MC_RESULT_REPLY (''NOT_FOUND'' @ crlf) \<and> s' = s
            | Some old \<Rightarrow>
                if e_cas (heap s old) = S
                then c_result command' = MC_RESULT_REPLY (''STORED'' @ crlf) \<and>
                     mc_table_lookup s' (mc_table_key_index s' k ?kl) k ?kl = Some a \<and>
                     mc_entry_value (heap s' a) =
                       take (unat (v_bytes (par_value (c_params command))))
                            (v_data (par_value (c_params command))) \<and>
                     e_flags (heap s' a) = par_flags (c_params command) \<and>
                     e_cas (heap s' a) = cas_counter s + 1 \<and>
                     S < e_cas (heap s' a) \<and>
                     stamps_bounded s'
                else c_result command' = MC_RESULT_REPLY (''EXISTS'' @ crlf) \<and> s' = s)"
  proof (cases "mc_table_lookup s ?index k ?kl")
    case None
    then show ?thesis using nr by (simp add: mc_process_cas_def Let_def key mc_reply_def)
  next
    case (Some old)
    show ?thesis
    proof (cases "e_cas (heap s old) = S")
      case False
      then show ?thesis using Some nr by (simp add: mc_process_cas_def Let_def key stamp mc_reply_def)
    next
      case True
      then have st: "e_cas (heap s old) = par_cas (c_params command)" using stamp by simp
      obtain command' s' where r: "mc_process_cas a command s = Some (command', s')"
        "c_result command' = (if par_noreply (c_params command) then MC_RESULT_BLANK
                                else MC_RESULT_REPLY (''STORED'' @ crlf))"
        "t_mask s' = t_mask s" "t_used s' = t_used s"
        "t_table s' = (t_table s)(?index := a # remove_chain (heap s) k ?kl (t_table s ?index))"
        "key_match (heap s') k ?kl a"
        "mc_entry_value (heap s' a) =
             take (unat (v_bytes (par_value (c_params command)))) (v_data (par_value (c_params command)))"
        "e_flags (heap s' a) = par_flags (c_params command)"
        "e_cas (heap s' a) = cas_counter s + 1"
        "cas_counter s' = cas_counter s + 1"
        "\<forall>b. b \<noteq> a \<longrightarrow> e_cas (heap s' b) = e_cas (heap s b)"
        using cas_store[OF key Some st len fresh] by blast
      have idx: "mc_table_key_index s' k ?kl = ?index" using r(3,4) by (rule key_index_eq)
      have look: "mc_table_lookup s' ?index k ?kl = Some a"
        using r(5) r(6) by (simp add: mc_table_lookup_def)
      have old_in: "old \<in> set (t_table s ?index)"
        using Some lookup_chain_Some[of "heap s" k ?kl "t_table s ?index" old]
        by (simp add: mc_table_lookup_def)
      then have "e_cas (heap s old) \<le> cas_counter s" using inv by (auto simp: stamps_bounded_def)
      then have gt: "S < e_cas (heap s' a)" using True lt r(9) by simp
      have sb: "stamps_bounded s'"
        unfolding stamps_bounded_def
      proof (intro allI ballI)
        fix i b assume b: "b \<in> set (t_table s' i)"
        show "e_cas (heap s' b) \<le> cas_counter s'"
        proof (cases "b = a")
          case True
          then show ?thesis using r(9) r(10) by simp
        next
          case False
          have "b \<in> set (t_table s i)"
          proof (cases "i = ?index")
            case True
            then have "b \<in> set (remove_chain (heap s) k ?kl (t_table s ?index))"
              using b False r(5) by simp
            then show ?thesis
              using True remove_chain_subset[of "heap s" k ?kl "t_table s ?index"] by auto
          next
            case F: False
            then show ?thesis using b r(5) by simp
          qed
          then have "e_cas (heap s b) \<le> cas_counter s" using inv by (auto simp: stamps_bounded_def)
          then have "e_cas (heap s b) \<le> cas_counter s + 1" using lt by simp
          then show ?thesis using r(11) False r(10) by simp
        qed
      qed
      show ?thesis
        using Some True r(1) r(2) nr look r(7) r(8) r(9) gt sb
        by (intro exI[of _ command'] exI[of _ s']) (simp add: idx)
    qed
  qed
  have B: "cas_counter s < e_cas (heap (mc_entry_create b key_len value_len s) b)"
    "cas_counter (mc_entry_create b key_len value_len s) =
           e_cas (heap (mc_entry_create b key_len value_len s) b)"
    using lt by simp_all
  show ?thesis using A B by blast
qed


theorem cas_stores_iff_stamp_matches_witness:
  "(\<exists>command' s'. mc_process_cas 1 (cas_command ''a'' 0 ''new'' 1) ex_state_a = Some (command', s') \<and>
      c_result command' = MC_RESULT_REPLY (''STORED'' @ crlf) \<and>
      mc_entry_value (heap s' 1) = ''new'' \<and> e_cas (heap s' 1) = 2 \<and> (1 :: 64 word) < e_cas (heap s' 1)) \<and>
   (\<exists>command' s'. mc_process_cas 1 (cas_command ''a'' 0 ''new'' 5) ex_state_a = Some (command', s') \<and>
      c_result command' = MC_RESULT_REPLY (''EXISTS'' @ crlf) \<and> s' = ex_state_a)"
proof -
  have h: "mc_hash ''a'' = 0xE40C292C"
    by (simp add: mc_hash_def FNV1_32_INIT_def FNV_32_PRIME_def)
  have i: "mc_table_key_index ex_state_a ''a'' (of_nat (length ''a'')) = 0x92C"
    by (simp add: mc_table_key_index_def mc_table_index_def ex_state_a_def h)
  have look: "mc_table_lookup ex_state_a (mc_table_key_index ex_state_a ''a'' (of_nat (length ''a'')))
             ''a'' (of_nat (length ''a'')) = Some 0"
    unfolding i by (simp add: mc_table_lookup_def ex_state_a_def ex_entry_a_def key_match_def)
  have st: "e_cas (heap ex_state_a 0) = 1" "cas_counter ex_state_a = 1"
    by (simp_all add: ex_state_a_def ex_entry_a_def)
  have 1: "par_key (c_params (cas_command ''a'' 0 ''new'' n)) = ''a''"
    "par_cas (c_params (cas_command ''a'' 0 ''new'' n)) = n"
    "\<not> par_noreply (c_params (cas_command ''a'' 0 ''new'' n))"
    "unat (v_bytes (par_value (c_params (cas_command ''a'' 0 ''new'' n))))
       \<le> length (v_data (par_value (c_params (cas_command ''a'' 0 ''new'' n))))" for n
    by (simp_all add: cas_command_def no_params_def)
  have 2: "1 \<notin> stored ex_state_a" by (simp add: stored_def ex_state_a_def)
  have 3: "stamps_bounded ex_state_a"
    by (simp add: stamps_bounded_def ex_state_a_def ex_entry_a_def)
  have 4: "cas_counter ex_state_a + 1 \<noteq> 0" by (simp add: ex_state_a_def)
  have v: "take (unat (v_bytes (par_value (c_params (cas_command ''a'' 0 ''new'' n)))))
             (v_data (par_value (c_params (cas_command ''a'' 0 ''new'' n)))) = ''new''" for n
    by (simp add: cas_command_def no_params_def)
  have A: "\<exists>command' s'. mc_process_cas 1 (cas_command ''a'' 0 ''new'' 1) ex_state_a = Some (command', s') \<and>
      c_result command' = MC_RESULT_REPLY (''STORED'' @ crlf) \<and>
      mc_entry_value (heap s' 1) = ''new'' \<and> e_cas (heap s' 1) = 2 \<and> (1 :: 64 word) < e_cas (heap s' 1)"
    using cas_stores_iff_stamp_matches[OF 1(1) 1(2) 1(3) 1(4) 2 3 4, of 1 0 0 0]
    unfolding look v by (simp add: st) blast
  have B: "\<exists>command' s'. mc_process_cas 1 (cas_command ''a'' 0 ''new'' 5) ex_state_a = Some (command', s') \<and>
      c_result command' = MC_RESULT_REPLY (''EXISTS'' @ crlf) \<and> s' = ex_state_a"
    using cas_stores_iff_stamp_matches[OF 1(1) 1(2) 1(3) 1(4) 2 3 4, of 5 0 0 0]
    unfolding look by (simp add: st)
  show ?thesis using A B by blast
qed


section \<open>Reference counts: set, get and delete\<close>


lemma delete_found:
  assumes look: "mc_table_lookup s (mc_table_key_index s k (of_nat (length k))) k (of_nat (length k)) = Some a"
    and key: "par_key (c_params command) = k" and nr: "\<not> par_noreply (c_params command)"
  shows "\<exists>s'. mc_process_delete command s = Some (mc_reply command (''DELETED'' @ crlf), s') \<and>
           \<not> live s' a \<and> heap s' = heap s \<and>
           t_mask s' = t_mask s \<and> t_used s' = t_used s \<and>
           t_table s' (mc_table_key_index s k (of_nat (length k))) =
             remove_chain (heap s) k (of_nat (length k)) (t_table s (mc_table_key_index s k (of_nat (length k))))"
proof -
  let ?kl = "of_nat (length k) :: 8 word"
  let ?index = "mc_table_key_index s k ?kl"
  have fnd: "lookup_chain (heap s) k ?kl (t_table s ?index) = Some a"
    using look by (simp add: mc_table_lookup_def)
  define s1 where "s1 = snd (mc_table_remove ?index k ?kl s)"
  have rem: "mc_table_remove ?index k ?kl s = (Some a, s1)"
    unfolding s1_def using fnd remove_simps(1)[of ?index k ?kl s] by (metis prod.collapse)
  have unfold: "mc_process_delete command s =
      Some (mc_reply command (''DELETED'' @ crlf), mc_entry_destroy a s1)"
    unfolding mc_process_delete_def Let_def key rem using nr by simp
  show ?thesis
    unfolding unfold by (simp add: mc_entry_destroy_def s1_def)
qed

text \<open>
  Claim C2, evaluated on \<open>set k 0 0 1\<close> with the payload \<open>v\<close>, \<open>get k\<close> and \<open>delete k\<close> processed in
  this order on an empty table, the entry being allocated at address 1.  After \<open>set\<close> the
  entry has the reference count 2 although the table is its only holder (the result of
  \<open>set\<close> is a reply): \<open>mc_process_set\<close> takes a reference after the insertion that
  \<open>mc_process_add\<close>, \<open>mc_process_replace\<close> and \<open>mc_process_cas\<close> do not take.  After \<open>get\<close>
  the count is 3 and the result of the command holds the entry.  \<open>delete\<close> then takes the
  entry out of the table and frees it through \<open>mc_entry_destroy\<close>, without looking at the
  count: the entry is no longer allocated while its count is 3 and the result of \<open>get\<close>,
  not yet transmitted, still points to it.
\<close>

theorem delete_frees_entry_held_by_get:
  "\<exists>c1 s1 c2 s2 c3 s3.
     mc_process_set 1 (storage_command mc_desc_set ''k'' 0 ''v'') ex_empty = Some (c1, s1) \<and>
     c_result c1 = MC_RESULT_REPLY (''STORED'' @ crlf) \<and>
     t_table s1 (mc_table_key_index s1 ''k'' 1) = [1] \<and>
     e_ref_count (heap s1 1) = 2 \<and>
     mc_process_get (key_command mc_desc_get ''k'' 0) s1 = Some (c2, s2) \<and>
     c_result c2 = MC_RESULT_ENTRY [1] \<and>
     e_ref_count (heap s2 1) = 3 \<and>
     mc_process_delete (key_command mc_desc_delete ''k'' 0) s2 = Some (c3, s3) \<and>
     c_result c3 = MC_RESULT_REPLY (''DELETED'' @ crlf) \<and>
     t_table s3 (mc_table_key_index s3 ''k'' 1) = [] \<and>
     e_ref_count (heap s3 1) = 3 \<and>
     \<not> live s3 1"
proof -
  let ?k = "''k''"
  let ?kl = "of_nat (length ?k) :: 8 word"
  let ?set = "storage_command mc_desc_set ?k 0 ''v''"
  let ?get = "key_command mc_desc_get ?k 0"
  let ?del = "key_command mc_desc_delete ?k 0"
  let ?index = "mc_table_key_index ex_empty ?k ?kl"
  have key: "par_key (c_params ?set) = ?k" by (simp add: storage_command_def no_params_def)
  obtain c1 s1 where r1: "mc_process_set 1 ?set ex_empty = Some (c1, s1)"
    "t_mask s1 = t_mask ex_empty" "t_used s1 = t_used ex_empty"
    "t_table s1 ?index = 1 # remove_chain (heap ex_empty) ?k ?kl (t_table ex_empty ?index)"
    "key_match (heap s1) ?k ?kl 1"
    "e_ref_count (heap s1 1) = 2"
    "c_result c1 = (if par_noreply (c_params ?set) then MC_RESULT_BLANK
                    else MC_RESULT_REPLY (''STORED'' @ crlf))"
    using set_result[OF key, of 1 ex_empty] by blast
  have res1: "c_result c1 = MC_RESULT_REPLY (''STORED'' @ crlf)"
    using r1(7) by (simp add: storage_command_def no_params_def)
  have idx1: "mc_table_key_index s1 ?k ?kl = ?index" using r1(2,3) by (rule key_index_eq)
  have t1: "t_table s1 ?index = [1]" using r1(4) by (simp add: ex_empty_def)
  have look1: "mc_table_lookup s1 (mc_table_key_index s1 ?k ?kl) ?k ?kl = Some 1"
    unfolding idx1 using t1 r1(5) by (simp add: mc_table_lookup_def)
  have rc1: "e_ref_count (heap s1 1) + 1 \<noteq> 0" using r1(6) by simp
  have keys: "par_keys (c_params ?get) = [?k]" by (simp add: key_command_def no_params_def)
  obtain s2 where r2: "mc_process_get ?get s1 = Some (?get\<lparr>c_result := MC_RESULT_ENTRY [1]\<rparr>, s2)"
    "mc_entry_ref 1 s1 = Some s2"
    using get_single[OF look1 rc1 keys] by blast
  note h2 = ref_content[OF r2(2)]
  have rc2: "e_ref_count (heap s2 1) = 3" using h2(7) r1(6) by simp
  have "mc_table_key_index s2 ?k ?kl = mc_table_key_index s1 ?k ?kl"
    using h2(9) h2(10) by (rule key_index_eq)
  then have idx2: "mc_table_key_index s2 ?k ?kl = ?index" using idx1 by simp
  have "key_match (heap s2) ?k ?kl 1 = key_match (heap s1) ?k ?kl 1"
    by (rule key_match_cong) (simp_all add: h2)
  then have km2: "key_match (heap s2) ?k ?kl 1" using r1(5) by simp
  have t2: "t_table s2 ?index = [1]" using t1 h2(8) by simp
  have look2: "mc_table_lookup s2 (mc_table_key_index s2 ?k ?kl) ?k ?kl = Some 1"
    unfolding idx2 using t2 km2 by (simp add: mc_table_lookup_def)
  have dk: "par_key (c_params ?del) = ?k" "\<not> par_noreply (c_params ?del)"
    by (simp_all add: key_command_def no_params_def)
  obtain s3 where r3: "mc_process_delete ?del s2 = Some (mc_reply ?del (''DELETED'' @ crlf), s3)"
    "\<not> live s3 1" "heap s3 = heap s2"
    "t_mask s3 = t_mask s2" "t_used s3 = t_used s2"
    "t_table s3 (mc_table_key_index s2 ?k ?kl) =
       remove_chain (heap s2) ?k ?kl (t_table s2 (mc_table_key_index s2 ?k ?kl))"
    using delete_found[OF look2 dk] by blast
  have t3: "t_table s3 ?index = []" using r3(6) km2 unfolding idx2 t2 by simp
  have "mc_table_key_index s3 ?k ?kl = mc_table_key_index s2 ?k ?kl"
    using r3(4) r3(5) by (rule key_index_eq)
  then have idx3: "mc_table_key_index s3 ?k ?kl = ?index" using idx2 by simp
  have one: "(of_nat (length ?k) :: 8 word) = 1" by simp
  define c2 where "c2 = ?get\<lparr>c_result := MC_RESULT_ENTRY [1]\<rparr>"
  define c3 where "c3 = mc_reply ?del (''DELETED'' @ crlf)"
  have g1: "t_table s1 (mc_table_key_index s1 ?k 1) = [1]" using t1 idx1 unfolding one by simp
  have g3: "t_table s3 (mc_table_key_index s3 ?k 1) = []" using t3 idx3 unfolding one by simp
  have rc3: "e_ref_count (heap s3 1) = 3" using rc2 r3(3) by simp
  have p2: "mc_process_get ?get s1 = Some (c2, s2)" "c_result c2 = MC_RESULT_ENTRY [1]"
    using r2(1) by (simp_all add: c2_def)
  have p3: "mc_process_delete ?del s2 = Some (c3, s3)"
    "c_result c3 = MC_RESULT_REPLY (''DELETED'' @ crlf)"
    using r3(1) by (simp_all add: c3_def mc_reply_def)
  from r1(1) res1 g1 r1(6) p2 rc2 p3 g3 rc3 r3(2) show ?thesis by blast
qed


section \<open>The writer: results leave in queue order\<close>


lemma same_content_refl [simp]: "same_content hp hp"
  by (simp add: same_content_def)

lemma same_content_trans: "same_content a b \<Longrightarrow> same_content b c \<Longrightarrow> same_content a c"
  by (simp add: same_content_def)

lemma ref_same_content: "mc_entry_ref a s = Some s' \<Longrightarrow> same_content (heap s) (heap s')"
  by (auto simp: mc_entry_ref_def Let_def same_content_def split: if_splits)

lemma same_content_chunks:
  assumes "same_content hp hp'"
  shows "entry_chunks w hp' e = entry_chunks w hp e"
    and "result_chunks hp' r = result_chunks hp r"
    and "wire hp' t = wire hp t"
proof -
  show e: "entry_chunks w hp' e = entry_chunks w hp e" for w e
    using assms by (simp add: entry_chunks_def value_line_def same_content_def)
  have f: "entry_chunks w hp' = entry_chunks w hp" for w
    by (rule ext) (rule e)
  show "result_chunks hp' r = result_chunks hp r"
    using assms by (cases r) (simp_all add: f same_content_def)
  show "wire hp' t = wire hp t"
    using assms by (induction hp t rule: wire.induct) (simp_all add: same_content_def)
qed

lemma transmit_entries_chunks:
  "transmit_entries w es state s = Some (state', s') \<Longrightarrow>
     state' = state\<lparr>st_tbuf := st_tbuf state @ concat (map (entry_chunks w (heap s)) es)\<rparr> \<and>
     same_content (heap s) (heap s')"
proof (induction es arbitrary: state s)
  case Nil
  then show ?case by simp
next
  case (Cons e es)
  from Cons.prems obtain s1 where r: "mc_entry_ref e s = Some s1"
    and t: "transmit_entries w es
             (buffer_append (buffer_splice (buffer_append state (value_line w (heap s e))) e
                (e_value_len (heap s e))) crlf) s1 = Some (state', s')"
    by (auto simp: Let_def split: option.splits)
  note sc = ref_same_content[OF r]
  from Cons.IH[OF t] have a: "state' = (buffer_append (buffer_splice (buffer_append state (value_line w (heap s e))) e
                (e_value_len (heap s e))) crlf)\<lparr>st_tbuf := st_tbuf (buffer_append (buffer_splice (buffer_append state (value_line w (heap s e))) e
                (e_value_len (heap s e))) crlf) @ concat (map (entry_chunks w (heap s1)) es)\<rparr>"
    and b: "same_content (heap s1) (heap s')" by blast+
  have m: "map (entry_chunks w (heap s1)) es = map (entry_chunks w (heap s)) es"
    using same_content_chunks(1)[OF sc] by simp
  have h: "entry_chunks w (heap s) e =
      [Data (value_line w (heap s e)), Splice e (e_value_len (heap s e)), Data crlf]"
    by (simp add: entry_chunks_def)
  show ?case
    using a same_content_trans[OF sc b] unfolding m
    by (simp add: buffer_append_def buffer_splice_def h)
qed

lemma transmit_buffer_chunks:
  assumes "mc_transmit_buffer state c s = Some (state', s')"
  shows "st_tbuf state' = st_tbuf state @ result_chunks (heap s) (c_result c)"
    and "same_content (heap s) (heap s')"
    and "st_output state' = st_output state" and "st_queue state' = st_queue state"
    and "c_result c \<noteq> MC_RESULT_NONE"
    and "st_closed state' = (st_closed state \<or> c_result c = MC_RESULT_QUIT)"
    and "st_quit state' = (st_quit state \<or> c_result c = MC_RESULT_QUIT)"
proof -
  have all: "st_tbuf state' = st_tbuf state @ result_chunks (heap s) (c_result c) \<and>
    same_content (heap s) (heap s') \<and> st_output state' = st_output state \<and>
    st_queue state' = st_queue state \<and> c_result c \<noteq> MC_RESULT_NONE \<and>
    st_closed state' = (st_closed state \<or> c_result c = MC_RESULT_QUIT) \<and>
    st_quit state' = (st_quit state \<or> c_result c = MC_RESULT_QUIT)"
  proof (cases "c_result c")
    case MC_RESULT_NONE
    then show ?thesis using assms by (simp add: mc_transmit_buffer_def)
  next
    case MC_RESULT_BLANK
    then show ?thesis using assms by (auto simp: mc_transmit_buffer_def)
  next
    case (MC_RESULT_REPLY x3)
    then show ?thesis using assms by (auto simp: mc_transmit_buffer_def buffer_append_def)
  next
    case (MC_RESULT_ENTRY es)
    with assms obtain st1 where t: "transmit_entries False es state s = Some (st1, s')"
      and e: "state' = buffer_append st1 (''END'' @ crlf)"
      by (auto simp: mc_transmit_buffer_def split: option.splits)
    from transmit_entries_chunks[OF t] show ?thesis
      using MC_RESULT_ENTRY e by (simp add: buffer_append_def)
  next
    case (MC_RESULT_ENTRY_CAS es)
    with assms obtain st1 where t: "transmit_entries True es state s = Some (st1, s')"
      and e: "state' = buffer_append st1 (''END'' @ crlf)"
      by (auto simp: mc_transmit_buffer_def split: option.splits)
    from transmit_entries_chunks[OF t] show ?thesis
      using MC_RESULT_ENTRY_CAS e by (simp add: buffer_append_def)
  next
    case (MC_RESULT_VALUE e)
    with assms have r: "mc_entry_ref e s = Some s'"
      and st: "state' = buffer_append (buffer_splice state e (e_value_len (heap s e))) (''END'' @ crlf)"
      by (auto simp: mc_transmit_buffer_def split: option.splits)
    show ?thesis using MC_RESULT_VALUE st ref_same_content[OF r]
      by (simp add: buffer_append_def buffer_splice_def)
  next
    case MC_RESULT_QUIT
    then show ?thesis using assms by (auto simp: mc_transmit_buffer_def)
  qed
  then show "st_tbuf state' = st_tbuf state @ result_chunks (heap s) (c_result c)"
    and "same_content (heap s) (heap s')"
    and "st_output state' = st_output state" and "st_queue state' = st_queue state"
    and "c_result c \<noteq> MC_RESULT_NONE"
    and "st_closed state' = (st_closed state \<or> c_result c = MC_RESULT_QUIT)"
    and "st_quit state' = (st_quit state \<or> c_result c = MC_RESULT_QUIT)" by blast+
qed


lemma writer_loop_prefix:
  assumes "writer_loop last_cmd rest n state s = Some (m, r, state', s')"
      and "c_result last_cmd \<noteq> MC_RESULT_NONE"
  shows "n \<le> m \<and> m \<le> r \<and> r \<le> m + 1 \<and> n < r \<and> r - n \<le> length (last_cmd # rest) \<and>
         (\<forall>c \<in> set (take (r - n) (last_cmd # rest)). c_result c \<noteq> MC_RESULT_NONE) \<and>
         st_tbuf state' = st_tbuf state @
           concat (map (\<lambda>c. result_chunks (heap s) (c_result c)) (take (m - n) (last_cmd # rest))) \<and>
         same_content (heap s) (heap s') \<and> st_output state' = st_output state \<and>
         (\<not> st_quit state' \<longrightarrow> m = r \<and>
            (r - n < length (last_cmd # rest) \<longrightarrow>
               c_result ((last_cmd # rest) ! (r - n)) = MC_RESULT_NONE))"
  using assms
proof (induction rest arbitrary: last_cmd n state s)
  case Nil
  show ?case
  proof (cases "st_quit state")
    case True
    with Nil show ?thesis by auto
  next
    case False
    with Nil.prems obtain st1 where t: "mc_transmit_buffer state last_cmd s = Some (st1, s')"
      and e: "m = n + 1" "r = n + 1" "state' = st1"
      by (auto split: option.splits)
    from transmit_buffer_chunks[OF t] e Nil.prems(2) show ?thesis by simp
  qed
next
  case (Cons next_cmd rest)
  show ?case
  proof (cases "st_quit state")
    case True
    with Cons.prems show ?thesis by auto
  next
    case False
    with Cons.prems obtain st1 s1 where t: "mc_transmit_buffer state last_cmd s = Some (st1, s1)"
      and e: "(if c_result next_cmd = MC_RESULT_NONE then Some (n + 1, n + 1, st1, s1)
               else writer_loop next_cmd rest (n + 1) st1 s1) = Some (m, r, state', s')"
      by (auto split: option.splits)
    note tb = transmit_buffer_chunks[OF t]
    show ?thesis
    proof (cases "c_result next_cmd = MC_RESULT_NONE")
      case True
      with e have "m = n + 1" "r = n + 1" "state' = st1" "s' = s1" by simp_all
      with tb Cons.prems(2) True show ?thesis by simp
    next
      case nn: False
      with e have w: "writer_loop next_cmd rest (n + 1) st1 s1 = Some (m, r, state', s')" by simp
      from Cons.IH[OF w nn] have
        b: "n + 1 \<le> m" "m \<le> r" "r \<le> m + 1" "n + 1 < r" "r - (n + 1) \<le> length (next_cmd # rest)"
        and nz: "\<forall>c \<in> set (take (r - (n + 1)) (next_cmd # rest)). c_result c \<noteq> MC_RESULT_NONE"
        and tbuf: "st_tbuf state' = st_tbuf st1 @
           concat (map (\<lambda>c. result_chunks (heap s1) (c_result c)) (take (m - (n + 1)) (next_cmd # rest)))"
        and sc: "same_content (heap s1) (heap s')" and out: "st_output state' = st_output st1"
        and mx: "\<not> st_quit state' \<longrightarrow> m = r \<and>
            (r - (n + 1) < length (next_cmd # rest) \<longrightarrow>
               c_result ((next_cmd # rest) ! (r - (n + 1))) = MC_RESULT_NONE)"
        by blast+
      have rc: "(\<lambda>c. result_chunks (heap s1) (c_result c)) = (\<lambda>c. result_chunks (heap s) (c_result c))"
        using same_content_chunks(2)[OF tb(2)] by simp
      from b obtain r' where r': "r - n = Suc r'" "r - (n + 1) = r'" by (cases "r - n") auto
      from b obtain m' where m': "m - n = Suc m'" "m - (n + 1) = m'" by (cases "m - n") auto
      have 1: "n \<le> m \<and> m \<le> r \<and> r \<le> m + 1 \<and> n < r" using b by simp
      have 2: "r - n \<le> length (last_cmd # next_cmd # rest)" using b(5) r' by simp
      have 3: "\<forall>c \<in> set (take (r - n) (last_cmd # next_cmd # rest)). c_result c \<noteq> MC_RESULT_NONE"
        using nz Cons.prems(2) unfolding r' by simp
      have 4: "st_tbuf state' = st_tbuf state @
           concat (map (\<lambda>c. result_chunks (heap s) (c_result c)) (take (m - n) (last_cmd # next_cmd # rest)))"
        using tbuf tb(1) unfolding rc m' by simp
      have 5: "same_content (heap s) (heap s')" by (rule same_content_trans[OF tb(2) sc])
      have 6: "st_output state' = st_output state" using out tb(3) by simp
      have 7: "\<not> st_quit state' \<longrightarrow> m = r \<and>
            (r - n < length (last_cmd # next_cmd # rest) \<longrightarrow>
               c_result ((last_cmd # next_cmd # rest) ! (r - n)) = MC_RESULT_NONE)"
        using mx unfolding r' by simp
      from 1 2 3 4 5 6 7 show ?thesis by blast
    qed
  qed
qed


lemma ref_room:
  assumes "\<forall>a. unat (e_ref_count (heap s a)) + Suc N < 2 ^ 32"
  shows "\<exists>s'. mc_entry_ref e s = Some s' \<and> (\<forall>a. unat (e_ref_count (heap s' a)) + N < 2 ^ 32)"
proof -
  from assms have b: "unat (e_ref_count (heap s e)) + Suc N < 2 ^ 32" by blast
  have nz: "1 + e_ref_count (heap s e) \<noteq> 0"
  proof
    assume "1 + e_ref_count (heap s e) = 0"
    then have "e_ref_count (heap s e) = - 1" by (simp add: add_eq_0_iff)
    then have "unat (e_ref_count (heap s e)) = 2 ^ 32 - 1" by (simp add: unsigned_minus_1_eq_mask mask_eq_exp_minus_1)
    with b show False by simp
  qed
  then have u: "unat (1 + e_ref_count (heap s e)) = Suc (unat (e_ref_count (heap s e)))"
    by (rule unatSuc)
  have nz': "e_ref_count (heap s e) + 1 \<noteq> 0" using nz by (simp add: add.commute)
  have "unat (e_ref_count (heap (s\<lparr>heap := (heap s)(e := (heap s e)\<lparr>e_ref_count := e_ref_count (heap s e) + 1\<rparr>)\<rparr>) a)) + N < 2 ^ 32" for a
  proof (cases "a = e")
    case True
    then show ?thesis using b u by (simp add: add.commute)
  next
    case False
    from assms have "unat (e_ref_count (heap s a)) + Suc N < 2 ^ 32" by blast
    with False show ?thesis by simp
  qed
  then show ?thesis
    unfolding ref_Some[OF nz'] by blast
qed

lemma transmit_entries_total:
  "\<forall>a. unat (e_ref_count (heap s a)) + (length es + N) < 2 ^ 32 \<Longrightarrow>
     \<exists>state' s'. transmit_entries w es state s = Some (state', s') \<and>
        (\<forall>a. unat (e_ref_count (heap s' a)) + N < 2 ^ 32)"
proof (induction es arbitrary: state s)
  case Nil
  then show ?case by simp
next
  case (Cons e es)
  then have "\<forall>a. unat (e_ref_count (heap s a)) + Suc (length es + N) < 2 ^ 32" by simp
  from ref_room[OF this, of e] obtain s1 where r: "mc_entry_ref e s = Some s1"
    and b: "\<forall>a. unat (e_ref_count (heap s1 a)) + (length es + N) < 2 ^ 32" by blast
  from Cons.IH[OF b] show ?case using r by (simp add: Let_def)
qed

lemma transmit_buffer_total:
  assumes "c_result c \<noteq> MC_RESULT_NONE"
      and "\<forall>a. unat (e_ref_count (heap s a)) + (result_refs (c_result c) + N) < 2 ^ 32"
  shows "\<exists>state' s'. mc_transmit_buffer state c s = Some (state', s') \<and>
        (\<forall>a. unat (e_ref_count (heap s' a)) + N < 2 ^ 32)"
proof (cases "c_result c")
  case MC_RESULT_NONE
  with assms show ?thesis by simp
next
  case MC_RESULT_BLANK
  with assms show ?thesis by (simp add: mc_transmit_buffer_def)
next
  case (MC_RESULT_REPLY x3)
  with assms show ?thesis by (simp add: mc_transmit_buffer_def)
next
  case (MC_RESULT_ENTRY es)
  with assms(2) have "\<forall>a. unat (e_ref_count (heap s a)) + (length es + N) < 2 ^ 32" by simp
  from transmit_entries_total[OF this, of False state] MC_RESULT_ENTRY show ?thesis
    by (auto simp: mc_transmit_buffer_def)
next
  case (MC_RESULT_ENTRY_CAS es)
  with assms(2) have "\<forall>a. unat (e_ref_count (heap s a)) + (length es + N) < 2 ^ 32" by simp
  from transmit_entries_total[OF this, of True state] MC_RESULT_ENTRY_CAS show ?thesis
    by (auto simp: mc_transmit_buffer_def)
next
  case (MC_RESULT_VALUE e)
  with assms(2) have "\<forall>a. unat (e_ref_count (heap s a)) + Suc N < 2 ^ 32" by simp
  from ref_room[OF this, of e] MC_RESULT_VALUE show ?thesis
    by (auto simp: mc_transmit_buffer_def)
next
  case MC_RESULT_QUIT
  with assms show ?thesis by (simp add: mc_transmit_buffer_def)
qed

lemma writer_loop_total:
  assumes "c_result last_cmd \<noteq> MC_RESULT_NONE"
      and "\<forall>a. unat (e_ref_count (heap s a)) + refs_needed (last_cmd # rest) < 2 ^ 32"
  shows "\<exists>x. writer_loop last_cmd rest n state s = Some x"
  using assms
proof (induction rest arbitrary: last_cmd n state s)
  case Nil
  then have "\<forall>a. unat (e_ref_count (heap s a)) + (result_refs (c_result last_cmd) + 0) < 2 ^ 32"
    by (simp add: refs_needed_def)
  from transmit_buffer_total[OF Nil.prems(1) this, of state] show ?case by auto
next
  case (Cons next_cmd rest)
  then have "\<forall>a. unat (e_ref_count (heap s a)) +
      (result_refs (c_result last_cmd) + refs_needed (next_cmd # rest)) < 2 ^ 32"
    by (simp add: refs_needed_def add.assoc)
  from transmit_buffer_total[OF Cons.prems(1) this, of state] obtain st1 s1 where
    t: "mc_transmit_buffer state last_cmd s = Some (st1, s1)"
    and b: "\<forall>a. unat (e_ref_count (heap s1 a)) + refs_needed (next_cmd # rest) < 2 ^ 32" by blast
  show ?case
  proof (cases "c_result next_cmd = MC_RESULT_NONE")
    case True
    then show ?thesis using t by simp
  next
    case False
    from Cons.IH[OF False b, of "n + 1" st1] show ?thesis using t False by simp
  qed
qed

lemma writer_routine_prefix:
  assumes "mc_writer_routine state s = Some (state', s')"
  shows "\<exists>m r. m \<le> r \<and> r \<le> m + 1 \<and> r \<le> length (st_queue state) \<and>
      st_queue state' = drop r (st_queue state) \<and>
      (\<forall>c \<in> set (take r (st_queue state)). c_result c \<noteq> MC_RESULT_NONE) \<and>
      (\<not> st_quit state' \<longrightarrow> m = r \<and>
         (r < length (st_queue state) \<longrightarrow> c_result (st_queue state ! r) = MC_RESULT_NONE)) \<and>
      st_output state' =
        (if r = 0 \<or> st_closed state' then st_output state
         else st_output state @ wire (heap s)
                (st_tbuf state @
                 concat (map (\<lambda>c. result_chunks (heap s) (c_result c)) (take m (st_queue state)))))"
proof (cases "st_queue state")
  case Nil
  with assms have "state' = state" by (simp add: mc_writer_routine_def)
  with Nil show ?thesis by (intro exI[of _ 0]) simp
next
  case (Cons last_cmd rest)
  show ?thesis
  proof (cases "c_result last_cmd = MC_RESULT_NONE")
    case True
    with assms Cons have "state' = state" by (simp add: mc_writer_routine_def)
    with Cons True show ?thesis by (intro exI[of _ 0]) simp
  next
    case False
    with assms Cons obtain m r st1 s1 where
      w: "writer_loop last_cmd rest 0 state s = Some (m, r, st1, s1)"
      and e: "state' = (fst (mc_transmit st1 s1))\<lparr>st_queue := drop r (st_queue state)\<rparr>"
      by (auto simp: mc_writer_routine_def Let_def split: option.splits prod.splits)
    note wl = writer_loop_prefix[OF w False, unfolded diff_zero, folded Cons]
    from wl have
      b: "m \<le> r" "r \<le> m + 1" "0 < r" "r \<le> length (st_queue state)"
      and nz: "\<forall>c \<in> set (take r (st_queue state)). c_result c \<noteq> MC_RESULT_NONE"
      and tbuf: "st_tbuf st1 = st_tbuf state @
           concat (map (\<lambda>c. result_chunks (heap s) (c_result c)) (take m (st_queue state)))"
      and sc: "same_content (heap s) (heap s1)" and out: "st_output st1 = st_output state"
      and mx: "\<not> st_quit st1 \<longrightarrow> m = r \<and>
            (r < length (st_queue state) \<longrightarrow> c_result (st_queue state ! r) = MC_RESULT_NONE)"
      by blast+
    have q: "st_quit state' = st_quit st1" "st_closed state' = st_closed st1"
      by (simp_all add: e mc_transmit_def)
    have o: "st_output state' =
        (if r = 0 \<or> st_closed state' then st_output state
         else st_output state @ wire (heap s)
                (st_tbuf state @
                 concat (map (\<lambda>c. result_chunks (heap s) (c_result c)) (take m (st_queue state)))))"
      using out tbuf same_content_chunks(3)[OF sc] b(3) by (simp add: e mc_transmit_def)
    have qu: "st_queue state' = drop r (st_queue state)" by (simp add: e)
    have mx': "\<not> st_quit state' \<longrightarrow> m = r \<and>
            (r < length (st_queue state) \<longrightarrow> c_result (st_queue state ! r) = MC_RESULT_NONE)"
      using mx q by simp
    from b(1,2,4) qu nz mx' o show ?thesis by blast
  qed
qed

lemma writer_routine_total:
  assumes "\<forall>a. unat (e_ref_count (heap s a)) + refs_needed (st_queue state) < 2 ^ 32"
  shows "\<exists>state' s'. mc_writer_routine state s = Some (state', s')"
proof (cases "st_queue state")
  case Nil
  then show ?thesis by (simp add: mc_writer_routine_def)
next
  case (Cons last_cmd rest)
  show ?thesis
  proof (cases "c_result last_cmd = MC_RESULT_NONE")
    case True
    with Cons show ?thesis by (simp add: mc_writer_routine_def)
  next
    case False
    from writer_loop_total[OF False, of s rest 0 state] assms Cons
    obtain x where "writer_loop last_cmd rest 0 state s = Some x" by auto
    with Cons False show ?thesis
      by (cases x) (auto simp: mc_writer_routine_def Let_def split: prod.splits)
  qed
qed

lemma process_command_queues:
  assumes "mc_process_command a state0 command s0 = Some (state1, s1)"
  shows "\<exists>command'. st_queue state1 = st_queue state0 @ [command'] \<and>
      (if c_desc command = None \<or> c_result command \<noteq> MC_RESULT_NONE
       then command' = command \<and> s1 = s0
       else desc_process (the (c_desc command)) a command s0 = Some (command', s1))"
  using assms
  by (auto simp: mc_process_command_def mc_queue_command_def split: option.splits if_splits)

text \<open>
  Claim C3.  A command is created with result \<open>NONE\<close>, and \<open>mc_process_command\<close> puts it at
  the tail of the queue, behind the commands already there, with the result its processor
  stored (or the result it already had).  As long as no reference count overflows, a run of
  the writer returns, and for some \<open>m\<close> and \<open>r\<close> with \<open>m \<le> r \<le> m + 1\<close>: it takes the first \<open>r\<close>
  commands off the queue, none of which has result \<open>NONE\<close>; the bytes it writes are the
  transmit buffer as it was followed by the chunks of the first \<open>m\<close> commands, in queue
  order (nothing is written when the connection has been closed by a \<open>QUIT\<close> result or when
  there is nothing to take); and unless the quit flag is set at the end, \<open>m = r\<close> and the
  command left at the head, if any, has result \<open>NONE\<close>.
\<close>

theorem writer_sends_ready_prefix_in_order:
  assumes "mc_process_command a state0 command s0 = Some (state1, s1)"
      and "\<forall>a. unat (e_ref_count (heap s a)) + refs_needed (st_queue state) < 2 ^ 32"
  shows "c_result mc_command_create = MC_RESULT_NONE \<and>
    (\<exists>command'. st_queue state1 = st_queue state0 @ [command'] \<and>
      (if c_desc command = None \<or> c_result command \<noteq> MC_RESULT_NONE
       then command' = command \<and> s1 = s0
       else desc_process (the (c_desc command)) a command s0 = Some (command', s1))) \<and>
    (\<exists>state' s' m r. mc_writer_routine state s = Some (state', s') \<and>
      m \<le> r \<and> r \<le> m + 1 \<and> r \<le> length (st_queue state) \<and>
      st_queue state' = drop r (st_queue state) \<and>
      (\<forall>c \<in> set (take r (st_queue state)). c_result c \<noteq> MC_RESULT_NONE) \<and>
      (\<not> st_quit state' \<longrightarrow> m = r \<and>
         (r < length (st_queue state) \<longrightarrow> c_result (st_queue state ! r) = MC_RESULT_NONE)) \<and>
      st_output state' =
        (if r = 0 \<or> st_closed state' then st_output state
         else st_output state @ wire (heap s)
                (st_tbuf state @
                 concat (map (\<lambda>c. result_chunks (heap s) (c_result c)) (take m (st_queue state))))))"
proof -
  from writer_routine_total[OF assms(2)] obtain state' s' where
    w: "mc_writer_routine state s = Some (state', s')" by blast
  from writer_routine_prefix[OF w] w have
    "\<exists>state' s' m r. mc_writer_routine state s = Some (state', s') \<and>
      m \<le> r \<and> r \<le> m + 1 \<and> r \<le> length (st_queue state) \<and>
      st_queue state' = drop r (st_queue state) \<and>
      (\<forall>c \<in> set (take r (st_queue state)). c_result c \<noteq> MC_RESULT_NONE) \<and>
      (\<not> st_quit state' \<longrightarrow> m = r \<and>
         (r < length (st_queue state) \<longrightarrow> c_result (st_queue state ! r) = MC_RESULT_NONE)) \<and>
      st_output state' =
        (if r = 0 \<or> st_closed state' then st_output state
         else st_output state @ wire (heap s)
                (st_tbuf state @
                 concat (map (\<lambda>c. result_chunks (heap s) (c_result c)) (take m (st_queue state)))))"
    by blast
  moreover have "c_result mc_command_create = MC_RESULT_NONE" by (simp add: mc_command_create_def)
  ultimately show ?thesis using process_command_queues[OF assms(1)] by blast
qed



text \<open>
  The theorem at the example queue: the reply and the entry result are written in this
  order and taken off the queue, the command without a result and the reply behind it stay.
\<close>

theorem writer_sends_ready_prefix_in_order_witness:
  "mc_process_command 0 mc_create (mc_reply mc_command_create (''ERROR'' @ crlf)) ex_empty =
     Some (mc_create\<lparr>st_queue := [mc_reply mc_command_create (''ERROR'' @ crlf)], st_writers := 1\<rparr>,
           ex_empty) \<and>
   (\<forall>a. unat (e_ref_count (heap ex_state_a a)) + refs_needed ex_queue < 2 ^ 32) \<and>
   (\<exists>state' s' m r.
      mc_writer_routine (mc_create\<lparr>st_queue := ex_queue\<rparr>) ex_state_a = Some (state', s') \<and>
      m \<le> r \<and> r \<le> m + 1 \<and> r \<le> length ex_queue \<and>
      st_queue state' = drop r ex_queue \<and>
      (\<forall>c \<in> set (take r ex_queue). c_result c \<noteq> MC_RESULT_NONE) \<and>
      (\<not> st_quit state' \<longrightarrow> m = r \<and>
         (r < length ex_queue \<longrightarrow> c_result (ex_queue ! r) = MC_RESULT_NONE)) \<and>
      st_output state' =
        (if r = 0 \<or> st_closed state' then []
         else wire (heap ex_state_a)
                (concat (map (\<lambda>c. result_chunks (heap ex_state_a) (c_result c)) (take m ex_queue))))) \<and>
   (\<exists>s'. mc_writer_routine (mc_create\<lparr>st_queue := ex_queue\<rparr>) ex_state_a =
      Some (mc_create\<lparr>st_queue := drop 2 ex_queue,
                      st_output := ''STORED'' @ crlf @ ''VALUE a 0 1'' @ crlf @ ''x'' @ crlf @ ''END'' @ crlf\<rparr>, s'))"
proof -
  have 1: "mc_process_command 0 mc_create (mc_reply mc_command_create (''ERROR'' @ crlf)) ex_empty =
     Some (mc_create\<lparr>st_queue := [mc_reply mc_command_create (''ERROR'' @ crlf)], st_writers := 1\<rparr>,
           ex_empty)"
    by (simp add: mc_process_command_def mc_reply_def mc_command_create_def mc_queue_command_def
        mc_create_def)
  have 2: "\<forall>a. unat (e_ref_count (heap (ex_state_a) a)) +
               refs_needed (st_queue (mc_create\<lparr>st_queue := ex_queue\<rparr>)) < 2 ^ 32"
    by (simp add: ex_state_a_def ex_entry_a_def refs_needed_def ex_queue_def mc_reply_def
        key_command_def storage_command_def mc_command_create_def)
  have 3: "\<exists>s'. mc_writer_routine (mc_create\<lparr>st_queue := ex_queue\<rparr>) ex_state_a =
      Some (mc_create\<lparr>st_queue := drop 2 ex_queue,
                      st_output := ''STORED'' @ crlf @ ''VALUE a 0 1'' @ crlf @ ''x'' @ crlf @ ''END'' @ crlf\<rparr>, s')"
    by (simp add: mc_writer_routine_def ex_queue_def mc_reply_def key_command_def
        storage_command_def mc_command_create_def mc_create_def mc_transmit_buffer_def
        buffer_append_def buffer_splice_def mc_entry_ref_def Let_def ex_state_a_def
        ex_entry_a_def mc_transmit_def value_line_def printf_s_def dec.simps char_of_def
        bit_iff_odd crlf_def)
  have sel: "st_queue (mc_create\<lparr>st_queue := ex_queue\<rparr>) = ex_queue"
    "st_output (mc_create\<lparr>st_queue := ex_queue\<rparr>) = []"
    "st_tbuf (mc_create\<lparr>st_queue := ex_queue\<rparr>) = []"
    by (simp_all add: mc_create_def)
  from writer_sends_ready_prefix_in_order[OF 1 2, unfolded sel append_Nil] 1 2[unfolded sel] 3
  show ?thesis by blast
qed



section \<open>The ring: tail, head and lock counters\<close>


declare put_run.simps [simp del] get_run.simps [simp del]

lemma node_index_in_ring: "ring_sized ring \<Longrightarrow> node_index ring x < length (r_ring ring)"
proof -
  assume a: "ring_sized ring"
  have "x AND r_mask ring \<le> r_mask ring" by (rule word_and_le1)
  then have "unat (x AND r_mask ring) \<le> unat (r_mask ring)" by (simp add: word_le_nat_alt)
  with a show ?thesis by (simp add: ring_sized_def node_index_def)
qed

lemma capacity_word: "ring_sized ring \<Longrightarrow> (of_nat (length (r_ring ring)) :: 64 word) = r_mask ring + 1"
  by (simp add: ring_sized_def)

lemma put_run_alone:
  assumes "ring_sized ring"
  shows "mm_ring_mpmc_put ring d =
     Some (if n_lock (r_ring ring ! node_index ring (r_tail ring)) = r_tail ring
           then (True, ring\<lparr>r_tail := r_tail ring + 1,
                            r_ring := (r_ring ring)[node_index ring (r_tail ring) :=
                               (r_ring ring ! node_index ring (r_tail ring))
                                 \<lparr>n_data := d, n_lock := r_tail ring + 1\<rparr>]\<rparr>)
           else (False, ring))"
  using node_index_in_ring[OF assms, of "r_tail ring"]
  by (simp add: mm_ring_mpmc_put_def put_run.simps put_step_def mm_atomic_uintptr_cas_def Let_def
      node_index_def)

lemma get_run_alone:
  assumes "ring_sized ring"
  shows "mm_ring_mpmc_get ring =
     Some (if n_lock (r_ring ring ! node_index ring (r_head ring)) = r_head ring + 1
           then (True, Some (n_data (r_ring ring ! node_index ring (r_head ring))),
                 ring\<lparr>r_head := r_head ring + 1,
                      r_ring := (r_ring ring)[node_index ring (r_head ring) :=
                        (r_ring ring ! node_index ring (r_head ring))
                          \<lparr>n_lock := r_head ring + of_nat (length (r_ring ring))\<rparr>]\<rparr>)
           else (False, None, ring))"
  using node_index_in_ring[OF assms, of "r_head ring"]
  by (simp add: mm_ring_mpmc_get_def get_run.simps get_step_def mm_atomic_uintptr_cas_def Let_def
      node_index_def capacity_word[OF assms] ac_simps)



text \<open>
  Claim C9, with the lock value of the dequeue amended.  In a ring whose mask is the number
  of nodes less one: the \<open>CAS\<close> of an enqueue that loaded the tail \<open>t\<close> moves the tail from \<open>t\<close>
  to \<open>t + 1\<close> and fails, changing nothing, when the tail is no longer \<open>t\<close>; the next step
  stores the data in the node at \<open>t & mask\<close> and the one after it sets the lock of that node
  to \<open>t + 1\<close>; run alone, the enqueue succeeds exactly when the lock of the node at the tail
  equals the tail.  The \<open>CAS\<close> of a dequeue that loaded the head \<open>h\<close> moves the head from \<open>h\<close>
  to \<open>h + 1\<close>; the next step reads the data of the node at \<open>h & mask\<close> and the one after it
  sets the lock of that node to \<open>h\<close> plus the number of nodes, which is \<open>h + 1 + mask\<close>; run
  alone, the dequeue succeeds exactly when the lock of the node at the head is \<open>h + 1\<close>.
\<close>

theorem mpmc_lock_protocol:
  assumes "ring_sized ring"
  shows
    "put_step \<lparr>p_pc = PUT_CAS, p_data = d, p_tail = t\<rparr> ring =
       Some (\<lparr>p_pc = (if r_tail ring = t then PUT_STORE_DATA else PUT_RETURN False),
               p_data = d, p_tail = t\<rparr>,
             if r_tail ring = t then ring\<lparr>r_tail := t + 1\<rparr> else ring) \<and>
     put_step \<lparr>p_pc = PUT_STORE_DATA, p_data = d, p_tail = t\<rparr> ring =
       Some (\<lparr>p_pc = PUT_STORE_LOCK, p_data = d, p_tail = t\<rparr>,
             ring\<lparr>r_ring := (r_ring ring)[node_index ring t :=
                      (r_ring ring ! node_index ring t)\<lparr>n_data := d\<rparr>]\<rparr>) \<and>
     put_step \<lparr>p_pc = PUT_STORE_LOCK, p_data = d, p_tail = t\<rparr> ring =
       Some (\<lparr>p_pc = PUT_RETURN True, p_data = d, p_tail = t\<rparr>,
             ring\<lparr>r_ring := (r_ring ring)[node_index ring t :=
                      (r_ring ring ! node_index ring t)\<lparr>n_lock := t + 1\<rparr>]\<rparr>) \<and>
     mm_ring_mpmc_put ring d =
       Some (if n_lock (r_ring ring ! node_index ring (r_tail ring)) = r_tail ring
             then (True, ring\<lparr>r_tail := r_tail ring + 1,
                              r_ring := (r_ring ring)[node_index ring (r_tail ring) :=
                                 (r_ring ring ! node_index ring (r_tail ring))
                                   \<lparr>n_data := d, n_lock := r_tail ring + 1\<rparr>]\<rparr>)
             else (False, ring)) \<and>
     get_step \<lparr>g_pc = GET_CAS, g_out = out, g_head = h\<rparr> ring =
       Some (\<lparr>g_pc = (if r_head ring = h then GET_LOAD_DATA else GET_RETURN False),
               g_out = out, g_head = h\<rparr>,
             if r_head ring = h then ring\<lparr>r_head := h + 1\<rparr> else ring) \<and>
     get_step \<lparr>g_pc = GET_LOAD_DATA, g_out = out, g_head = h\<rparr> ring =
       Some (\<lparr>g_pc = GET_STORE_LOCK, g_out = Some (n_data (r_ring ring ! node_index ring h)),
               g_head = h\<rparr>, ring) \<and>
     get_step \<lparr>g_pc = GET_STORE_LOCK, g_out = out, g_head = h\<rparr> ring =
       Some (\<lparr>g_pc = GET_RETURN True, g_out = out, g_head = h\<rparr>,
             ring\<lparr>r_ring := (r_ring ring)[node_index ring h :=
                      (r_ring ring ! node_index ring h)
                        \<lparr>n_lock := h + of_nat (length (r_ring ring))\<rparr>]\<rparr>) \<and>
     mm_ring_mpmc_get ring =
       Some (if n_lock (r_ring ring ! node_index ring (r_head ring)) = r_head ring + 1
             then (True, Some (n_data (r_ring ring ! node_index ring (r_head ring))),
                   ring\<lparr>r_head := r_head ring + 1,
                        r_ring := (r_ring ring)[node_index ring (r_head ring) :=
                          (r_ring ring ! node_index ring (r_head ring))
                            \<lparr>n_lock := r_head ring + of_nat (length (r_ring ring))\<rparr>]\<rparr>)
             else (False, None, ring))"
proof -
  note i = node_index_in_ring[OF assms]
  have 1: "put_step \<lparr>p_pc = PUT_CAS, p_data = d, p_tail = t\<rparr> ring =
       Some (\<lparr>p_pc = (if r_tail ring = t then PUT_STORE_DATA else PUT_RETURN False),
               p_data = d, p_tail = t\<rparr>,
             if r_tail ring = t then ring\<lparr>r_tail := t + 1\<rparr> else ring)"
    by (simp add: put_step_def Let_def mm_atomic_uintptr_cas_def)
  have 2: "put_step \<lparr>p_pc = PUT_STORE_DATA, p_data = d, p_tail = t\<rparr> ring =
       Some (\<lparr>p_pc = PUT_STORE_LOCK, p_data = d, p_tail = t\<rparr>,
             ring\<lparr>r_ring := (r_ring ring)[node_index ring t :=
                      (r_ring ring ! node_index ring t)\<lparr>n_data := d\<rparr>]\<rparr>)"
    using i[of t] by (simp add: put_step_def Let_def)
  have 3: "put_step \<lparr>p_pc = PUT_STORE_LOCK, p_data = d, p_tail = t\<rparr> ring =
       Some (\<lparr>p_pc = PUT_RETURN True, p_data = d, p_tail = t\<rparr>,
             ring\<lparr>r_ring := (r_ring ring)[node_index ring t :=
                      (r_ring ring ! node_index ring t)\<lparr>n_lock := t + 1\<rparr>]\<rparr>)"
    using i[of t] by (simp add: put_step_def Let_def)
  have 5: "get_step \<lparr>g_pc = GET_CAS, g_out = out, g_head = h\<rparr> ring =
       Some (\<lparr>g_pc = (if r_head ring = h then GET_LOAD_DATA else GET_RETURN False),
               g_out = out, g_head = h\<rparr>,
             if r_head ring = h then ring\<lparr>r_head := h + 1\<rparr> else ring)"
    by (simp add: get_step_def Let_def mm_atomic_uintptr_cas_def)
  have 6: "get_step \<lparr>g_pc = GET_LOAD_DATA, g_out = out, g_head = h\<rparr> ring =
       Some (\<lparr>g_pc = GET_STORE_LOCK, g_out = Some (n_data (r_ring ring ! node_index ring h)),
               g_head = h\<rparr>, ring)"
    using i[of h] by (simp add: get_step_def Let_def)
  have 7: "get_step \<lparr>g_pc = GET_STORE_LOCK, g_out = out, g_head = h\<rparr> ring =
       Some (\<lparr>g_pc = GET_RETURN True, g_out = out, g_head = h\<rparr>,
             ring\<lparr>r_ring := (r_ring ring)[node_index ring h :=
                      (r_ring ring ! node_index ring h)
                        \<lparr>n_lock := h + of_nat (length (r_ring ring))\<rparr>]\<rparr>)"
    using i[of h] by (simp add: get_step_def Let_def capacity_word[OF assms] ac_simps)
  from 1 2 3 put_run_alone[OF assms, of d] 5 6 7 get_run_alone[OF assms] show ?thesis
    by blast
qed

text \<open>
  The theorem at the example ring of four nodes.
\<close>

theorem mpmc_lock_protocol_witness:
  "ring_sized ex_ring \<and>
     put_step \<lparr>p_pc = PUT_CAS, p_data = 7, p_tail = 0\<rparr> ex_ring =
       Some (\<lparr>p_pc = (if r_tail ex_ring = 0 then PUT_STORE_DATA else PUT_RETURN False),
               p_data = 7, p_tail = 0\<rparr>,
             if r_tail ex_ring = 0 then ex_ring\<lparr>r_tail := 0 + 1\<rparr> else ex_ring) \<and>
     put_step \<lparr>p_pc = PUT_STORE_DATA, p_data = 7, p_tail = 0\<rparr> ex_ring =
       Some (\<lparr>p_pc = PUT_STORE_LOCK, p_data = 7, p_tail = 0\<rparr>,
             ex_ring\<lparr>r_ring := (r_ring ex_ring)[node_index ex_ring 0 :=
                      (r_ring ex_ring ! node_index ex_ring 0)\<lparr>n_data := 7\<rparr>]\<rparr>) \<and>
     put_step \<lparr>p_pc = PUT_STORE_LOCK, p_data = 7, p_tail = 0\<rparr> ex_ring =
       Some (\<lparr>p_pc = PUT_RETURN True, p_data = 7, p_tail = 0\<rparr>,
             ex_ring\<lparr>r_ring := (r_ring ex_ring)[node_index ex_ring 0 :=
                      (r_ring ex_ring ! node_index ex_ring 0)\<lparr>n_lock := 0 + 1\<rparr>]\<rparr>) \<and>
     mm_ring_mpmc_put ex_ring 7 =
       Some (if n_lock (r_ring ex_ring ! node_index ex_ring (r_tail ex_ring)) = r_tail ex_ring
             then (True, ex_ring\<lparr>r_tail := r_tail ex_ring + 1,
                              r_ring := (r_ring ex_ring)[node_index ex_ring (r_tail ex_ring) :=
                                 (r_ring ex_ring ! node_index ex_ring (r_tail ex_ring))
                                   \<lparr>n_data := 7, n_lock := r_tail ex_ring + 1\<rparr>]\<rparr>)
             else (False, ex_ring)) \<and>
     get_step \<lparr>g_pc = GET_CAS, g_out = None, g_head = 0\<rparr> ex_ring =
       Some (\<lparr>g_pc = (if r_head ex_ring = 0 then GET_LOAD_DATA else GET_RETURN False),
               g_out = None, g_head = 0\<rparr>,
             if r_head ex_ring = 0 then ex_ring\<lparr>r_head := 0 + 1\<rparr> else ex_ring) \<and>
     get_step \<lparr>g_pc = GET_LOAD_DATA, g_out = None, g_head = 0\<rparr> ex_ring =
       Some (\<lparr>g_pc = GET_STORE_LOCK, g_out = Some (n_data (r_ring ex_ring ! node_index ex_ring 0)),
               g_head = 0\<rparr>, ex_ring) \<and>
     get_step \<lparr>g_pc = GET_STORE_LOCK, g_out = None, g_head = 0\<rparr> ex_ring =
       Some (\<lparr>g_pc = GET_RETURN True, g_out = None, g_head = 0\<rparr>,
             ex_ring\<lparr>r_ring := (r_ring ex_ring)[node_index ex_ring 0 :=
                      (r_ring ex_ring ! node_index ex_ring 0)
                        \<lparr>n_lock := 0 + of_nat (length (r_ring ex_ring))\<rparr>]\<rparr>) \<and>
     mm_ring_mpmc_get ex_ring =
       Some (if n_lock (r_ring ex_ring ! node_index ex_ring (r_head ex_ring)) = r_head ex_ring + 1
             then (True, Some (n_data (r_ring ex_ring ! node_index ex_ring (r_head ex_ring))),
                   ex_ring\<lparr>r_head := r_head ex_ring + 1,
                        r_ring := (r_ring ex_ring)[node_index ex_ring (r_head ex_ring) :=
                          (r_ring ex_ring ! node_index ex_ring (r_head ex_ring))
                            \<lparr>n_lock := r_head ex_ring + of_nat (length (r_ring ex_ring))\<rparr>]\<rparr>)
             else (False, None, ex_ring))"
proof -
  have s: "ring_sized ex_ring" by (simp add: ring_sized_def ex_ring_def)
  from mpmc_lock_protocol[OF s, of 7 0 None 0] s show ?thesis by blast
qed

text \<open>
  Claim C9 as stated, at the example ring of four nodes: after an enqueue of 7, the dequeue
  at head 0 returns 7 and leaves 4 in the lock of node 0, the head plus the number of
  nodes, and not \<open>0 + 1 + 4\<close>.
\<close>

theorem dequeue_lock_is_not_head_plus_one_plus_capacity:
  "\<exists>ring1 ring2.
     mm_ring_mpmc_put ex_ring 7 = Some (True, ring1) \<and>
     mm_ring_mpmc_get ring1 = Some (True, Some 7, ring2) \<and>
     length (r_ring ring1) = 4 \<and> r_head ring1 = 0 \<and> r_head ring2 = 1 \<and>
     n_lock (r_ring ring2 ! node_index ring1 (r_head ring1)) = 4 \<and>
     n_lock (r_ring ring2 ! node_index ring1 (r_head ring1)) \<noteq>
       r_head ring1 + 1 + of_nat (length (r_ring ring1))"
proof -
  have s: "ring_sized ex_ring" by (simp add: ring_sized_def ex_ring_def)
  define ring1 where "ring1 = ex_ring\<lparr>r_tail := 1,
     r_ring := [\<lparr>n_data = 7, n_lock = 1\<rparr>, \<lparr>n_data = 0, n_lock = 1\<rparr>,
                \<lparr>n_data = 0, n_lock = 2\<rparr>, \<lparr>n_data = 0, n_lock = 3\<rparr>]\<rparr>"
  define ring2 where "ring2 = ring1\<lparr>r_head := 1,
     r_ring := [\<lparr>n_data = 7, n_lock = 4\<rparr>, \<lparr>n_data = 0, n_lock = 1\<rparr>,
                \<lparr>n_data = 0, n_lock = 2\<rparr>, \<lparr>n_data = 0, n_lock = 3\<rparr>]\<rparr>"
  have s1: "ring_sized ring1" by (simp add: ring_sized_def ring1_def ex_ring_def)
  have p: "mm_ring_mpmc_put ex_ring 7 = Some (True, ring1)"
    unfolding put_run_alone[OF s] by (simp add: ex_ring_def node_index_def ring1_def)
  have g: "mm_ring_mpmc_get ring1 = Some (True, Some 7, ring2)"
    unfolding get_run_alone[OF s1] by (simp add: ex_ring_def node_index_def ring1_def ring2_def)
  have "length (r_ring ring1) = 4" "r_head ring1 = 0" "r_head ring2 = 1"
     "n_lock (r_ring ring2 ! node_index ring1 (r_head ring1)) = 4"
     "n_lock (r_ring ring2 ! node_index ring1 (r_head ring1)) \<noteq>
       r_head ring1 + 1 + of_nat (length (r_ring ring1))"
    by (simp_all add: ring1_def ring2_def ex_ring_def node_index_def)
  with p g show ?thesis by blast
qed



section \<open>Parse errors and the limit on junk\<close>



declare mc_parse_error_loop.simps [simp del] mc_parse_command_loop.simps [simp del]

lemma next_out_True:
  assumes "mm_buffer_next_out cur = (True, cur')"
  shows "remaining cur' = concat (cur_next cur)" and "cursor_ok cur'"
    and "length (cur_next cur') < length (cur_next cur)" and "window cur' @ concat (cur_next cur') = concat (cur_next cur)"
  using assms
  by (auto simp: mm_buffer_next_out_def remaining_def window_def cursor_ok_def split: list.splits)

lemma next_out_False:
  assumes "mm_buffer_next_out cur = (False, cur')"
  shows "cur' = cur" and "cur_next cur = []"
  using assms by (auto simp: mm_buffer_next_out_def split: list.splits)

lemma length_window: "cursor_ok cur \<Longrightarrow> length (window cur) = cur_end cur - cur_ptr cur"
  by (simp add: window_def cursor_ok_def)

lemma window_advance:
  "window (cur\<lparr>cur_ptr := cur_ptr cur + n\<rparr>) = drop n (window cur)"
  by (simp add: window_def add.commute)

lemma tl_dropWhile_eq_drop:
  "tl (dropWhile P xs) = drop (length (takeWhile P xs) + 1) xs"
  by (induction xs) simp_all

lemma takeWhile_lt: "x \<in> set xs \<Longrightarrow> length (takeWhile (\<lambda>y. y \<noteq> x) xs) < length xs"
  by (induction xs) auto

lemma dropWhile_append_in:
  "x \<in> set xs \<Longrightarrow> dropWhile (\<lambda>y. y \<noteq> x) (xs @ ys) = dropWhile (\<lambda>y. y \<noteq> x) xs @ ys"
  by (induction xs) auto

lemma dropWhile_append_notin:
  "x \<notin> set xs \<Longrightarrow> dropWhile (\<lambda>y. y \<noteq> x) (xs @ ys) = dropWhile (\<lambda>y. y \<noteq> x) ys"
  by (induction xs) auto

lemma error_loop_found:
  assumes "LF \<in> set (remaining (ps_cursor p))" and "cursor_ok (ps_cursor p)"
  shows "\<exists>p'. mc_parse_error_loop p err = (True, p') \<and>
           remaining (ps_cursor p') = tl (dropWhile (\<lambda>c. c \<noteq> LF) (remaining (ps_cursor p))) \<and>
           cursor_ok (ps_cursor p') \<and>
           ps_command p' = mc_reply (ps_command p) err \<and>
           ps_state p' = ps_state p \<and> ps_error p' = ps_error p"
  using assms
proof (induction p err rule: mc_parse_error_loop.induct)
  case (1 parser error_string)
  let ?cur = "ps_cursor parser"
  show ?case
  proof (cases "LF \<in> set (window ?cur)")
    case True
    let ?i = "length (takeWhile (\<lambda>x. x \<noteq> LF) (window ?cur))"
    have m: "memchr (window ?cur) LF = Some ?i" using True by (simp add: memchr_def)
    have lt: "?i < cur_end ?cur - cur_ptr ?cur"
      using takeWhile_lt[OF True] length_window[OF "1.prems"(2)] by simp
    have ok: "cursor_ok (?cur\<lparr>cur_ptr := cur_ptr ?cur + ?i + 1\<rparr>)"
      using "1.prems"(2) lt by (simp add: cursor_ok_def)
    have w: "window (?cur\<lparr>cur_ptr := cur_ptr ?cur + ?i + 1\<rparr>) = drop (?i + 1) (window ?cur)"
      using window_advance[of ?cur "?i + 1"] by (simp add: add.assoc)
    have r: "remaining (?cur\<lparr>cur_ptr := cur_ptr ?cur + ?i + 1\<rparr>) =
        tl (dropWhile (\<lambda>c. c \<noteq> LF) (remaining ?cur))"
      unfolding remaining_def dropWhile_append_in[OF True] w
      using True by (simp add: tl_dropWhile_eq_drop dropWhile_eq_Nil_conv)
    show ?thesis
      using m ok r by (simp add: mc_parse_error_loop.simps[of parser] Let_def)
  next
    case False
    then have m: "memchr (window ?cur) LF = None" by (simp add: memchr_def)
    from False "1.prems"(1) have inx: "LF \<in> set (concat (cur_next ?cur))"
      by (auto simp: remaining_def)
    then have "cur_next ?cur \<noteq> []" by auto
    then obtain cur' where n: "mm_buffer_next_out ?cur = (True, cur')"
      by (cases "cur_next ?cur") (auto simp: mm_buffer_next_out_def)
    note no = next_out_True[OF n]
    have "\<exists>p'. mc_parse_error_loop (parser\<lparr>ps_cursor := cur'\<rparr>) error_string = (True, p') \<and>
           remaining (ps_cursor p') =
             tl (dropWhile (\<lambda>c. c \<noteq> LF) (remaining (ps_cursor (parser\<lparr>ps_cursor := cur'\<rparr>)))) \<and>
           cursor_ok (ps_cursor p') \<and>
           ps_command p' = mc_reply (ps_command (parser\<lparr>ps_cursor := cur'\<rparr>)) error_string \<and>
           ps_state p' = ps_state (parser\<lparr>ps_cursor := cur'\<rparr>) \<and>
           ps_error p' = ps_error (parser\<lparr>ps_cursor := cur'\<rparr>)"
      using inx no by (intro "1.IH"[OF refl m n[symmetric] refl]) simp_all
    then obtain p' where p': "mc_parse_error_loop (parser\<lparr>ps_cursor := cur'\<rparr>) error_string = (True, p')"
      "remaining (ps_cursor p') = tl (dropWhile (\<lambda>c. c \<noteq> LF) (remaining cur'))"
      "cursor_ok (ps_cursor p')" "ps_command p' = mc_reply (ps_command parser) error_string"
      "ps_state p' = ps_state parser" "ps_error p' = ps_error parser"
      by auto
    have d: "dropWhile (\<lambda>c. c \<noteq> LF) (remaining ?cur) = dropWhile (\<lambda>c. c \<noteq> LF) (remaining cur')"
      unfolding no(1) remaining_def[of ?cur] by (rule dropWhile_append_notin[OF False])
    show ?thesis
      using m n p' d by (simp add: mc_parse_error_loop.simps[of parser] Let_def)
  qed
qed

lemma error_loop_missing:
  assumes "LF \<notin> set (remaining (ps_cursor p))"
  shows "\<exists>p'. mc_parse_error_loop p err = (False, p') \<and>
           ps_command p' = ps_command p \<and> ps_state p' = ps_state p \<and> ps_error p' = ps_error p"
  using assms
proof (induction p err rule: mc_parse_error_loop.induct)
  case (1 parser error_string)
  let ?cur = "ps_cursor parser"
  from "1.prems" have m: "memchr (window ?cur) LF = None" by (simp add: memchr_def remaining_def)
  show ?case
  proof (cases "cur_next ?cur")
    case Nil
    then show ?thesis
      using m by (simp add: mc_parse_error_loop.simps[of parser] Let_def mm_buffer_next_out_def)
  next
    case (Cons seg segs)
    then obtain cur' where n: "mm_buffer_next_out ?cur = (True, cur')"
      by (auto simp: mm_buffer_next_out_def)
    note no = next_out_True[OF n]
    have "LF \<notin> set (remaining (ps_cursor (parser\<lparr>ps_cursor := cur'\<rparr>)))"
      using "1.prems" no(1) by (simp add: remaining_def[of ?cur])
    from "1.IH"[OF refl m n[symmetric] refl this]
    show ?thesis using m n by (simp add: mc_parse_error_loop.simps[of parser] Let_def)
  qed
qed



lemma char_int_LF: "char_int LF = 10"
  by (simp add: char_int_def LF_def)

lemma take_bit_start_LF:
  "take_bit 8 start = 0 \<Longrightarrow> take_bit 8 (start OR char_int LF) = (10 :: 32 word)"
  by (simp add: char_int_LF take_bit_or)

lemma take_bit_push:
  "take_bit 8 (push_bit 24 x :: 32 word) = 0"
  "take_bit 8 (start OR push_bit 16 x :: 32 word) = take_bit 8 start"
  "take_bit 8 (start OR push_bit 8 x :: 32 word) = take_bit 8 start"
  "take_bit 8 (push_bit 16 x :: 32 word) = 0"
  "take_bit 8 (push_bit 8 x :: 32 word) = 0"
  by (simp_all add: take_bit_or take_bit_push_bit)

lemma command_start_next:
  assumes "command_start sc command = SCAN_NEXT sc' command'" and "LF \<notin> set (sc_rest sc)"
  shows "take_bit 8 (sc_start sc) \<noteq> 10" and "LF \<notin> set (sc_rest sc')"
    and "sc_state sc' = S_CMD_REST \<or> sc_state sc' = S_EOL_0"
  using assms
  by (auto simp: command_start_def Let_def rest_of_def C_macro_def char_int_def LF_def
      split: if_splits)


lemma command_start_exit:
  "command_start sc command = SCAN_ERROR n command' \<Longrightarrow> n = 0"
  "command_start sc command = SCAN_LEAVE n command' \<Longrightarrow> n = 1"
  by (auto simp: command_start_def Let_def rest_of_def split: if_splits)

lemma eol_steps:
  "eol_1 command c = SCAN_ERROR n command' \<Longrightarrow> n = 1 \<and> c \<noteq> LF"
  "eol_1 command c = SCAN_LEAVE n command' \<Longrightarrow> n = 1"
  "eol_1 command c \<noteq> SCAN_NEXT sc' command'"
  "eol_0 sc command c = SCAN_ERROR n command' \<Longrightarrow> n = 1 \<and> c \<noteq> LF"
  "eol_0 sc command c = SCAN_LEAVE n command' \<Longrightarrow> n = 1"
  "eol_0 sc command c = SCAN_NEXT sc' command' \<Longrightarrow>
     c \<noteq> LF \<and> sc_rest sc' = sc_rest sc \<and> (sc_state sc' = S_EOL_1 \<or> sc' = sc)"
  by (auto simp: eol_0_def eol_1_def LF_def CR_def split: if_splits)

lemma rest_char_LF: "LF \<notin> set rest \<Longrightarrow> rest_char rest \<noteq> LF"
  by (cases rest) (auto simp: rest_char_def LF_def)

lemma parse_char_next:
  assumes "parse_char sc command c = SCAN_NEXT sc' command'" and "scanner_inv sc"
  shows "c \<noteq> LF" and "scanner_inv sc'"
proof -
  have "c \<noteq> LF \<and> scanner_inv sc'"
  proof (cases "sc_state sc")
    case S_START
    with assms show ?thesis
      by (auto simp: parse_char_def scanner_inv_def take_bit_push LF_def split: if_splits)
  next
    case S_CMD_1
    with assms show ?thesis
      by (auto simp: parse_char_def scanner_inv_def take_bit_push split: if_splits)
  next
    case S_CMD_2
    with assms show ?thesis
      by (auto simp: parse_char_def scanner_inv_def take_bit_push split: if_splits)
  next
    case S_CMD_3
    with assms have cs: "command_start (sc\<lparr>sc_start := sc_start sc OR char_int c\<rparr>) command =
        SCAN_NEXT sc' command'"
      and z: "take_bit 8 (sc_start sc) = 0" and r: "LF \<notin> set (sc_rest sc)"
      by (simp_all add: parse_char_def scanner_inv_def)
    from command_start_next[OF cs] r have
      a: "take_bit 8 (sc_start sc OR char_int c) \<noteq> 10" and b: "LF \<notin> set (sc_rest sc')"
      and c: "sc_state sc' = S_CMD_REST \<or> sc_state sc' = S_EOL_0" by simp_all
    from a take_bit_start_LF[OF z] have "c \<noteq> LF" by auto
    with b c show ?thesis by (auto simp: scanner_inv_def)
  next
    case S_CMD_REST
    from assms(2) have r: "LF \<notin> set (sc_rest sc)" by (simp add: scanner_inv_def)
    then have r': "LF \<notin> set (tl (sc_rest sc))" by (cases "sc_rest sc") auto
    from S_CMD_REST assms(1) r r' rest_char_LF[OF r] show ?thesis
      by (auto simp: parse_char_def scanner_inv_def split: if_splits dest!: eol_steps(6))
  next
    case S_EOL_0
    with assms show ?thesis
      by (auto simp: parse_char_def scanner_inv_def dest!: eol_steps(6))
  next
    case S_EOL_1
    with assms show ?thesis by (simp add: parse_char_def eol_steps(3))
  qed
  then show "c \<noteq> LF" and "scanner_inv sc'" by simp_all
qed

lemma parse_char_error:
  assumes "parse_char sc command c = SCAN_ERROR n command'"
  shows "n = 0 \<or> (n = 1 \<and> c \<noteq> LF)"
  using assms
  by (cases "sc_state sc")
     (auto simp: parse_char_def LF_def split: if_splits
           dest: command_start_exit eol_steps(1) eol_steps(4))

lemma parse_char_leave:
  assumes "parse_char sc command c = SCAN_LEAVE n command'"
  shows "n \<le> 1"
  using assms
  by (cases "sc_state sc")
     (auto simp: parse_char_def split: if_splits
           dest: command_start_exit eol_steps(2) eol_steps(5))

lemma scan_next:
  "scan bytes s sc command = SCAN_NEXT sc' command' \<Longrightarrow> scanner_inv sc \<Longrightarrow>
     LF \<notin> set bytes \<and> scanner_inv sc'"
proof (induction bytes arbitrary: s sc command)
  case Nil
  then show ?case by simp
next
  case (Cons c bytes)
  from Cons.prems(1) obtain sc1 command1 where
    p: "parse_char sc command c = SCAN_NEXT sc1 command1"
    and r: "scan bytes (s + 1) sc1 command1 = SCAN_NEXT sc' command'"
    by (auto split: scan_step.splits)
  from parse_char_next[OF p Cons.prems(2)] Cons.IH[OF r] show ?case by simp
qed

lemma scan_error:
  "scan bytes s sc command = SCAN_ERROR p command' \<Longrightarrow> scanner_inv sc \<Longrightarrow>
     s \<le> p \<and> p \<le> s + length bytes \<and> LF \<notin> set (take (p - s) bytes)"
proof (induction bytes arbitrary: s sc command)
  case Nil
  then show ?case by simp
next
  case (Cons c bytes)
  show ?case
  proof (cases "parse_char sc command c")
    case (SCAN_NEXT sc1 command1)
    with Cons.prems(1) have r: "scan bytes (s + 1) sc1 command1 = SCAN_ERROR p command'" by simp
    from parse_char_next[OF SCAN_NEXT Cons.prems(2)] Cons.IH[OF r]
    have a: "c \<noteq> LF" "s + 1 \<le> p" "p \<le> s + 1 + length bytes" "LF \<notin> set (take (p - (s + 1)) bytes)"
      by simp_all
    from a(2) obtain k where k: "p - s = Suc k" "p - (s + 1) = k" by (cases "p - s") auto
    show ?thesis using a unfolding k by (simp add: k[symmetric])
  next
    case (SCAN_LEAVE n command1)
    with Cons.prems(1) show ?thesis by simp
  next
    case (SCAN_ERROR n command1)
    with Cons.prems(1) have e: "p = s + n" by simp
    from parse_char_error[OF SCAN_ERROR] e show ?thesis by auto
  qed
qed

lemma scan_leave:
  "scan bytes s sc command = SCAN_LEAVE p command' \<Longrightarrow> s \<le> p \<and> p \<le> s + length bytes"
proof (induction bytes arbitrary: s sc command)
  case Nil
  then show ?case by simp
next
  case (Cons c bytes)
  show ?case
  proof (cases "parse_char sc command c")
    case (SCAN_NEXT sc1 command1)
    with Cons.prems(1) have r: "scan bytes (s + 1) sc1 command1 = SCAN_LEAVE p command'" by simp
    from Cons.IH[OF r] show ?thesis by simp
  next
    case (SCAN_LEAVE n command1)
    with Cons.prems(1) have e: "p = s + n" by simp
    from parse_char_leave[OF SCAN_LEAVE] e show ?thesis by simp
  next
    case (SCAN_ERROR n command1)
    with Cons.prems(1) show ?thesis by simp
  qed
qed



lemma more_input_cases:
  "mc_more_input p count = (rc, p') \<Longrightarrow>
     (1024 < count \<and> \<not> rc \<and>
        p' = p\<lparr>ps_command := (ps_command p)\<lparr>c_result := MC_RESULT_QUIT\<rparr>,
               ps_state := (ps_state p)\<lparr>st_quit := True\<rparr>\<rparr>) \<or>
     (count \<le> 1024 \<and> (\<exists>cur'. mm_buffer_next_out (ps_cursor p) = (rc, cur') \<and>
        p' = p\<lparr>ps_cursor := cur'\<rparr>))"
  by (auto simp: mc_more_input_def split: if_splits prod.splits)

lemma remaining_advance:
  assumes "cur_ptr cur \<le> q"
  shows "remaining cur = take (q - cur_ptr cur) (window cur) @ remaining (cur\<lparr>cur_ptr := q\<rparr>)"
proof -
  from assms have "q = cur_ptr cur + (q - cur_ptr cur)" by simp
  then have "window (cur\<lparr>cur_ptr := q\<rparr>) = drop (q - cur_ptr cur) (window cur)"
    using window_advance[of cur "q - cur_ptr cur"] by simp
  then show ?thesis by (simp add: remaining_def)
qed

lemma command_loop_spec:
  assumes "mc_parse_command_loop p sc count = (rc, p')"
      and "cursor_ok (ps_cursor p)" and "scanner_inv sc" and "\<not> ps_error p"
  shows "(ps_error p' \<longrightarrow> ps_state p' = ps_state p \<and>
            (if LF \<in> set (remaining (ps_cursor p))
             then rc \<and> c_result (ps_command p') = MC_RESULT_REPLY (''ERROR'' @ crlf) \<and>
                  remaining (ps_cursor p') =
                    tl (dropWhile (\<lambda>c. c \<noteq> LF) (remaining (ps_cursor p)))
             else \<not> rc)) \<and>
         (st_quit (ps_state p') \<and> \<not> st_quit (ps_state p) \<longrightarrow>
            \<not> rc \<and> \<not> ps_error p' \<and> c_result (ps_command p') = MC_RESULT_QUIT \<and>
            1024 < count + int (length (remaining (ps_cursor p))))"
  using assms
proof (induction "length (cur_next (ps_cursor p))" arbitrary: p sc count rule: less_induct)
  case less
  let ?cur = "ps_cursor p"
  note run = less.prems(1) and ok = less.prems(2) and inv = less.prems(3) and ne = less.prems(4)
  show ?case
  proof (cases "scan (window ?cur) (cur_ptr ?cur) sc (ps_command p)")
    case (SCAN_LEAVE q command)
    with run have "p' = p\<lparr>ps_cursor := ?cur\<lparr>cur_ptr := q\<rparr>, ps_command := command\<rparr>"
      by (simp add: mc_parse_command_loop.simps[of p] Let_def)
    with ne show ?thesis by simp
  next
    case (SCAN_ERROR q command)
    define p1 where "p1 = p\<lparr>ps_cursor := ?cur\<lparr>cur_ptr := q\<rparr>, ps_command := command, ps_error := True\<rparr>"
    from SCAN_ERROR run have r: "mc_parse_error_loop p1 (''ERROR'' @ crlf) = (rc, p')"
      by (simp add: mc_parse_command_loop.simps[of p] Let_def mc_parse_error_def p1_def)
    from scan_error[OF SCAN_ERROR inv] have q: "cur_ptr ?cur \<le> q" "q \<le> cur_ptr ?cur + length (window ?cur)"
      and nolf: "LF \<notin> set (take (q - cur_ptr ?cur) (window ?cur))" by simp_all
    have rem: "remaining ?cur = take (q - cur_ptr ?cur) (window ?cur) @ remaining (ps_cursor p1)"
      using remaining_advance[OF q(1)] by (simp add: p1_def)
    have mem: "LF \<in> set (remaining ?cur) \<longleftrightarrow> LF \<in> set (remaining (ps_cursor p1))"
      using nolf by (subst rem) auto
    have dw: "dropWhile (\<lambda>c. c \<noteq> LF) (remaining ?cur) =
              dropWhile (\<lambda>c. c \<noteq> LF) (remaining (ps_cursor p1))"
      by (subst rem) (rule dropWhile_append_notin[OF nolf])
    have ok1: "cursor_ok (ps_cursor p1)"
      using ok q length_window[OF ok] by (simp add: p1_def cursor_ok_def)
    show ?thesis
    proof (cases "LF \<in> set (remaining (ps_cursor p1))")
      case True
      from error_loop_found[OF True ok1, of "''ERROR'' @ crlf"] r
      have "rc" "remaining (ps_cursor p') = tl (dropWhile (\<lambda>c. c \<noteq> LF) (remaining (ps_cursor p1)))"
        "ps_command p' = mc_reply (ps_command p1) (''ERROR'' @ crlf)" "ps_state p' = ps_state p1"
        by auto
      then show ?thesis using True mem dw by (simp add: p1_def mc_reply_def)
    next
      case False
      from error_loop_missing[OF False, of "''ERROR'' @ crlf"] r
      have "\<not> rc" "ps_state p' = ps_state p1" by auto
      then show ?thesis using False mem by (simp add: p1_def)
    qed
  next
    case (SCAN_NEXT sc1 command)
    let ?count = "count + (int (cur_end ?cur) - int (cur_ptr ?cur))"
    from scan_next[OF SCAN_NEXT inv] have nolf: "LF \<notin> set (window ?cur)" and inv1: "scanner_inv sc1"
      by simp_all
    have cnt: "?count = count + int (length (window ?cur))"
      using length_window[OF ok] ok by (simp add: cursor_ok_def)
    obtain rc1 p2 where m: "mc_more_input (p\<lparr>ps_command := command\<rparr>) ?count = (rc1, p2)"
      by (cases "mc_more_input (p\<lparr>ps_command := command\<rparr>) ?count") auto
    from more_input_cases[OF m] consider
      (quit) "1024 < ?count" "\<not> rc1"
        "p2 = p\<lparr>ps_command := command\<lparr>c_result := MC_RESULT_QUIT\<rparr>,
                ps_state := (ps_state p)\<lparr>st_quit := True\<rparr>\<rparr>"
      | (more) cur' where "?count \<le> 1024" "mm_buffer_next_out ?cur = (rc1, cur')"
        "p2 = p\<lparr>ps_command := command, ps_cursor := cur'\<rparr>"
      by auto
    then show ?thesis
    proof cases
      case quit
      with run SCAN_NEXT m have "rc = False" "p' = p2"
        by (simp_all add: mc_parse_command_loop.simps[of p] Let_def)
      with quit ne cnt show ?thesis by (simp add: remaining_def)
    next
      case more
      show ?thesis
      proof (cases rc1)
        case False
        with run SCAN_NEXT m have "rc = False" "p' = p2"
          by (simp_all add: mc_parse_command_loop.simps[of p] Let_def)
        with more ne show ?thesis by simp
      next
        case True
        with run SCAN_NEXT m have r: "mc_parse_command_loop p2 sc1 ?count = (rc, p')"
          by (simp add: mc_parse_command_loop.simps[of p] Let_def)
        from more(2) True have n: "mm_buffer_next_out ?cur = (True, cur')" by simp
        note no = next_out_True[OF n]
        have lt: "length (cur_next (ps_cursor p2)) < length (cur_next ?cur)"
          using no(3) more(3) by simp
        have ok2: "cursor_ok (ps_cursor p2)" using no(2) more(3) by simp
        have ne2: "\<not> ps_error p2" using ne more(3) by simp
        note ih = less.hyps[OF lt r ok2 inv1 ne2]
        have rem: "remaining ?cur = window ?cur @ remaining (ps_cursor p2)"
          using no(1) more(3) by (simp add: remaining_def[of ?cur])
        have mem: "LF \<in> set (remaining ?cur) \<longleftrightarrow> LF \<in> set (remaining (ps_cursor p2))"
          using nolf by (subst rem) auto
        have dw: "dropWhile (\<lambda>c. c \<noteq> LF) (remaining ?cur) =
                  dropWhile (\<lambda>c. c \<noteq> LF) (remaining (ps_cursor p2))"
          by (subst rem) (rule dropWhile_append_notin[OF nolf])
        have ln: "?count + int (length (remaining (ps_cursor p2))) =
                  count + int (length (remaining ?cur))"
          unfolding cnt by (subst rem) simp
        have st: "ps_state p2 = ps_state p" using more(3) by simp
        show ?thesis using ih unfolding mem dw ln st by blast
      qed
    qed
  qed
qed



lemma scan_spaces:
  "set bytes \<subseteq> {CHR '' ''} \<Longrightarrow> sc_state sc = S_START \<Longrightarrow>
     scan bytes s sc command = SCAN_NEXT sc command"
  by (induction bytes arbitrary: s) (simp_all add: parse_char_def LF_def)

lemma command_loop_spaces:
  assumes "set (remaining (ps_cursor p)) \<subseteq> {CHR '' ''}" and "cursor_ok (ps_cursor p)"
      and "sc_state sc = S_START"
  shows "\<exists>p'. mc_parse_command_loop p sc count = (False, p') \<and> ps_error p' = ps_error p \<and>
           st_quit (ps_state p') =
             (st_quit (ps_state p) \<or> 1024 < count + int (length (remaining (ps_cursor p)))) \<and>
           c_result (ps_command p') =
             (if 1024 < count + int (length (remaining (ps_cursor p))) then MC_RESULT_QUIT
              else c_result (ps_command p))"
  using assms
proof (induction "length (cur_next (ps_cursor p))" arbitrary: p count rule: less_induct)
  case less
  let ?cur = "ps_cursor p"
  note sp = less.prems(1) and ok = less.prems(2) and st = less.prems(3)
  let ?count = "count + (int (cur_end ?cur) - int (cur_ptr ?cur))"
  have w: "set (window ?cur) \<subseteq> {CHR '' ''}" using sp by (auto simp: remaining_def)
  have sc: "scan (window ?cur) (cur_ptr ?cur) sc (ps_command p) = SCAN_NEXT sc (ps_command p)"
    by (rule scan_spaces[OF w st])
  have cnt: "?count = count + int (length (window ?cur))"
    using length_window[OF ok] ok by (simp add: cursor_ok_def)
  have le: "?count \<le> count + int (length (remaining ?cur))"
    unfolding cnt by (simp add: remaining_def)
  show ?case
  proof (cases "1024 < ?count")
    case True
    then show ?thesis
      using sc le by (simp add: mc_parse_command_loop.simps[of p] Let_def mc_more_input_def)
  next
    case False
    show ?thesis
    proof (cases "cur_next ?cur")
      case Nil
      then have "remaining ?cur = window ?cur" by (simp add: remaining_def)
      with False cnt have "\<not> 1024 < count + int (length (remaining ?cur))" by simp
      then show ?thesis
        using sc False Nil
        by (simp add: mc_parse_command_loop.simps[of p] Let_def mc_more_input_def
            mm_buffer_next_out_def)
    next
      case (Cons seg segs)
      then obtain cur' where n: "mm_buffer_next_out ?cur = (True, cur')"
        by (simp add: mm_buffer_next_out_def)
      note no = next_out_True[OF n]
      let ?p2 = "p\<lparr>ps_cursor := cur'\<rparr>"
      have lt: "length (cur_next (ps_cursor ?p2)) < length (cur_next ?cur)" using no(3) by simp
      have sp2: "set (remaining (ps_cursor ?p2)) \<subseteq> {CHR '' ''}"
        using sp no(1) by (auto simp: remaining_def[of ?cur])
      have ok2: "cursor_ok (ps_cursor ?p2)" using no(2) by simp
      have ln: "?count + int (length (remaining (ps_cursor ?p2))) =
                count + int (length (remaining ?cur))"
        unfolding cnt using no(1) by (simp add: remaining_def[of ?cur])
      have "\<exists>p'. mc_parse_command_loop ?p2 sc ?count = (False, p') \<and> ps_error p' = ps_error p \<and>
           st_quit (ps_state p') =
              (st_quit (ps_state p) \<or> 1024 < count + int (length (remaining ?cur))) \<and>
           c_result (ps_command p') =
              (if 1024 < count + int (length (remaining ?cur)) then MC_RESULT_QUIT
               else c_result (ps_command p))"
        using less.hyps[OF lt sp2 ok2 st, of ?count] unfolding ln by auto
      then obtain p' where
        r: "mc_parse_command_loop ?p2 sc ?count = (False, p')" "ps_error p' = ps_error p"
           "st_quit (ps_state p') =
              (st_quit (ps_state p) \<or> 1024 < count + int (length (remaining ?cur)))"
           "c_result (ps_command p') =
              (if 1024 < count + int (length (remaining ?cur)) then MC_RESULT_QUIT
               else c_result (ps_command p))"
        by blast
      have "mc_parse_command_loop p sc count = (False, p')"
        using sc False n r(1)
        by (simp add: mc_parse_command_loop.simps[of p] Let_def mc_more_input_def)
      with r show ?thesis by blast
    qed
  qed
qed

lemma start_scanner_inv: "scanner_inv \<lparr>sc_state = S_START, sc_start = - 1, sc_rest = []\<rparr>"
  by (simp add: scanner_inv_def)

text \<open>
  What the code does on a failed line.  For a parser whose cursor points into its segment
  and that has no error yet.  \<open>mc_parse_error\<close>: when a line feed is in the input from the cursor on, it
  returns true with the error flag set, the result of the command is the given reply, the
  cursor is just behind the first line feed and the connection state is as before; when
  there is none, it returns false with the error flag set and leaves the command and the
  connection state as they are, whatever the amount of input.  \<open>mc_parse_command\<close>: when it
  ends with the error flag set, the connection state is as before, and either a line feed
  was in the input, it returns true, the result is the reply \<open>ERROR\<close> and the cursor is just
  behind the first line feed, or there was none and it returns false; it sets the quit flag
  only when it returns false with the result \<open>QUIT\<close> and more than 1024 bytes of input were
  there; and on input that is all blank it returns false without an error, the quit flag
  set exactly when there are more than 1024 blanks (or it was set before).
\<close>

theorem parse_failure_skips_line:
  assumes "cursor_ok (ps_cursor p)" and "\<not> ps_error p"
  shows
    "(LF \<in> set (remaining (ps_cursor p)) \<longrightarrow>
        fst (mc_parse_error p err) \<and> ps_error (snd (mc_parse_error p err)) \<and>
        c_result (ps_command (snd (mc_parse_error p err))) = MC_RESULT_REPLY err \<and>
        remaining (ps_cursor (snd (mc_parse_error p err))) =
          tl (dropWhile (\<lambda>c. c \<noteq> LF) (remaining (ps_cursor p))) \<and>
        ps_state (snd (mc_parse_error p err)) = ps_state p) \<and>
     (LF \<notin> set (remaining (ps_cursor p)) \<longrightarrow>
        \<not> fst (mc_parse_error p err) \<and> ps_error (snd (mc_parse_error p err)) \<and>
        ps_command (snd (mc_parse_error p err)) = ps_command p \<and>
        ps_state (snd (mc_parse_error p err)) = ps_state p) \<and>
     (ps_error (snd (mc_parse_command p)) \<longrightarrow>
        ps_state (snd (mc_parse_command p)) = ps_state p \<and>
        (if LF \<in> set (remaining (ps_cursor p))
         then fst (mc_parse_command p) \<and>
              c_result (ps_command (snd (mc_parse_command p))) = MC_RESULT_REPLY (''ERROR'' @ crlf) \<and>
              remaining (ps_cursor (snd (mc_parse_command p))) =
                tl (dropWhile (\<lambda>c. c \<noteq> LF) (remaining (ps_cursor p)))
         else \<not> fst (mc_parse_command p))) \<and>
     (st_quit (ps_state (snd (mc_parse_command p))) \<and> \<not> st_quit (ps_state p) \<longrightarrow>
        \<not> fst (mc_parse_command p) \<and> \<not> ps_error (snd (mc_parse_command p)) \<and>
        c_result (ps_command (snd (mc_parse_command p))) = MC_RESULT_QUIT \<and>
        1024 < length (remaining (ps_cursor p))) \<and>
     (set (remaining (ps_cursor p)) \<subseteq> {CHR '' ''} \<longrightarrow>
        \<not> fst (mc_parse_command p) \<and> \<not> ps_error (snd (mc_parse_command p)) \<and>
        st_quit (ps_state (snd (mc_parse_command p))) =
          (st_quit (ps_state p) \<or> 1024 < length (remaining (ps_cursor p))))"
proof -
  let ?pe = "p\<lparr>ps_error := True\<rparr>"
  have 1: "LF \<in> set (remaining (ps_cursor p)) \<longrightarrow>
        fst (mc_parse_error p err) \<and> ps_error (snd (mc_parse_error p err)) \<and>
        c_result (ps_command (snd (mc_parse_error p err))) = MC_RESULT_REPLY err \<and>
        remaining (ps_cursor (snd (mc_parse_error p err))) =
          tl (dropWhile (\<lambda>c. c \<noteq> LF) (remaining (ps_cursor p))) \<and>
        ps_state (snd (mc_parse_error p err)) = ps_state p"
  proof
    assume "LF \<in> set (remaining (ps_cursor p))"
    then have a: "LF \<in> set (remaining (ps_cursor ?pe))" by simp
    have b: "cursor_ok (ps_cursor ?pe)" using assms(1) by simp
    from error_loop_found[OF a b, of err] obtain p' where
      "mc_parse_error p err = (True, p')"
      "remaining (ps_cursor p') = tl (dropWhile (\<lambda>c. c \<noteq> LF) (remaining (ps_cursor p)))"
      "ps_command p' = mc_reply (ps_command p) err" "ps_state p' = ps_state p" "ps_error p'"
      by (auto simp: mc_parse_error_def)
    then show "fst (mc_parse_error p err) \<and> ps_error (snd (mc_parse_error p err)) \<and>
        c_result (ps_command (snd (mc_parse_error p err))) = MC_RESULT_REPLY err \<and>
        remaining (ps_cursor (snd (mc_parse_error p err))) =
          tl (dropWhile (\<lambda>c. c \<noteq> LF) (remaining (ps_cursor p))) \<and>
        ps_state (snd (mc_parse_error p err)) = ps_state p"
      by (simp add: mc_reply_def)
  qed
  have 2: "LF \<notin> set (remaining (ps_cursor p)) \<longrightarrow>
        \<not> fst (mc_parse_error p err) \<and> ps_error (snd (mc_parse_error p err)) \<and>
        ps_command (snd (mc_parse_error p err)) = ps_command p \<and>
        ps_state (snd (mc_parse_error p err)) = ps_state p"
  proof
    assume "LF \<notin> set (remaining (ps_cursor p))"
    then have a: "LF \<notin> set (remaining (ps_cursor ?pe))" by simp
    from error_loop_missing[OF a, of err] obtain p' where
      "mc_parse_error p err = (False, p')" "ps_command p' = ps_command p"
      "ps_state p' = ps_state p" "ps_error p'"
      by (auto simp: mc_parse_error_def)
    then show "\<not> fst (mc_parse_error p err) \<and> ps_error (snd (mc_parse_error p err)) \<and>
        ps_command (snd (mc_parse_error p err)) = ps_command p \<and>
        ps_state (snd (mc_parse_error p err)) = ps_state p"
      by simp
  qed
  obtain rc p' where run: "mc_parse_command p = (rc, p')" by (cases "mc_parse_command p") auto
  then have loop: "mc_parse_command_loop p \<lparr>sc_state = S_START, sc_start = - 1, sc_rest = []\<rparr> 0 = (rc, p')"
    by (simp add: mc_parse_command_def)
  note spec = command_loop_spec[OF loop assms(1) start_scanner_inv assms(2)]
  have 3: "ps_error (snd (mc_parse_command p)) \<longrightarrow>
        ps_state (snd (mc_parse_command p)) = ps_state p \<and>
        (if LF \<in> set (remaining (ps_cursor p))
         then fst (mc_parse_command p) \<and>
              c_result (ps_command (snd (mc_parse_command p))) = MC_RESULT_REPLY (''ERROR'' @ crlf) \<and>
              remaining (ps_cursor (snd (mc_parse_command p))) =
                tl (dropWhile (\<lambda>c. c \<noteq> LF) (remaining (ps_cursor p)))
         else \<not> fst (mc_parse_command p))"
    using spec unfolding run by simp
  have 4: "st_quit (ps_state (snd (mc_parse_command p))) \<and> \<not> st_quit (ps_state p) \<longrightarrow>
        \<not> fst (mc_parse_command p) \<and> \<not> ps_error (snd (mc_parse_command p)) \<and>
        c_result (ps_command (snd (mc_parse_command p))) = MC_RESULT_QUIT \<and>
        1024 < length (remaining (ps_cursor p))"
    using spec unfolding run by simp
  have 5: "set (remaining (ps_cursor p)) \<subseteq> {CHR '' ''} \<longrightarrow>
        \<not> fst (mc_parse_command p) \<and> \<not> ps_error (snd (mc_parse_command p)) \<and>
        st_quit (ps_state (snd (mc_parse_command p))) =
          (st_quit (ps_state p) \<or> 1024 < length (remaining (ps_cursor p)))"
  proof
    assume a: "set (remaining (ps_cursor p)) \<subseteq> {CHR '' ''}"
    from command_loop_spaces[OF a assms(1), of "\<lparr>sc_state = S_START, sc_start = - 1, sc_rest = []\<rparr>" 0]
      loop assms(2)
    show "\<not> fst (mc_parse_command p) \<and> \<not> ps_error (snd (mc_parse_command p)) \<and>
        st_quit (ps_state (snd (mc_parse_command p))) =
          (st_quit (ps_state p) \<or> 1024 < length (remaining (ps_cursor p)))"
      unfolding run by auto
  qed
  from 1 2 3 4 5 show ?thesis by blast
qed



text \<open>
  The theorem at three inputs: a line with an unknown command followed by another command,
  the same unknown command without its line end, and 1025 blanks.
\<close>

theorem parse_failure_skips_line_witness:
  "fst (mc_parse_error (parser_on (''bogus'' @ crlf @ ''get a'' @ crlf) [])
          (''CLIENT_ERROR missing parameter'' @ crlf)) \<and>
   c_result (ps_command (snd (mc_parse_error (parser_on (''bogus'' @ crlf @ ''get a'' @ crlf) [])
          (''CLIENT_ERROR missing parameter'' @ crlf)))) =
     MC_RESULT_REPLY (''CLIENT_ERROR missing parameter'' @ crlf) \<and>
   fst (mc_parse_command (parser_on (''bogus'' @ crlf @ ''get a'' @ crlf) [])) \<and>
   c_result (ps_command (snd (mc_parse_command (parser_on (''bogus'' @ crlf @ ''get a'' @ crlf) [])))) =
     MC_RESULT_REPLY (''ERROR'' @ crlf) \<and>
   remaining (ps_cursor (snd (mc_parse_command (parser_on (''bogus'' @ crlf @ ''get a'' @ crlf) [])))) =
     ''get a'' @ crlf \<and>
   \<not> fst (mc_parse_error (parser_on ''bogus'' []) (''CLIENT_ERROR missing parameter'' @ crlf)) \<and>
   \<not> fst (mc_parse_command (parser_on ''bogus'' [])) \<and>
   \<not> st_quit (ps_state (snd (mc_parse_command (parser_on ''bogus'' [])))) \<and>
   \<not> fst (mc_parse_command (parser_on (replicate 1025 CHR '' '') [])) \<and>
   st_quit (ps_state (snd (mc_parse_command (parser_on (replicate 1025 CHR '' '') [])))) \<and>
   c_result (ps_command (snd (mc_parse_command (parser_on (replicate 1025 CHR '' '') [])))) =
     MC_RESULT_QUIT"
proof -
  let ?p1 = "parser_on (''bogus'' @ crlf @ ''get a'' @ crlf) []"
  let ?p2 = "parser_on ''bogus'' []"
  let ?p3 = "parser_on (replicate 1025 CHR '' '') []"
  let ?e = "''CLIENT_ERROR missing parameter'' @ crlf"
  note ev = mc_parse_command_def mc_parse_command_loop.simps parser_on_def window_def
    parse_char_def command_start_def C_macro_def char_int_def LF_def CR_def crlf_def
    mc_parse_error_def mc_parse_error_loop.simps memchr_def mm_buffer_next_out_def Let_def
  have ok: "cursor_ok (ps_cursor ?p1)" "cursor_ok (ps_cursor ?p2)" "cursor_ok (ps_cursor ?p3)"
    and ne: "\<not> ps_error ?p1" "\<not> ps_error ?p2" "\<not> ps_error ?p3"
    by (simp_all add: parser_on_def cursor_ok_def)
  have lf1: "LF \<in> set (remaining (ps_cursor ?p1))"
    by (simp add: parser_on_def remaining_def window_def crlf_def)
  have dw1: "tl (dropWhile (\<lambda>c. c \<noteq> LF) (remaining (ps_cursor ?p1))) = ''get a'' @ crlf"
    by (simp add: parser_on_def remaining_def window_def crlf_def LF_def CR_def)
  have e1: "ps_error (snd (mc_parse_command ?p1))" by (simp add: ev)
  have lf2: "LF \<notin> set (remaining (ps_cursor ?p2))"
    by (simp add: parser_on_def remaining_def window_def LF_def)
  have e2: "ps_error (snd (mc_parse_command ?p2))" by (simp add: ev)
  have q2: "\<not> st_quit (ps_state ?p2)" "\<not> st_quit (ps_state ?p3)"
    by (simp_all add: parser_on_def mc_create_def)
  have sp3: "set (remaining (ps_cursor ?p3)) \<subseteq> {CHR '' ''}"
    and len3: "length (remaining (ps_cursor ?p3)) = 1025"
    by (simp_all add: parser_on_def remaining_def window_def)
  note t1 = parse_failure_skips_line[OF ok(1) ne(1), of ?e]
  note t2 = parse_failure_skips_line[OF ok(2) ne(2), of ?e]
  note t3 = parse_failure_skips_line[OF ok(3) ne(3), of ?e]
  from t1 lf1 e1 have a: "fst (mc_parse_error ?p1 ?e)"
    "c_result (ps_command (snd (mc_parse_error ?p1 ?e))) = MC_RESULT_REPLY ?e"
    "fst (mc_parse_command ?p1)"
    "c_result (ps_command (snd (mc_parse_command ?p1))) = MC_RESULT_REPLY (''ERROR'' @ crlf)"
    "remaining (ps_cursor (snd (mc_parse_command ?p1))) = ''get a'' @ crlf"
    unfolding dw1 by simp_all
  from t2 lf2 e2 q2(1) have b: "\<not> fst (mc_parse_error ?p2 ?e)" "\<not> fst (mc_parse_command ?p2)"
    "\<not> st_quit (ps_state (snd (mc_parse_command ?p2)))"
    by simp_all
  from t3 sp3 have c1: "\<not> fst (mc_parse_command ?p3)"
    "st_quit (ps_state (snd (mc_parse_command ?p3)))"
    unfolding len3 by simp_all
  with t3 q2(2) have c2: "c_result (ps_command (snd (mc_parse_command ?p3))) = MC_RESULT_QUIT"
    by blast
  from a b c1 c2 show ?thesis by blast
qed

text \<open>
  Claim C8, evaluated on an input of 1104 bytes without a line feed that do not start a
  command.  \<open>mc_parse_command\<close> fails at the fourth byte and \<open>mc_parse_error\<close> skips all the
  bytes that follow, looking for the line feed; it keeps no count of them and asks
  \<open>mm_buffer_next_out\<close> for the next segment where the other scanning loops ask
  \<open>mc_more_input\<close> with their count.  So the parser asks for more input, the command has no
  result and the quit flag stays clear, although more than 1024 bytes of junk were scanned.
\<close>

theorem junk_line_does_not_quit:
  "length (remaining (ps_cursor (parser_on (''junk'' @ replicate 1100 CHR ''x'') []))) = 1104 \<and>
   LF \<notin> set (remaining (ps_cursor (parser_on (''junk'' @ replicate 1100 CHR ''x'') []))) \<and>
   \<not> fst (mc_parse_command (parser_on (''junk'' @ replicate 1100 CHR ''x'') [])) \<and>
   ps_error (snd (mc_parse_command (parser_on (''junk'' @ replicate 1100 CHR ''x'') []))) \<and>
   \<not> st_quit (ps_state (snd (mc_parse_command (parser_on (''junk'' @ replicate 1100 CHR ''x'') [])))) \<and>
   c_result (ps_command (snd (mc_parse_command (parser_on (''junk'' @ replicate 1100 CHR ''x'') [])))) =
     MC_RESULT_NONE"
proof -
  let ?p = "parser_on (''junk'' @ replicate 1100 CHR ''x'') []"
  let ?p1 = "?p\<lparr>ps_cursor := (ps_cursor ?p)\<lparr>cur_ptr := Suc (Suc (Suc 0))\<rparr>, ps_error := True\<rparr>"
  have len: "length (remaining (ps_cursor ?p)) = 1104"
    by (simp add: parser_on_def remaining_def window_def)
  have lf: "LF \<notin> set (remaining (ps_cursor ?p))"
    by (simp add: parser_on_def remaining_def window_def LF_def)
  have lf1: "LF \<notin> set (remaining (ps_cursor ?p1))"
    by (simp add: parser_on_def remaining_def window_def LF_def)
  have run: "mc_parse_command ?p = mc_parse_error_loop ?p1 (''ERROR'' @ crlf)"
    by (simp add: mc_parse_command_def mc_parse_command_loop.simps parser_on_def window_def
        parse_char_def command_start_def C_macro_def char_int_def LF_def Let_def mc_parse_error_def)
  from error_loop_missing[OF lf1, of "''ERROR'' @ crlf"] obtain p' where
    "mc_parse_error_loop ?p1 (''ERROR'' @ crlf) = (False, p')" "ps_command p' = ps_command ?p1"
    "ps_state p' = ps_state ?p1" "ps_error p' = ps_error ?p1" by blast
  then have "\<not> fst (mc_parse_command ?p)" "ps_error (snd (mc_parse_command ?p))"
    "\<not> st_quit (ps_state (snd (mc_parse_command ?p)))"
    "c_result (ps_command (snd (mc_parse_command ?p))) = MC_RESULT_NONE"
    unfolding run by (simp_all add: parser_on_def mc_create_def mc_command_create_def)
  with len lf show ?thesis by blast
qed



section \<open>The reply of incr on the wire\<close>


text \<open>
  Claim C7, evaluated on \<open>set k 0 0 1\<close> with the payload \<open>0\<close> followed by \<open>incr k 1\<close>, processed on
  a new connection and an empty table, the entries being allocated at the addresses 1 and
  2.  The result of \<open>incr\<close> is the new entry, which holds the value \<open>1\<close>.  For such a result
  \<open>mc_transmit_buffer\<close> splices the value and appends \<open>END\<close> and a line end, without the line
  end behind the value that it appends for the entries of a \<open>get\<close>: the writer sends
  \<open>STORED\<close>, a line end, and then \<open>1END\<close> and a line end, not the value \<open>1\<close> on a line of its
  own.
\<close>

theorem incr_reply_lacks_line_end:
  "\<exists>state1 s1 state2 s2 state3 s3.
     mc_process_command 1 mc_create (storage_command mc_desc_set ''k'' 0 ''0'') ex_empty =
       Some (state1, s1) \<and>
     mc_process_command 2 state1 (key_command mc_desc_incr ''k'' 1) s1 = Some (state2, s2) \<and>
     map c_result (st_queue state2) = [MC_RESULT_REPLY (''STORED'' @ crlf), MC_RESULT_VALUE 2] \<and>
     mc_entry_value (heap s2 2) = ''1'' \<and>
     mc_writer_routine state2 s2 = Some (state3, s3) \<and>
     st_queue state3 = [] \<and>
     st_output state3 = ''STORED'' @ crlf @ ''1END'' @ crlf \<and>
     st_output state3 \<noteq> ''STORED'' @ crlf @ ''1'' @ crlf"
proof -
  let ?k = "''k''"
  let ?kl = "of_nat (length ?k) :: 8 word"
  let ?set = "storage_command mc_desc_set ?k 0 ''0''"
  let ?incr = "key_command mc_desc_incr ?k 1"
  have key: "par_key (c_params ?set) = ?k" by (simp add: storage_command_def no_params_def)
  have len: "unat (v_bytes (par_value (c_params ?set))) \<le> length (v_data (par_value (c_params ?set)))"
    by (simp add: storage_command_def no_params_def)
  obtain c1 s1 where r1: "mc_process_set 1 ?set ex_empty = Some (c1, s1)"
    "mc_table_lookup s1 (mc_table_key_index s1 ?k ?kl) ?k ?kl = Some 1"
    "set (t_table s1 (mc_table_key_index s1 ?k ?kl))
       \<subseteq> insert 1 (set (t_table ex_empty (mc_table_key_index ex_empty ?k ?kl)))"
    "mc_entry_value (heap s1 1) =
       take (unat (v_bytes (par_value (c_params ?set)))) (v_data (par_value (c_params ?set)))"
    "c_result c1 = (if par_noreply (c_params ?set) then MC_RESULT_BLANK
                    else MC_RESULT_REPLY (''STORED'' @ crlf))"
    using set_then_lookup[OF key len, of 1 ex_empty] by blast
  have res1: "c_result c1 = MC_RESULT_REPLY (''STORED'' @ crlf)"
    using r1(5) by (simp add: storage_command_def no_params_def)
  have val: "mc_entry_value (heap s1 1) = dec 0"
    using r1(4) by (simp add: storage_command_def no_params_def dec.simps char_of_def bit_iff_odd)
  have fresh: "2 \<notin> set (t_table s1 (mc_table_key_index s1 ?k ?kl))"
    using r1(3) by (auto simp: ex_empty_def)
  have ik: "par_key (c_params ?incr) = ?k" "par_inc (c_params ?incr) = 1"
    "\<not> par_noreply (c_params ?incr)"
    by (simp_all add: key_command_def no_params_def)
  obtain c2 s2 where r2: "mc_process_incr 2 ?incr s1 = Some (c2, s2)"
    "mc_entry_value (heap s2 2) = dec (unat (of_nat 0 + 1 :: 64 word))"
    "e_ref_count (heap s2 2) = (if par_noreply (c_params ?incr) then 1 else 2)"
    "c_result c2 = (if par_noreply (c_params ?incr) then MC_RESULT_BLANK else MC_RESULT_VALUE 2)"
    using incr_result[OF r1(2) val _ fresh ik(1) ik(2)] by auto
  have v2: "mc_entry_value (heap s2 2) = ''1''"
    using r2(2) by (simp add: dec.simps char_of_def bit_iff_odd)
  have rc2: "e_ref_count (heap s2 2) + 1 \<noteq> 0" using r2(3) ik(3) by simp
  have res2: "c_result c2 = MC_RESULT_VALUE 2" using r2(4) ik(3) by simp
  define state1 where "state1 = (mc_queue_command mc_create c1)\<lparr>st_writers := st_writers mc_create + 1\<rparr>"
  define state2 where "state2 = (mc_queue_command state1 c2)\<lparr>st_writers := st_writers state1 + 1\<rparr>"
  have p1: "mc_process_command 1 mc_create ?set ex_empty = Some (state1, s1)"
    using r1(1) by (simp add: mc_process_command_def storage_command_def state1_def)
  have p2: "mc_process_command 2 state1 ?incr s1 = Some (state2, s2)"
    using r2(1) by (simp add: mc_process_command_def key_command_def state2_def)
  have q2: "st_queue state2 = [c1, c2]" "st_tbuf state2 = []" "\<not> st_quit state2" "\<not> st_closed state2"
    "st_output state2 = []"
    by (simp_all add: state2_def state1_def mc_queue_command_def mc_create_def)
  define tb where "tb = [Data (''STORED'' @ crlf), Splice 2 (e_value_len (heap s2 2)), Data (''END'' @ crlf)]"
  obtain s3 where ref: "mc_entry_ref 2 s2 = Some s3" using ref_Some[OF rc2] by blast
  note h3 = ref_content[OF ref]
  have t1: "mc_transmit_buffer state2 c1 s2 = Some (state2\<lparr>st_tbuf := [Data (''STORED'' @ crlf)]\<rparr>, s2)"
    using res1 q2 by (simp add: mc_transmit_buffer_def buffer_append_def)
  have t2: "mc_transmit_buffer (state2\<lparr>st_tbuf := [Data (''STORED'' @ crlf)]\<rparr>) c2 s2 =
      Some (state2\<lparr>st_tbuf := tb\<rparr>, s3)"
    using res2 ref by (simp add: mc_transmit_buffer_def buffer_append_def buffer_splice_def tb_def)
  have wl: "writer_loop c1 [c2] 0 state2 s2 = Some (2, 2, state2\<lparr>st_tbuf := tb\<rparr>, s3)"
    using q2 t1 t2 res2 by simp
  have "take (unat (e_value_len (heap s2 2))) (e_value (heap s3 2)) = mc_entry_value (heap s2 2)"
    unfolding h3 by (simp add: mc_entry_value_def)
  then have w: "wire (heap s3) tb = ''STORED'' @ crlf @ ''1END'' @ crlf"
    by (simp add: tb_def v2)
  define state3 where "state3 = fst (mc_transmit (state2\<lparr>st_tbuf := tb\<rparr>) s3)\<lparr>st_queue := []\<rparr>"
  have out: "st_output state3 = wire (heap s3) tb" "st_queue state3 = []"
    using q2 by (simp_all add: state3_def mc_transmit_def)
  have "\<exists>s4. mc_writer_routine state2 s2 = Some (state3, s4)"
    using q2 res1 wl by (simp add: mc_writer_routine_def Let_def state3_def split: prod.splits)
  then obtain s4 where wr: "mc_writer_routine state2 s2 = Some (state3, s4)" by blast
  have qr: "map c_result (st_queue state2) = [MC_RESULT_REPLY (''STORED'' @ crlf), MC_RESULT_VALUE 2]"
    using q2(1) res1 res2 by simp
  have o: "st_output state3 = ''STORED'' @ crlf @ ''1END'' @ crlf" using out(1) w by simp
  have no: "st_output state3 \<noteq> ''STORED'' @ crlf @ ''1'' @ crlf"
    unfolding o by (simp add: crlf_def CR_def)
  note q3 = out(2)
  show ?thesis
    apply (rule exI[of _ state1], rule exI[of _ s1], rule exI[of _ state2], rule exI[of _ s2])
    apply (rule exI[of _ state3], rule exI[of _ s4])
    apply (intro conjI)
    apply (fact p1, fact p2, fact qr, fact v2, fact wr, fact q3, fact o, fact no)
    done
qed


end
